(* ===== verification/Prelude.thy ===== *)
theory Prelude
  imports Main "HOL-Library.Word"
begin

unbundle bit_operations_syntax

text \<open>
  Shared vocabulary of the development: the C integer types as machine words, the
  outcome of code that may leave the ordinary control flow, the theorem collections
  that carry the component proofs, and the generic facts on words and on modular
  arithmetic that several components use.

  C's \<^verbatim>\<open>uint8\<close>, \<^verbatim>\<open>unsigned short\<close>, \<^verbatim>\<open>unsigned int\<close>/\<^verbatim>\<open>uint32\<close> and \<^verbatim>\<open>uint64\<close> are words of
  their width, so that every wrap-around of the source is a wrap-around of the model.
\<close>

type_synonym u8 = "8 word"
type_synonym u16 = "16 word"
type_synonym u32 = "32 word"
type_synonym u64 = "64 word"
type_synonym u256 = "256 word"

text \<open>
  How execution can leave the emulated program: the process calls \<^verbatim>\<open>exit\<close> (its status
  and everything written to standard output), it reads or writes an array outside its
  bounds or leaves the range of a signed integer (undefined behaviour in C), it reads a variable
  that was never assigned, it dereferences the null pointer returned by an exhausted allocator, it
  enters a loop that never ends, it calls \<^verbatim>\<open>abort\<close>, or the processor raises an exception, which
  returns to the main loop of the emulator.
\<close>

datatype stop =
    Exited int string
  | OutOfBounds
  | NullDeref
  | Uninitialised
  | Diverges
  | SignedOverflow
  | Aborted
  | Raised nat

type_synonym 'a run = "stop + 'a"

definition rbind :: "'a run \<Rightarrow> ('a \<Rightarrow> 'b run) \<Rightarrow> 'b run" where
  "rbind r f = (case r of Inl e \<Rightarrow> Inl e | Inr x \<Rightarrow> f x)"

lemma rbind_simps [simp]:
  "rbind (Inl e) f = Inl e"
  "rbind (Inr x) f = f x"
  by (simp_all add: rbind_def)

lemma rbind_assoc: "rbind (rbind r f) g = rbind r (\<lambda>x. rbind (f x) g)"
  by (cases r) simp_all

lemma rbind_eq_Inr: "rbind r f = Inr y \<longleftrightarrow> (\<exists>x. r = Inr x \<and> f x = Inr y)"
  by (cases r) auto

definition guard :: "bool \<Rightarrow> stop \<Rightarrow> unit run" where
  "guard b e = (if b then Inr () else Inl e)"

lemma guard_True [simp]: "guard True e = Inr ()"
  and guard_False [simp]: "guard False e = Inl e"
  by (simp_all add: guard_def)

named_theorems bn_val \<open>values of the big-number operations\<close>
named_theorems bn_len \<open>lengths of the big-number operations\<close>
named_theorems frame \<open>fields an operation leaves alone\<close>

subsection \<open>Words\<close>

lemma unat_ucast_le:
  "LENGTH('a::len) \<le> LENGTH('b::len) \<Longrightarrow> unat (ucast (w :: 'a word) :: 'b word) = unat w"
  by (simp add: is_up nat_int_comparison(1) uint_up_ucast)

lemma unat_ucast_mod:
  "unat (ucast (w :: 'a::len word) :: 'b::len word) = unat w mod 2 ^ LENGTH('b)"
  by (metis take_bit_eq_mod unsigned_ucast_eq)

lemma unat_lt16: "unat (d :: u16) < 65536"
  using unsigned_less [of d, where 'a = nat] by simp

lemma unat_lt8: "unat (d :: u8) < 256"
  using unsigned_less [of d, where 'a = nat] by simp

lemma unat_lt64: "unat (d :: u64) < 18446744073709551616"
  using unsigned_less [of d, where 'a = nat] by simp

lemma ucast_u16_up [simp]: "unat (ucast (d :: u16) :: u32) = unat d"
  by (simp add: unat_ucast_le)

lemma unat_drop_bit [simp]: "unat (drop_bit n (w :: 'a::len word)) = unat w div 2 ^ n"
  unfolding unat_drop_bit_eq by (rule drop_bit_eq_div)

lemma unat_push_bit: "unat (push_bit n (w :: 'a::len word)) = unat w * 2 ^ n mod 2 ^ LENGTH('a)"
proof -
  have "unat (push_bit n w) = take_bit LENGTH('a) (push_bit n (unat w))"
    by (rule unsigned_push_bit_eq)
  then show ?thesis
    by (simp add: take_bit_eq_mod push_bit_eq_mult)
qed

lemma unat_or_disjoint:
  fixes v w :: "'a::len word"
  assumes "v AND w = 0"
  shows "unat (v OR w) = unat v + unat w"
proof -
  have "unat v AND unat w = 0"
    by (metis assms unsigned_0 unsigned_and_eq)
  then show ?thesis
    by (simp add: unsigned_or_eq disjunctive_add_eq_or)
qed

lemma bit_imp_le_unat: "bit (w :: 'a::len word) n \<Longrightarrow> 2 ^ n \<le> unat w"
proof -
  assume "bit w n"
  then have "bit (unat w) n" by (simp add: bit_simps bit_imp_possible_bit)
  then show ?thesis by (metis bit_iff_odd div_less even_zero linorder_not_less)
qed

lemma unat_or_high:
  fixes v w :: "'a::len word"
  assumes "unat v < 2 ^ k" and "unat w = r * 2 ^ k"
  shows "unat (v OR w) = unat v + unat w"
proof (rule unat_or_disjoint, rule bit_eqI)
  fix n
  have "bit v n \<Longrightarrow> n < k" using le_less_trans [OF bit_imp_le_unat assms(1)] by simp
  moreover have "bit w n \<Longrightarrow> k \<le> n"
  proof -
    assume "bit w n"
    then have "bit (unat w) n" by (simp add: bit_simps bit_imp_possible_bit)
    then have "bit (push_bit k r) n" by (simp only: assms(2) push_bit_eq_mult)
    then show "k \<le> n" by (simp add: bit_simps)
  qed
  ultimately show "bit (v AND w) n = bit 0 n" by (auto simp: bit_simps)
qed

lemma unat_inj_iff: "unat (v :: 'a::len word) = unat w \<longleftrightarrow> v = w"
  by (simp add: word_eq_iff_unsigned [where 'a = nat])

subsection \<open>Modular arithmetic\<close>

lemma digit_eq_iff:
  fixes a b m n B :: nat
  assumes "a < B" and "b < B"
  shows "a + B * m = b + B * n \<longleftrightarrow> a = b \<and> m = n"
proof
  assume e: "a + B * m = b + B * n"
  have "a = (a + B * m) mod B" and "b = (b + B * n) mod B" using assms by simp_all
  moreover have "m = (a + B * m) div B" and "n = (b + B * n) div B" using assms by simp_all
  ultimately show "a = b \<and> m = n" using e by metis
qed simp

lemma neg_mod_int:
  fixes D m :: int
  assumes "- m \<le> D" and "D < 0"
  shows "D mod m = D + m"
proof -
  have "D mod m = (D + m) mod m" by simp
  also have "(D + m) mod m = D + m"
    by (rule mod_pos_pos_trivial) (use assms in auto)
  finally show ?thesis .
qed

lemma carry_step:
  fixes lo d a V R k P B :: nat
  assumes "lo + B * d = a" and "V + d = R + k * P"
  shows "a + B * V = lo + B * R + k * (B * P)"
proof -
  have "B * V + B * d = B * R + B * (k * P)"
    using assms(2) by (metis distrib_left)
  with assms(1) show ?thesis by (simp add: ac_simps)
qed

lemma borrow_step:
  fixes lo d a V R k P B :: int
  assumes "lo = a + B * d" and "R = V - d + k * P"
  shows "lo + B * R = a + B * V + k * (B * P)"
  unfolding assms by (simp add: algebra_simps)

end
