(* ===== verification/Bignum.thy ===== *)
theory Bignum
  imports Prelude
begin

text \<open>
  The big-number digits of \<^verbatim>\<open>target-ppdl/v_bignum.c\<close>: initialisers, bit operators,
  shifts, comparators and the carry loops of addition, subtraction and multiplication.

  A C number is a vector whose first element holds the count \<open>n\<close> of 16-bit digits and
  whose next \<open>n\<close> elements hold the digits, least significant first. The model is the
  list of the digits; the count is the length of the list. \<^verbatim>\<open>VBigDig\<close> is a 16-bit word,
  and every intermediate \<^verbatim>\<open>unsigned int\<close> is a 32-bit word, so the carries are computed
  exactly as the code computes them. Where the C code asks whether two pointers are the
  same, the model takes the answer as a Boolean argument \<open>same\<close>.

  The meaning of a number is \<open>bval\<close>; the lemmas show each routine's effect on it.
\<close>

type_synonym vbig = "u16 list"

primrec bval :: "vbig \<Rightarrow> nat" where
  "bval [] = 0"
| "bval (d # ds) = unat d + 65536 * bval ds"

definition MAX_DIG :: u32 where
  "MAX_DIG = 65535"

section \<open>Initialisers\<close>

definition v_bignum_set_zero :: "vbig \<Rightarrow> vbig" where
  "v_bignum_set_zero x = replicate (length x) 0"

fun v_bignum_set_one :: "vbig \<Rightarrow> vbig" where
  "v_bignum_set_one [] = []"
| "v_bignum_set_one (d # ds) = 1 # replicate (length ds) 0"

definition v_bignum_set_digit :: "vbig \<Rightarrow> u16 \<Rightarrow> vbig" where
  "v_bignum_set_digit x y = (v_bignum_set_zero x)[0 := y]"

definition v_bignum_set_bignum :: "vbig \<Rightarrow> vbig \<Rightarrow> vbig" where
  "v_bignum_set_bignum x y =
     (let xs = length x; ys = length y in
      if xs = ys then y
      else let s = (if ys > xs then xs else ys) in
        map (\<lambda>i. if i < s then y ! i else 0) [0..<xs])"

section \<open>Bitwise operators on whole numbers\<close>

fun digits_bitop :: "(u32 \<Rightarrow> u32 \<Rightarrow> u32) \<Rightarrow> vbig \<Rightarrow> vbig \<Rightarrow> vbig" where
  "digits_bitop f [] ys = []"
| "digits_bitop f (x # xs) [] = x # xs"
| "digits_bitop f (x # xs) (y # ys) = ucast (f (ucast x) (ucast y)) # digits_bitop f xs ys"

definition v_bignum_and :: "vbig \<Rightarrow> vbig \<Rightarrow> vbig" where
  "v_bignum_and x y = digits_bitop (AND) x y"

definition v_bignum_or :: "vbig \<Rightarrow> vbig \<Rightarrow> vbig" where
  "v_bignum_or x y = digits_bitop (OR) x y"

definition v_bignum_xor :: "vbig \<Rightarrow> vbig \<Rightarrow> vbig" where
  "v_bignum_xor x y = digits_bitop (XOR) x y"

definition v_bignum_not :: "vbig \<Rightarrow> vbig" where
  "v_bignum_not x = map (\<lambda>d. NOT d) x"

section \<open>Single bits\<close>

definition bit_slot :: "u32 \<Rightarrow> nat" where
  "bit_slot b = unat b div 16"

definition bit_mask :: "u32 \<Rightarrow> u32" where
  "bit_mask b = push_bit (unat b mod 16) 1"

definition v_bignum_bit_test :: "vbig \<Rightarrow> u32 \<Rightarrow> bool" where
  "v_bignum_bit_test x b =
     (if bit_slot b < length x then ucast (x ! bit_slot b) AND bit_mask b \<noteq> 0 else False)"

definition v_bignum_bit_set :: "vbig \<Rightarrow> u32 \<Rightarrow> vbig" where
  "v_bignum_bit_set x b =
     (if unat b \<ge> length x * 16 then x
      else x[bit_slot b := ucast (ucast (x ! bit_slot b) OR bit_mask b)])"

definition v_bignum_bit_clear :: "vbig \<Rightarrow> u32 \<Rightarrow> vbig" where
  "v_bignum_bit_clear x b =
     (if unat b \<ge> length x * 16 then x
      else x[bit_slot b := ucast (ucast (x ! bit_slot b) AND NOT (bit_mask b))])"

function msb_mask_loop :: "u16 \<Rightarrow> u16 \<Rightarrow> int \<Rightarrow> int option" where
  "msb_mask_loop d m b =
     (if m = 0 then None
      else if d AND m \<noteq> 0 then Some b
      else msb_mask_loop d (drop_bit 1 m) (b - 1))"
  by pat_completeness auto
termination
  by (relation "measure (\<lambda>(d, m, b). unat m)")
     (auto simp: unat_gt_0 )

primrec bit_msb_loop :: "vbig \<Rightarrow> nat \<Rightarrow> int" where
  "bit_msb_loop x 0 = - 1"
| "bit_msb_loop x (Suc i) =
     (if x ! i \<noteq> 0
      then (case msb_mask_loop (x ! i) (push_bit 15 1) ((int i + 1) * 16 - 1) of
              Some b \<Rightarrow> b
            | None \<Rightarrow> bit_msb_loop x i)
      else bit_msb_loop x i)"

definition v_bignum_bit_msb :: "vbig \<Rightarrow> int" where
  "v_bignum_bit_msb x = bit_msb_loop x (length x)"

definition v_bignum_bit_size :: "vbig \<Rightarrow> nat" where
  "v_bignum_bit_size x = length x * 16"

definition v_bignum_set_bignum_part :: "vbig \<Rightarrow> vbig option \<Rightarrow> u32 \<Rightarrow> u32 \<Rightarrow> vbig" where
  "v_bignum_set_bignum_part x y msb bits =
     (let x0 = v_bignum_set_zero x in
      case y of
        None \<Rightarrow> x0
      | Some ds \<Rightarrow>
          if unat msb > length ds * 16 then x0
          else foldl (\<lambda>x i. if v_bignum_bit_test ds (msb - (bits - 1) + of_nat i)
                            then v_bignum_bit_set x (of_nat i) else x)
                 x0 [0..<unat bits])"

section \<open>Shifts\<close>

fun shift_left_loop :: "nat \<Rightarrow> u32 \<Rightarrow> vbig \<Rightarrow> vbig" where
  "shift_left_loop count carry [] = []"
| "shift_left_loop count carry (x # xs) =
     (let t = push_bit count (ucast x) OR carry in
      ucast t # shift_left_loop count (drop_bit 16 t) xs)"

definition v_bignum_bit_shift_left :: "vbig \<Rightarrow> nat \<Rightarrow> vbig" where
  "v_bignum_bit_shift_left x count =
     (if count \<ge> 16 then
        let places = count div 16;
            x1 = map (\<lambda>i. if i \<ge> places then x ! (i - places) else 0) [0..<length x];
            count1 = count - places * 16
        in if count1 = 0 then x1 else shift_left_loop count1 0 x1
      else shift_left_loop count 0 x)"

definition v_bignum_bit_shift_left_1 :: "vbig \<Rightarrow> vbig" where
  "v_bignum_bit_shift_left_1 x = shift_left_loop 1 0 x"

fun shift_right_loop :: "nat \<Rightarrow> u32 \<Rightarrow> vbig \<Rightarrow> vbig" where
  "shift_right_loop count carry [] = []"
| "shift_right_loop count carry (x # xs) =
     (let t = drop_bit count (push_bit 16 (ucast x)) OR carry in
      ucast (drop_bit 16 t) # shift_right_loop count (push_bit 16 (t AND MAX_DIG)) xs)"

definition v_bignum_bit_shift_right :: "vbig \<Rightarrow> nat \<Rightarrow> vbig" where
  "v_bignum_bit_shift_right x count =
     (let s = length x; bits = (\<lambda>c ds. rev (shift_right_loop c 0 (rev ds))) in
      if count \<ge> 16 then
        let places = count div 16 in
        if places > s then replicate s 0
        else
          let x1 = map (\<lambda>i. if i < s - places then x ! (i + places) else 0) [0..<s];
              count1 = count - places * 16
          in if count1 = 0 then x1 else bits count1 x1
      else bits count x)"

section \<open>Comparators\<close>

definition v_bignum_eq_zero :: "vbig \<Rightarrow> bool" where
  "v_bignum_eq_zero x = (\<not> list_ex (\<lambda>d. d \<noteq> 0) x)"

fun v_bignum_eq_one :: "vbig \<Rightarrow> bool" where
  "v_bignum_eq_one [] = False"
| "v_bignum_eq_one (d # ds) = (if d \<noteq> 1 then False else \<not> list_ex (\<lambda>d. d \<noteq> 0) ds)"

definition v_bignum_eq :: "bool \<Rightarrow> vbig \<Rightarrow> vbig \<Rightarrow> bool" where
  "v_bignum_eq same x y =
     (if same then True
      else let xs = length x; ys = length y in
        if xs = ys then x = y
        else let cs = (if xs < ys then xs else ys) in
          if take cs x = take cs y
          then let l = (if cs = xs then y else x)
               in \<not> list_ex (\<lambda>i. l ! i \<noteq> 0) [cs + 1..<length l]
          else False)"

primrec top_digit :: "vbig \<Rightarrow> nat \<Rightarrow> int" where
  "top_digit x 0 = - 1"
| "top_digit x (Suc i) = (if x ! i \<noteq> 0 then int i else top_digit x i)"

primrec compare_digits :: "vbig \<Rightarrow> vbig \<Rightarrow> bool \<Rightarrow> nat \<Rightarrow> bool" where
  "compare_digits x y eqr 0 = eqr"
| "compare_digits x y eqr (Suc k) =
     (if x ! k < y ! k then False
      else if x ! k > y ! k then True
      else compare_digits x y eqr k)"

text \<open>
  When every digit agrees the digit loop leaves \<open>k = -1\<close>, and the final comparison of the
  C code reads \<^verbatim>\<open>x[-1]\<close> and \<^verbatim>\<open>y[-1]\<close>: the two digit counts.
\<close>

definition v_bignum_gt :: "bool \<Rightarrow> vbig \<Rightarrow> vbig \<Rightarrow> bool" where
  "v_bignum_gt same x y =
     (if same then False
      else let i = top_digit x (length x); j = top_digit y (length y) in
        if i < 0 \<and> j < 0 then False
        else if i < j then False
        else if i > j then True
        else compare_digits x y (length x > length y) (nat (i + 1)))"

definition v_bignum_gte :: "bool \<Rightarrow> vbig \<Rightarrow> vbig \<Rightarrow> bool" where
  "v_bignum_gte same x y =
     (if same then True
      else let i = top_digit x (length x); j = top_digit y (length y) in
        if i < 0 \<and> j < 0 then True
        else if i < j then False
        else if i > j then True
        else compare_digits x y (length x \<ge> length y) (nat (i + 1)))"

section \<open>Number against single digit\<close>

fun increment_loop :: "vbig \<Rightarrow> vbig" where
  "increment_loop [] = []"
| "increment_loop (x # xs) = (if x + 1 \<noteq> 0 then (x + 1) # xs else (x + 1) # increment_loop xs)"

fun v_bignum_add_digit :: "vbig \<Rightarrow> u16 \<Rightarrow> vbig" where
  "v_bignum_add_digit [] y = []"
| "v_bignum_add_digit (x # xs) y =
     (let t = ucast x + ucast y :: u32 in
      ucast t # (if t > MAX_DIG then increment_loop xs else xs))"

fun decrement_loop :: "vbig \<Rightarrow> vbig" where
  "decrement_loop [] = []"
| "decrement_loop (x # xs) =
     (if (ucast (x - 1) :: u32) < MAX_DIG then (x - 1) # xs else (x - 1) # decrement_loop xs)"

fun v_bignum_sub_digit :: "vbig \<Rightarrow> u16 \<Rightarrow> vbig" where
  "v_bignum_sub_digit [] y = []"
| "v_bignum_sub_digit (x # xs) y =
     (let t = ucast x - ucast y :: u32 in
      ucast t # (if t > MAX_DIG then decrement_loop xs else xs))"

fun mul_digit_loop :: "u32 \<Rightarrow> u16 \<Rightarrow> vbig \<Rightarrow> vbig" where
  "mul_digit_loop carry y [] = []"
| "mul_digit_loop carry y (x # xs) =
     (let t = ucast x * ucast y + carry in
      ucast t # mul_digit_loop (drop_bit 16 t) y xs)"

definition v_bignum_mul_digit :: "vbig \<Rightarrow> u16 \<Rightarrow> vbig" where
  "v_bignum_mul_digit x y = mul_digit_loop 0 y x"

section \<open>Addition, subtraction, multiplication\<close>

fun add_carry_loop :: "u32 \<Rightarrow> vbig \<Rightarrow> vbig" where
  "add_carry_loop carry [] = []"
| "add_carry_loop carry (x # xs) =
     (if carry = 0 then x # xs
      else let t = ucast x + carry in
        ucast t # add_carry_loop (of_bool (t > MAX_DIG)) xs)"

fun add_loop :: "u32 \<Rightarrow> vbig \<Rightarrow> vbig \<Rightarrow> vbig" where
  "add_loop carry [] ys = []"
| "add_loop carry (x # xs) [] = add_carry_loop carry (x # xs)"
| "add_loop carry (x # xs) (y # ys) =
     (let t = ucast x + ucast y + carry in
      ucast t # add_loop (of_bool (t > MAX_DIG)) xs ys)"

definition v_bignum_add :: "vbig \<Rightarrow> vbig \<Rightarrow> vbig" where
  "v_bignum_add x y = add_loop 0 x y"

fun sub_carry_loop :: "u32 \<Rightarrow> vbig \<Rightarrow> vbig" where
  "sub_carry_loop carry [] = []"
| "sub_carry_loop carry (x # xs) =
     (if carry = 0 then x # xs
      else let t = ucast x - carry in
        ucast t # sub_carry_loop (of_bool (t > MAX_DIG)) xs)"

fun sub_loop :: "u32 \<Rightarrow> vbig \<Rightarrow> vbig \<Rightarrow> vbig" where
  "sub_loop carry [] ys = []"
| "sub_loop carry (x # xs) [] = sub_carry_loop carry (x # xs)"
| "sub_loop carry (x # xs) (y # ys) =
     (let t = ucast x - ucast y - carry in
      ucast t # sub_loop (of_bool (t > MAX_DIG)) xs ys)"

definition v_bignum_sub :: "bool \<Rightarrow> vbig \<Rightarrow> vbig \<Rightarrow> vbig" where
  "v_bignum_sub same x y = (if same then v_bignum_set_zero x else sub_loop 0 x y)"

text \<open>
  Schoolbook multiplication on the accumulator \<^verbatim>\<open>w\<close> (32-bit cells). \<open>mul_row\<close> is the
  inner loop over the digits of \<open>x\<close>, started at cell \<open>k\<close>; it returns the last \<^verbatim>\<open>uv\<close>, whose
  high half the outer loop stores one cell beyond the row. \<^verbatim>\<open>w\<close> is an array of 2048 cells: operands
  with more digits together leave it. The product of two digits is an \<^verbatim>\<open>int\<close> in the source, converted to
  \<^verbatim>\<open>unsigned int\<close> by the addition; above \<open>2 ^ 31 - 1\<close> the language leaves it undefined, and the model has
  the product of two's complement machines.
\<close>

fun mul_row :: "vbig \<Rightarrow> u16 \<Rightarrow> nat \<Rightarrow> u32 \<Rightarrow> u32 \<Rightarrow> u32 list \<Rightarrow> u32 \<times> u32 list" where
  "mul_row [] yi k c uv w = (uv, w)"
| "mul_row (xj # xs) yi k c uv w =
     (let uv' = w ! k + ucast xj * ucast yi + c in
      mul_row xs yi (Suc k) (drop_bit 16 uv') uv' (w[k := uv' AND (push_bit 16 1 - 1)]))"

fun mul_rows :: "vbig \<Rightarrow> vbig \<Rightarrow> nat \<Rightarrow> u32 \<Rightarrow> u32 list \<Rightarrow> u32 list" where
  "mul_rows x [] i uv w = w"
| "mul_rows x (yi # ys) i uv w =
     (case mul_row x yi i 0 uv w of
        (uv', w') \<Rightarrow> mul_rows x ys (Suc i) uv' (w'[i + length x + 1 := drop_bit 16 uv']))"

definition mul_digits :: "vbig \<Rightarrow> vbig \<Rightarrow> vbig" where
  "mul_digits x y =
     (let w = mul_rows x y 0 0 (replicate (length x + length y + 1) 0)
      in map (\<lambda>i. ucast (w ! i)) [0..<length x])"

definition v_bignum_mul :: "vbig \<Rightarrow> vbig \<Rightarrow> vbig run" where
  "v_bignum_mul x y =
     (if length x + length y + 1 > 2048 then Inl OutOfBounds else Inr (mul_digits x y))"

text \<open>The working array of the multiplication holds 32-bit cells whose values stay below the
  digit base; \<open>wval\<close> reads it as a number.\<close>

definition small :: "u32 list \<Rightarrow> bool" where
  "small w \<longleftrightarrow> (\<forall>v \<in> set w. unat v < 65536)"

abbreviation wval :: "u32 list \<Rightarrow> nat" where
  "wval w \<equiv> bval (map ucast w)"

section \<open>Values\<close>

lemma bval_append: "bval (xs @ ys) = bval xs + 65536 ^ length xs * bval ys"
  by (induction xs) (simp_all add: algebra_simps)

lemma bval_replicate_0 [simp]: "bval (replicate n 0) = 0"
  by (induction n) simp_all

lemma bval_bound: "bval x < 65536 ^ length x"
proof (induction x)
  case (Cons d ds)
  then have "bval ds + 1 \<le> 65536 ^ length ds" by simp
  then have "65536 * (bval ds + 1) \<le> 65536 * 65536 ^ length ds" by (rule mult_le_mono2)
  then show ?case using unat_lt16 [of d] by simp
qed simp

lemma bval_eq_0_iff: "bval x = 0 \<longleftrightarrow> (\<forall>d \<in> set x. d = 0)"
  by (induction x) (auto simp: unat_eq_zero)

lemma bval_inj: "length x = length y \<Longrightarrow> bval x = bval y \<longleftrightarrow> x = y"
proof (induction x y rule: list_induct2)
  case (Cons d ds e es)
  have "unat d + 65536 * bval ds = unat e + 65536 * bval es \<longleftrightarrow> unat d = unat e \<and> bval ds = bval es"
    by (rule digit_eq_iff) (rule unat_lt16)+
  with Cons show ?case by (simp add: unat_inj_iff)
qed simp

lemma bval_take: "bval (take n x) = bval x mod 65536 ^ n"
proof (cases "n \<le> length x")
  case True
  have "bval x = bval (take n x) + 65536 ^ n * bval (drop n x)"
    using bval_append [of "take n x" "drop n x"] True by simp
  moreover have "bval (take n x) < 65536 ^ n"
    using bval_bound [of "take n x"] True by simp
  ultimately show ?thesis by simp
next
  case False
  then have "65536 ^ length x \<le> (65536 :: nat) ^ n" by simp
  then have "bval x < 65536 ^ n" using bval_bound [of x] by (rule less_le_trans [rotated])
  with False show ?thesis by simp
qed

lemma bval_drop: "bval (drop n x) = bval x div 65536 ^ n"
proof (cases "n \<le> length x")
  case True
  have "bval x = bval (take n x) + 65536 ^ n * bval (drop n x)"
    using bval_append [of "take n x" "drop n x"] True by simp
  moreover have "bval (take n x) < 65536 ^ n"
    using bval_bound [of "take n x"] True by simp
  ultimately show ?thesis by simp
next
  case False
  then have "65536 ^ length x \<le> (65536 :: nat) ^ n" by simp
  then have "bval x < 65536 ^ n" using bval_bound [of x] by (rule less_le_trans [rotated])
  with False show ?thesis by simp
qed

lemma int_bval: "int (bval x) = horner_sum uint (2 ^ 16) x"
  by (induction x) simp_all

lemma bit_bval: "bit (bval x) n \<longleftrightarrow> n div 16 < length x \<and> bit (x ! (n div 16)) (n mod 16)"
proof -
  have "bit (int (bval x)) n \<longleftrightarrow> n div 16 < length x \<and> bit (x ! (n div 16)) (n mod 16)"
    unfolding int_bval using bit_horner_sum_uint_exp_iff [of x n] by simp
  then show ?thesis by (simp add: bit_of_nat_iff_bit)
qed

lemma carry_split:
  assumes "unat (t :: u32) < 131072"
  shows "unat (ucast t :: u16) + 65536 * unat (of_bool (t > MAX_DIG) :: u32) = unat t"
proof -
  have "t > MAX_DIG \<longleftrightarrow> unat t > 65535"
    by (simp add: MAX_DIG_def word_less_nat_alt)
  with assms show ?thesis
    by (auto simp: unat_ucast_mod mod_if not_less)
qed

lemma add_carry_loop_len [simp]: "length (add_carry_loop c x) = length x"
  by (induction c x rule: add_carry_loop.induct) (simp_all add: Let_def)

lemma add_loop_len [simp]: "length (add_loop c x y) = length x"
  by (induction c x y rule: add_loop.induct) (simp_all add: Let_def)

lemma add_carry_loop_val:
  "unat c \<le> 1 \<Longrightarrow> \<exists>k. bval x + unat c = bval (add_carry_loop c x) + k * 65536 ^ length x"
proof (induction x arbitrary: c)
  case (Cons x xs)
  show ?case
  proof (cases "c = 0")
    case False
    define t where "t = ucast x + c"
    define d where "d = (of_bool (t > MAX_DIG) :: u32)"
    have t: "unat t = unat x + unat c"
      using Cons.prems unat_lt16 [of x] by (simp add: t_def unat_word_ariths)
    have "unat t < 131072" using t unat_lt16 [of x] Cons.prems by simp
    then have s: "unat (ucast t :: u16) + 65536 * unat d = unat x + unat c"
      unfolding d_def t [symmetric] by (rule carry_split)
    have "unat d \<le> 1" by (simp add: d_def)
    from Cons.IH [OF this] obtain k where
      "bval xs + unat d = bval (add_carry_loop d xs) + k * 65536 ^ length xs" by blast
    from carry_step [OF s this]
    have "bval (x # xs) + unat c = bval (add_carry_loop c (x # xs)) + k * 65536 ^ length (x # xs)"
      using False by (simp add: Let_def t_def [symmetric] d_def [symmetric])
    then show ?thesis by blast
  qed auto
qed auto

lemma add_loop_val:
  "unat c \<le> 1 \<Longrightarrow>
   \<exists>k. bval x + bval (take (length x) y) + unat c = bval (add_loop c x y) + k * 65536 ^ length x"
proof (induction x arbitrary: c y)
  case (Cons x xs)
  show ?case
  proof (cases y)
    case Nil
    then show ?thesis using add_carry_loop_val [OF Cons.prems, of "x # xs"] by simp
  next
    case y: (Cons e es)
    define t where "t = ucast x + ucast e + c"
    define d where "d = (of_bool (t > MAX_DIG) :: u32)"
    have t: "unat t = unat x + unat e + unat c"
      using Cons.prems unat_lt16 [of x] unat_lt16 [of e] by (simp add: t_def unat_word_ariths)
    have "unat t < 131072" using t unat_lt16 [of x] unat_lt16 [of e] Cons.prems by simp
    then have s: "unat (ucast t :: u16) + 65536 * unat d = unat x + unat e + unat c"
      unfolding d_def t [symmetric] by (rule carry_split)
    have "unat d \<le> 1" by (simp add: d_def)
    from Cons.IH [OF this] obtain k where
      "bval xs + bval (take (length xs) es) + unat d
        = bval (add_loop d xs es) + k * 65536 ^ length xs" by blast
    from carry_step [OF s this]
    have "bval (x # xs) + bval (take (length (x # xs)) y) + unat c
        = bval (add_loop c (x # xs) y) + k * 65536 ^ length (x # xs)"
      by (simp add: y Let_def t_def [symmetric] d_def [symmetric])
    then show ?thesis by blast
  qed
qed auto

lemma v_bignum_add_len [bn_len, simp]: "length (v_bignum_add x y) = length x"
  by (simp add: v_bignum_add_def)

lemma v_bignum_add_val [bn_val]:
  "bval (v_bignum_add x y) = (bval x + bval y) mod 65536 ^ length x"
proof -
  obtain k where "bval x + bval (take (length x) y) = bval (v_bignum_add x y) + k * 65536 ^ length x"
    using add_loop_val [of 0 x y] by (auto simp: v_bignum_add_def)
  moreover have "bval (v_bignum_add x y) < 65536 ^ length x"
    using bval_bound [of "v_bignum_add x y"] by simp
  ultimately have "bval (v_bignum_add x y) = (bval x + bval (take (length x) y)) mod 65536 ^ length x"
    by simp
  then show ?thesis by (simp add: bval_take mod_simps)
qed

lemma borrow_split:
  assumes "unat a < 65536" and "unat b < 65536" and "unat c \<le> 1"
  shows "int (unat (ucast (a - b - c :: u32) :: u16))
    = int (unat a) - int (unat b) - int (unat c)
      + 65536 * int (unat (of_bool (a - b - c > MAX_DIG) :: u32))"
proof -
  define D where "D = int (unat a) - int (unat b) - int (unat c)"
  have u: "int (unat (a - b - c)) = D mod 4294967296"
    by (simp add: D_def uint_word_ariths mod_simps)
  have gt: "a - b - c > MAX_DIG \<longleftrightarrow> int (unat (a - b - c)) > 65535"
    by (simp add: MAX_DIG_def word_less_def)
  have lo: "int (unat (ucast (a - b - c) :: u16)) = int (unat (a - b - c)) mod 65536"
    by (simp add: unat_ucast_mod zmod_int)
  have range: "- 65536 \<le> D" "D < 65536"
    using assms unfolding D_def by linarith+
  show ?thesis
  proof (cases "0 \<le> D")
    case True
    then have "D mod 4294967296 = D" using range by simp
    with True u gt lo range show ?thesis by (simp add: D_def)
  next
    case False
    then have "D mod 4294967296 = D + 4294967296"
      using range by (intro neg_mod_int) auto
    moreover have "(D + 4294967296) mod 65536 = D + 65536"
      using neg_mod_int [of 65536 D] mod_mult_self2 [of D 65536 65536] False range by simp
    ultimately show ?thesis using False u gt lo range by (simp add: D_def)
  qed
qed

lemma sub_carry_loop_len [simp]: "length (sub_carry_loop c x) = length x"
  by (induction c x rule: sub_carry_loop.induct) (simp_all add: Let_def)

lemma sub_loop_len [simp]: "length (sub_loop c x y) = length x"
  by (induction c x y rule: sub_loop.induct) (simp_all add: Let_def)

lemma sub_carry_loop_val:
  "unat c \<le> 1 \<Longrightarrow>
   \<exists>k. int (bval (sub_carry_loop c x)) = int (bval x) - int (unat c) + k * 65536 ^ length x"
proof (induction x arbitrary: c)
  case (Cons x xs)
  show ?case
  proof (cases "c = 0")
    case False
    define d where "d = (of_bool (ucast x - c > MAX_DIG) :: u32)"
    have s: "int (unat (ucast (ucast x - c :: u32) :: u16))
        = int (unat x) - int (unat c) + 65536 * int (unat d)"
      using borrow_split [of "ucast x" 0 c] Cons.prems unat_lt16 [of x] by (simp add: d_def)
    have "unat d \<le> 1" by (simp add: d_def)
    from Cons.IH [OF this] obtain k where
      "int (bval (sub_carry_loop d xs)) = int (bval xs) - int (unat d) + k * 65536 ^ length xs" by blast
    from borrow_step [OF s this]
    have "int (bval (sub_carry_loop c (x # xs)))
        = int (bval (x # xs)) - int (unat c) + k * 65536 ^ length (x # xs)"
      using False by (simp add: Let_def d_def [symmetric])
    then show ?thesis by blast
  qed auto
qed auto

lemma sub_loop_val:
  "unat c \<le> 1 \<Longrightarrow>
   \<exists>k. int (bval (sub_loop c x y))
      = int (bval x) - int (bval (take (length x) y)) - int (unat c) + k * 65536 ^ length x"
proof (induction x arbitrary: c y)
  case (Cons x xs)
  show ?case
  proof (cases y)
    case Nil
    then show ?thesis using sub_carry_loop_val [OF Cons.prems, of "x # xs"] by simp
  next
    case y: (Cons e es)
    define d where "d = (of_bool (ucast x - ucast e - c > MAX_DIG) :: u32)"
    have s: "int (unat (ucast (ucast x - ucast e - c :: u32) :: u16))
        = int (unat x) - int (unat e) - int (unat c) + 65536 * int (unat d)"
      using borrow_split [of "ucast x" "ucast e" c] Cons.prems unat_lt16 [of x] unat_lt16 [of e]
      by (simp add: d_def)
    have "unat d \<le> 1" by (simp add: d_def)
    from Cons.IH [OF this, of es] obtain k where
      "int (bval (sub_loop d xs es))
        = int (bval xs) - int (bval (take (length xs) es)) - int (unat d) + k * 65536 ^ length xs"
      by blast
    from borrow_step [OF s this]
    have "int (bval (sub_loop c (x # xs) y))
        = int (bval (x # xs)) - int (bval (take (length (x # xs)) y)) - int (unat c)
          + k * 65536 ^ length (x # xs)"
      by (simp add: y Let_def d_def [symmetric])
    then show ?thesis by blast
  qed
qed auto


lemma v_bignum_sub_len [bn_len, simp]: "length (v_bignum_sub same x y) = length x"
  by (simp add: v_bignum_sub_def v_bignum_set_zero_def)

lemma v_bignum_sub_val [bn_val]:
  "int (bval (v_bignum_sub False x y)) = (int (bval x) - int (bval y)) mod 65536 ^ length x"
proof -
  let ?B = "65536 ^ length x :: int"
  obtain k where k: "int (bval (sub_loop 0 x y))
      = int (bval x) - int (bval (take (length x) y)) + k * ?B"
    using sub_loop_val [of 0 x y] by auto
  have "int (bval (sub_loop 0 x y)) < ?B"
    using bval_bound [of "sub_loop 0 x y"] by (simp flip: of_nat_less_iff)
  then have "int (bval (sub_loop 0 x y)) = int (bval (sub_loop 0 x y)) mod ?B"
    by simp
  also have "\<dots> = (int (bval x) - int (bval (take (length x) y))) mod ?B"
    unfolding k by simp
  also have "\<dots> = (int (bval x) - int (bval y)) mod ?B"
    by (simp add: bval_take zmod_int mod_simps)
  finally show ?thesis by (simp add: v_bignum_sub_def)
qed

lemma v_bignum_sub_ge [bn_val]:
  assumes "bval y \<le> bval x"
  shows "bval (v_bignum_sub False x y) = bval x - bval y"
proof -
  have "int (bval (v_bignum_sub False x y)) = int (bval x - bval y) mod 65536 ^ length x"
    using v_bignum_sub_val [of x y] assms by simp
  also have "\<dots> = int (bval x - bval y)"
  proof (rule mod_pos_pos_trivial)
    show "int (bval x - bval y) < 65536 ^ length x"
      using bval_bound [of x] by (simp flip: of_nat_less_iff)
  qed simp
  finally show ?thesis by simp
qed

lemma v_bignum_sub_same: "v_bignum_sub True x x = v_bignum_sub False x x"
proof -
  have "bval (v_bignum_sub False x x) = bval (v_bignum_sub True x x)"
    by (simp add: v_bignum_sub_ge) (simp add: v_bignum_sub_def v_bignum_set_zero_def)
  then show ?thesis by (simp add: bval_inj)
qed

section \<open>Multiplication\<close>

lemma small_simps [simp]:
  "small []" "small (v # w) \<longleftrightarrow> unat v < 65536 \<and> small w"
  "small (w @ w') \<longleftrightarrow> small w \<and> small w'" "small (replicate n 0)"
  by (auto simp: small_def)

lemma small_take [simp]: "small w \<Longrightarrow> small (take n w)"
  and small_drop [simp]: "small w \<Longrightarrow> small (drop n w)"
  by (auto simp: small_def dest: in_set_takeD in_set_dropD)

lemma small_update: "small w \<Longrightarrow> unat v < 65536 \<Longrightarrow> small (w[i := v])"
  by (auto simp: small_def dest!: set_update_subset_insert [THEN subsetD])

lemma bval_mod_take: "bval x mod 65536 ^ n = bval (take n x)"
  by (simp add: bval_take)

lemma low_half: "unat ((uv :: u32) AND 65535) = unat uv mod 65536"
proof -
  have "uv AND 65535 = take_bit 16 uv"
    by (simp add: take_bit_eq_mask mask_eq_decr_exp)
  then have "unat (uv AND 65535) = take_bit 16 (unat uv)"
    by (simp only: unsigned_take_bit_eq)
  then show ?thesis by (simp add: take_bit_eq_mod)
qed

lemma mul_step:
  fixes lo d m x y c V V' cf P X B :: nat
  assumes "lo + B * d = m + x * y + c" and "V' + cf * P = V + y * X + d"
  shows "lo + B * V' + cf * (B * P) = m + B * V + y * (x + B * X) + c"
proof -
  have "B * V' + B * (cf * P) = B * V + B * (y * X) + B * d"
    using arg_cong [OF assms(2), of "\<lambda>z. B * z"] by (simp add: distrib_left)
  with assms(1) show ?thesis by (simp add: algebra_simps)
qed

lemma mul_row_val:
  assumes "length mid = length x" and "small mid" and "unat c < 65536"
  shows "\<exists>uv' mid' cf. mul_row x yi (length pre) c uv (pre @ mid @ post) = (uv', pre @ mid' @ post)
      \<and> length mid' = length x \<and> small mid'
      \<and> wval mid' + cf * 65536 ^ length x = wval mid + unat yi * bval x + unat c"
  using assms
proof (induction x arbitrary: pre mid c uv)
  case (Cons xj xs)
  then obtain m ms where mid: "mid = m # ms" by (cases mid) auto
  define u where "u = m + ucast xj * ucast yi + c"
  have b: "unat m \<le> 65535" "unat xj \<le> 65535" "unat yi \<le> 65535" "unat c \<le> 65535"
    using Cons.prems unat_lt16 [of xj] unat_lt16 [of yi] by (simp_all add: mid)
  have "unat xj * unat yi \<le> 65535 * 65535" using b by (intro mult_le_mono)
  then have u: "unat u = unat m + unat xj * unat yi + unat c"
    using b by (simp add: u_def unat_word_ariths)
  have "unat (drop_bit 16 u) < 65536" using unsigned_less [of u, where 'a = nat] by simp
  moreover have "length ms = length xs" "small ms" using Cons.prems by (simp_all add: mid)
  ultimately obtain uv' ms' cf where
    r: "mul_row xs yi (length (pre @ [u AND 65535])) (drop_bit 16 u) u
          ((pre @ [u AND 65535]) @ ms @ post)
        = (uv', (pre @ [u AND 65535]) @ ms' @ post)"
    and l: "length ms' = length xs" "small ms'"
    and v: "wval ms' + cf * 65536 ^ length xs = wval ms + unat yi * bval xs + unat (drop_bit 16 u)"
    using Cons.IH by blast
  let ?h = "u AND 65535"
  have "mul_row (xj # xs) yi (length pre) c uv (pre @ mid @ post) = (uv', pre @ (?h # ms') @ post)"
    using r by (simp add: mid Let_def u_def [symmetric] nth_append list_update_append)
  moreover have "wval (?h # ms') + cf * 65536 ^ length (xj # xs)
      = wval mid + unat yi * bval (xj # xs) + unat c"
  proof -
    have "unat ?h + 65536 * unat (drop_bit 16 u) = unat m + unat xj * unat yi + unat c"
      unfolding low_half unat_drop_bit using u by simp
    from mul_step [OF this v] show ?thesis
      using b by (simp add: mid unat_ucast_mod low_half)
  qed
  ultimately show ?case using l
    by (intro exI [of _ uv'] exI [of _ "?h # ms'"] exI [of _ cf]) (simp add: low_half)
qed auto


lemma mul_rows_props:
  assumes "small w" and "i + length ys + length x + 1 \<le> length w"
  shows "small (mul_rows x ys i uv w) \<and> length (mul_rows x ys i uv w) = length w \<and>
    wval (mul_rows x ys i uv w) mod 65536 ^ length x
      = (wval w + 65536 ^ i * (bval x * bval ys)) mod 65536 ^ length x"
  using assms
proof (induction ys arbitrary: i uv w)
  case (Cons yi ys)
  let ?n = "length x" and ?P = "65536 ^ length x :: nat"
  define pre mid post where "pre = take i w" and "mid = take ?n (drop i w)" and "post = drop (i + ?n) w"
  have w: "w = pre @ mid @ post"
    by (simp add: pre_def mid_def post_def) (metis append_take_drop_id drop_drop add.commute)
  have len: "length pre = i" "length mid = ?n" using Cons.prems by (simp_all add: pre_def mid_def)
  have sm: "small pre" "small mid" "small post" using Cons.prems(1) w by simp_all
  from mul_row_val [OF len(2) sm(2), of 0 yi pre uv post] obtain uv' mid' cf where
    r: "mul_row x yi i 0 uv w = (uv', pre @ mid' @ post)" and l: "length mid' = ?n" "small mid'"
    and v: "wval mid' + cf * ?P = wval mid + unat yi * bval x"
    by (auto simp: len w)
  define w1 where "w1 = (pre @ mid' @ post)[i + ?n + 1 := drop_bit 16 uv']"
  have s1: "small w1" unfolding w1_def using sm l unsigned_less [of uv', where 'a = nat]
    by (intro small_update) simp_all
  have lw: "length w1 = length w" by (simp add: w1_def w l len)
  have "wval w1 mod ?P = wval (pre @ mid' @ post) mod ?P"
    unfolding bval_mod_take w1_def by (simp add: take_map)
  also have "\<dots> = (wval w + 65536 ^ i * (unat yi * bval x)) mod ?P"
  proof -
    have "wval (pre @ mid' @ post) + 65536 ^ i * (cf * ?P)
        = wval w + 65536 ^ i * (unat yi * bval x)"
      using arg_cong [OF v, of "\<lambda>z. 65536 ^ i * z"]
      by (simp add: w bval_append len l distrib_left)
    then have "wval w + 65536 ^ i * (unat yi * bval x)
        = wval (pre @ mid' @ post) + (65536 ^ i * cf) * ?P" by (simp add: mult.assoc)
    then show ?thesis by (simp only: mod_mult_self1)
  qed
  finally have v1: "wval w1 mod ?P = (wval w + 65536 ^ i * (unat yi * bval x)) mod ?P" .
  have "mul_rows x (yi # ys) i uv w = mul_rows x ys (Suc i) uv' w1"
    by (simp add: r w1_def)
  moreover have "Suc i + length ys + ?n + 1 \<le> length w1" using Cons.prems lw by simp
  moreover have "(wval w1 + 65536 ^ Suc i * (bval x * bval ys)) mod ?P
      = (wval w + 65536 ^ i * (bval x * bval (yi # ys))) mod ?P"
  proof -
    have "(wval w1 + 65536 ^ Suc i * (bval x * bval ys)) mod ?P
       = ((wval w + 65536 ^ i * (unat yi * bval x)) + 65536 ^ Suc i * (bval x * bval ys)) mod ?P"
      by (rule mod_add_cong [OF v1 refl])
    then show ?thesis by (simp add: distrib_left ac_simps)
  qed
  ultimately show ?case using Cons.IH [OF s1, of "Suc i" uv'] lw by simp
qed simp

lemma mul_digits_len [bn_len, simp]: "length (mul_digits x y) = length x"
  by (simp add: mul_digits_def Let_def)

lemma mul_digits_val [bn_val]:
  "bval (mul_digits x y) = (bval x * bval y) mod 65536 ^ length x"
proof -
  let ?w = "mul_rows x y 0 0 (replicate (length x + length y + 1) 0)"
  have p: "length ?w = length x + length y + 1"
      "wval ?w mod 65536 ^ length x = (bval x * bval y) mod 65536 ^ length x"
    using mul_rows_props [of "replicate (length x + length y + 1) 0" 0 y x 0] by simp_all
  have "mul_digits x y = take (length x) (map ucast ?w)"
    using p(1) by (intro nth_equalityI) (simp_all add: mul_digits_def Let_def)
  then show ?thesis using p(2) by (simp add: bval_take)
qed

section \<open>Bit operators\<close>

lemma digits_bitop_len [bn_len, simp]: "length (digits_bitop f x y) = length x"
  by (induction f x y rule: digits_bitop.induct) simp_all

lemma digits_bitop_nth:
  "i < length x \<Longrightarrow> digits_bitop f x y ! i =
     (if i < length y then ucast (f (ucast (x ! i)) (ucast (y ! i))) else x ! i)"
  by (induction f x y arbitrary: i rule: digits_bitop.induct) (auto simp: nth_Cons split: nat.split)

lemma v_bignum_and_len [bn_len, simp]: "length (v_bignum_and x y) = length x"
  and v_bignum_or_len [bn_len, simp]: "length (v_bignum_or x y) = length x"
  and v_bignum_xor_len [bn_len, simp]: "length (v_bignum_xor x y) = length x"
  and v_bignum_not_len [bn_len, simp]: "length (v_bignum_not x) = length x"
  by (simp_all add: v_bignum_and_def v_bignum_or_def v_bignum_xor_def v_bignum_not_def)

lemma v_bignum_and_val [bn_val]:
  "length x = length y \<Longrightarrow> bval (v_bignum_and x y) = bval x AND bval y"
  by (rule bit_eqI) (auto simp: bit_bval bit_simps v_bignum_and_def digits_bitop_nth)

lemma v_bignum_or_val [bn_val]:
  "length x = length y \<Longrightarrow> bval (v_bignum_or x y) = bval x OR bval y"
  by (rule bit_eqI) (auto simp: bit_bval bit_simps v_bignum_or_def digits_bitop_nth)

lemma v_bignum_xor_val [bn_val]:
  "length x = length y \<Longrightarrow> bval (v_bignum_xor x y) = bval x XOR bval y"
  by (rule bit_eqI) (auto simp: bit_bval bit_simps v_bignum_xor_def digits_bitop_nth)

lemma unat_not: "unat (NOT w :: 'a::len word) + unat w + 1 = 2 ^ LENGTH('a)"
proof -
  have "NOT w = - 1 - w" by (simp add: not_eq_complement)
  then have "unat (NOT w) = unat (- 1 :: 'a word) - unat w" by (simp add: unat_sub)
  then have "unat (NOT w) = 2 ^ LENGTH('a) - 1 - unat w"
    by (simp only: unsigned_minus_1_eq_mask mask_eq_exp_minus_1)
  then show ?thesis using unsigned_less [of w, where 'a = nat] by linarith
qed

lemma v_bignum_not_val [bn_val]: "bval (v_bignum_not x) + bval x + 1 = 65536 ^ length x"
proof (induction x)
  case (Cons d ds)
  have "65536 * (bval (v_bignum_not ds) + bval ds + 1) = 65536 * 65536 ^ length ds"
    using Cons by simp
  moreover have "unat (NOT d) + unat d + 1 = 65536" using unat_not [of d] by simp
  ultimately show ?case by (simp add: v_bignum_not_def distrib_left)
qed (simp add: v_bignum_not_def)

lemma v_bignum_bit_test_val [bn_val]: "v_bignum_bit_test x b = bit (bval x) (unat b)"
  unfolding v_bignum_bit_test_def bit_slot_def bit_mask_def bit_bval
    bit_iff_and_push_bit_not_eq_0 [symmetric]
  using mod_less_divisor [of 16 "unat b"] by (auto simp: bit_simps)

lemma v_bignum_bit_set_len [bn_len, simp]: "length (v_bignum_bit_set x b) = length x"
  and v_bignum_bit_clear_len [bn_len, simp]: "length (v_bignum_bit_clear x b) = length x"
  by (simp_all add: v_bignum_bit_set_def v_bignum_bit_clear_def)

lemma bit_pos_iff: "(n::nat) = m \<longleftrightarrow> n div 16 = m div 16 \<and> n mod 16 = m mod 16"
  by (metis div_mult_mod_eq)

lemma v_bignum_bit_set_bit:
  "unat b < length x * 16 \<Longrightarrow>
   bit (bval (v_bignum_bit_set x b)) n \<longleftrightarrow> bit (bval x) n \<or> n = unat b"
  by (auto simp: v_bignum_bit_set_def bit_bval bit_slot_def bit_mask_def nth_list_update bit_simps
      bit_pos_iff [of n] less_mult_imp_div_less)

lemma v_bignum_bit_clear_bit:
  "unat b < length x * 16 \<Longrightarrow>
   bit (bval (v_bignum_bit_clear x b)) n \<longleftrightarrow> bit (bval x) n \<and> n \<noteq> unat b"
  by (auto simp: v_bignum_bit_clear_def bit_bval bit_slot_def bit_mask_def nth_list_update bit_simps
      bit_pos_iff [of n] less_mult_imp_div_less)

lemma v_bignum_bit_set_val [bn_val]:
  "unat b < length x * 16 \<Longrightarrow> bval (v_bignum_bit_set x b) = set_bit (unat b) (bval x)"
  by (rule bit_eqI) (auto simp: v_bignum_bit_set_bit bit_simps)

lemma v_bignum_bit_clear_val [bn_val]:
  "unat b < length x * 16 \<Longrightarrow> bval (v_bignum_bit_clear x b) = unset_bit (unat b) (bval x)"
  by (rule bit_eqI) (auto simp: v_bignum_bit_clear_bit bit_simps)

section \<open>Shift lemmas\<close>

lemma shift_left_loop_len [bn_len, simp]: "length (shift_left_loop c carry x) = length x"
  by (induction c carry x rule: shift_left_loop.induct) (simp_all add: Let_def)

lemma shift_left_digit:
  assumes "c < 16" and "unat carry < 2 ^ c"
  shows "unat (push_bit c (ucast (d :: u16)) OR carry :: u32) = unat d * 2 ^ c + unat carry"
    and "unat d * 2 ^ c + unat carry < 65536 * 2 ^ c"
proof -
  have "(unat d + 1) * 2 ^ c \<le> 65536 * 2 ^ c"
    using unat_lt16 [of d] by (intro mult_le_mono1) simp
  then have "unat d * 2 ^ c + 2 ^ c \<le> 65536 * 2 ^ c" by (simp only: distrib_right mult_1)
  then show b: "unat d * 2 ^ c + unat carry < 65536 * 2 ^ c" using assms(2) by linarith
  have "(2::nat) ^ c \<le> 2 ^ 15" using assms(1) by (intro power_increasing) simp_all
  then have p: "unat (push_bit c (ucast d :: u32)) = unat d * 2 ^ c"
    using b by (simp add: unat_push_bit)
  have "push_bit c (ucast d) AND carry = 0"
  proof (rule bit_eqI)
    fix n
    have "bit carry n \<Longrightarrow> n < c"
      using le_less_trans [OF bit_imp_le_unat assms(2)] by simp
    then show "bit (push_bit c (ucast d) AND carry) n = bit 0 n"
      by (auto simp: bit_simps)
  qed
  from unat_or_disjoint [OF this] p
  show "unat (push_bit c (ucast d) OR carry) = unat d * 2 ^ c + unat carry" by simp
qed

lemma shift_left_loop_val:
  assumes "c < 16" and "unat carry < 2 ^ c"
  shows "\<exists>k. bval x * 2 ^ c + unat carry = bval (shift_left_loop c carry x) + k * 65536 ^ length x"
  using assms(2)
proof (induction x arbitrary: carry)
  case (Cons d ds)
  define t where "t = push_bit c (ucast d) OR carry"
  have t: "unat t = unat d * 2 ^ c + unat carry" "unat t < 65536 * 2 ^ c"
    using shift_left_digit [OF assms(1) Cons.prems, of d] by (simp_all add: t_def)
  have "unat (drop_bit 16 t) < 2 ^ c" using t(2) by (simp add: less_mult_imp_div_less mult.commute)
  from Cons.IH [OF this] obtain k where
    k: "bval ds * 2 ^ c + unat (drop_bit 16 t)
      = bval (shift_left_loop c (drop_bit 16 t) ds) + k * 65536 ^ length ds" by blast
  have "unat (ucast t :: u16) + 65536 * unat (drop_bit 16 t) = unat d * 2 ^ c + unat carry"
    using t(1) by (simp add: unat_ucast_mod)
  from carry_step [OF this k] show ?case
    by (intro exI [of _ k]) (simp add: t_def Let_def algebra_simps)
qed simp

lemma mod_from_carry: "\<exists>k. a = b + k * P \<Longrightarrow> b < P \<Longrightarrow> b = a mod (P::nat)"
  by auto

lemma shift_left_loop_mod:
  "c < 16 \<Longrightarrow> bval (shift_left_loop c 0 x) = bval x * 2 ^ c mod 65536 ^ length x"
  using shift_left_loop_val [of c 0 x] bval_bound [of "shift_left_loop c 0 x"]
  by (intro mod_from_carry) simp_all

lemma v_bignum_bit_shift_left_1_len [bn_len, simp]:
  "length (v_bignum_bit_shift_left_1 x) = length x"
  by (simp add: v_bignum_bit_shift_left_1_def)

lemma v_bignum_bit_shift_left_1_val [bn_val]:
  "bval (v_bignum_bit_shift_left_1 x) = 2 * bval x mod 65536 ^ length x"
  using shift_left_loop_mod [of 1 x] by (simp add: v_bignum_bit_shift_left_1_def mult.commute)

lemma shift_places_left:
  "map (\<lambda>i. if i \<ge> p then x ! (i - p) else 0) [0..<length x] = take (length x) (replicate p 0 @ x)"
  by (rule nth_equalityI) (auto simp: nth_append)

lemma power_16: "65536 ^ p = (2::nat) ^ (16 * p)"
  by (simp add: power_mult)

lemma v_bignum_bit_shift_left_len [bn_len, simp]: "length (v_bignum_bit_shift_left x c) = length x"
  by (simp add: v_bignum_bit_shift_left_def Let_def)

lemma v_bignum_bit_shift_left_val [bn_val]:
  "bval (v_bignum_bit_shift_left x c) = bval x * 2 ^ c mod 65536 ^ length x"
proof (cases "c \<ge> 16")
  case True
  define p r where "p = c div 16" and "r = c mod 16"
  have c: "c = 16 * p + r" and r: "c - p * 16 = r" "r < 16"
    by (simp_all add: p_def r_def minus_div_mult_eq_mod)
  define x1 where "x1 = map (\<lambda>i. if i \<ge> p then x ! (i - p) else 0) [0..<length x]"
  have l: "length x1 = length x" by (simp add: x1_def)
  have x1: "bval x1 = bval x * 65536 ^ p mod 65536 ^ length x"
    unfolding x1_def shift_places_left bval_take by (simp add: bval_append mult.commute)
  have e: "bval x * 2 ^ c = bval x * 65536 ^ p * 2 ^ r" by (simp add: c power_add power_16)
  have "v_bignum_bit_shift_left x c = (if r = 0 then x1 else shift_left_loop r 0 x1)"
    using True by (simp only: v_bignum_bit_shift_left_def Let_def if_True p_def [symmetric]
        r(1) x1_def [symmetric])
  moreover have "bval (shift_left_loop r 0 x1) = bval x * 2 ^ c mod 65536 ^ length x"
    unfolding shift_left_loop_mod [OF r(2)] l x1 e by (simp add: mod_mult_left_eq)
  ultimately show ?thesis using x1
    by (cases "r = 0") (simp_all only: e if_True if_False power_0 mult_1_right simp_thms)
qed (simp add: v_bignum_bit_shift_left_def shift_left_loop_mod)

lemma shift_right_loop_len [bn_len, simp]: "length (shift_right_loop c carry x) = length x"
  by (induction c carry x rule: shift_right_loop.induct) (simp_all add: Let_def)

lemma shift_right_digit:
  fixes d :: u16 and r :: nat
  assumes "c < 16" and "r < 2 ^ c" and "unat carry = r * 2 ^ (32 - c)"
  defines "t \<equiv> drop_bit c (push_bit 16 (ucast d)) OR carry :: u32"
  shows "unat (ucast (drop_bit 16 t) :: u16) = (r * 65536 + unat d) div 2 ^ c"
    and "unat (push_bit 16 (t AND MAX_DIG)) = (unat d mod 2 ^ c) * 2 ^ (32 - c)"
proof -
  define C Q :: nat where "C = 2 ^ c" and "Q = 2 ^ (16 - c)"
  have B: "65536 = Q * C" using power_add [of "2::nat" "16 - c" c] assms(1) by (simp add: C_def Q_def)
  have H: "2 ^ (32 - c) = Q * 65536"
    using power_add [of "2::nat" "16 - c" 16] assms(1) by (simp add: Q_def)
  have pos: "0 < C" "0 < Q" by (simp_all add: C_def Q_def)
  have v: "unat (drop_bit c (push_bit 16 (ucast d :: u32))) = unat d * Q"
  proof -
    have "unat (push_bit 16 (ucast d :: u32)) = unat d * Q * C"
      using unat_lt16 [of d] by (simp add: unat_push_bit B [symmetric] mult.assoc)
    then show ?thesis unfolding unat_drop_bit C_def [symmetric] using pos by simp
  qed
  have "unat d * Q < 2 ^ (32 - c)" unfolding H using unat_lt16 [of d] pos by simp
  then have t: "unat t = (r * 65536 + unat d) * Q"
    using unat_or_high [of "drop_bit c (push_bit 16 (ucast d))" "32 - c" carry r] assms(3)
    unfolding t_def v H by (simp add: algebra_simps)
  have top: "(r * 65536 + unat d) div C < 65536"
  proof (rule less_mult_imp_div_less)
    have "(r + 1) * 65536 \<le> C * 65536" using assms(2) by (intro mult_le_mono1) (simp add: C_def)
    then show "r * 65536 + unat d < 65536 * C" using unat_lt16 [of d] by simp
  qed
  have "unat t div 65536 = (r * 65536 + unat d) div C"
    unfolding t B using pos by (simp add: mult.commute)
  then show "unat (ucast (drop_bit 16 t) :: u16) = (r * 65536 + unat d) div 2 ^ c"
    using top by (simp add: unat_ucast_mod C_def)
  have "(r * 65536 + unat d) mod C = unat d mod C"
    using mod_mult_self4 [of C "r * Q" "unat d"] by (simp add: B ac_simps)
  moreover have "unat t mod 65536 = (r * 65536 + unat d) mod C * Q"
    unfolding t by (simp add: B mult_mod_left mult.commute)
  ultimately have "unat (t AND MAX_DIG) = (unat d mod C) * Q"
    by (simp add: MAX_DIG_def low_half)
  moreover have "(unat d mod C) * Q < C * Q" using pos by simp
  then have "(unat d mod C) * Q < 65536" by (simp only: B mult.commute)
  then have "(unat d mod C) * Q * 65536 < 65536 * 65536"
    by (rule mult_strict_right_mono) simp
  then have "(unat d mod C) * Q * 65536 < 2 ^ LENGTH(32)" by simp
  ultimately show "unat (push_bit 16 (t AND MAX_DIG)) = (unat d mod 2 ^ c) * 2 ^ (32 - c)"
    unfolding unat_push_bit H C_def [symmetric] by (simp add: mod_less flip: mult.assoc)
qed

lemma shift_right_loop_val:
  assumes "c < 16" and "r < 2 ^ c" and "unat carry = r * 2 ^ (32 - c)"
  shows "bval (rev (shift_right_loop c carry x)) = (r * 65536 ^ length x + bval (rev x)) div 2 ^ c"
  using assms(2,3)
proof (induction x arbitrary: r carry)
  case (Cons d ds)
  define t where "t = drop_bit c (push_bit 16 (ucast d)) OR carry"
  define n V where "n = length ds" and "V = bval (rev ds)"
  note dg = shift_right_digit [OF assms(1) Cons.prems, of d, folded t_def]
  define q where "q = (r * 65536 + unat d) div 2 ^ c"
  have "(65536::nat) = 2 ^ c * 2 ^ (16 - c)"
    using power_add [of "2::nat" c "16 - c"] assms(1) by simp
  then have "r * 65536 = 2 ^ c * (r * 2 ^ (16 - c))" by (simp only: ac_simps)
  then have "(r * 65536 + unat d) mod 2 ^ c = unat d mod 2 ^ c"
    by (simp only: mod_mult_self4)
  then have s: "2 ^ c * q + unat d mod 2 ^ c = r * 65536 + unat d"
    using mult_div_mod_eq [of "2 ^ c" "r * 65536 + unat d"] by (simp only: q_def)
  have "(r * 65536 + unat d) * 65536 ^ n + V
      = ((unat d mod 2 ^ c) * 65536 ^ n + V) + 2 ^ c * (q * 65536 ^ n)"
    unfolding s [symmetric] distrib_right by (simp only: ac_simps)
  then have "((r * 65536 + unat d) * 65536 ^ n + V) div 2 ^ c
      = ((unat d mod 2 ^ c) * 65536 ^ n + V) div 2 ^ c + q * 65536 ^ n"
    by (simp only: div_mult_self2 [of "2 ^ c :: nat"] power_not_zero) simp
  moreover have "bval (rev (shift_right_loop c carry (d # ds)))
      = ((unat d mod 2 ^ c) * 65536 ^ n + V) div 2 ^ c + q * 65536 ^ n"
  proof -
    have "shift_right_loop c carry (d # ds)
        = ucast (drop_bit 16 t) # shift_right_loop c (push_bit 16 (t AND MAX_DIG)) ds"
      by (simp only: shift_right_loop.simps Let_def t_def)
    moreover have "bval (rev (shift_right_loop c (push_bit 16 (t AND MAX_DIG)) ds))
        = ((unat d mod 2 ^ c) * 65536 ^ n + V) div 2 ^ c"
      unfolding n_def V_def by (rule Cons.IH [OF _ dg(2)]) simp
    ultimately show ?thesis
      by (simp only: rev.simps bval_append bval.simps dg(1) length_rev shift_right_loop_len
          n_def q_def mult.commute mult_0 add_0_right)
  qed
  moreover have "r * 65536 ^ length (d # ds) + bval (rev (d # ds)) = (r * 65536 + unat d) * 65536 ^ n + V"
    by (simp add: bval_append n_def V_def distrib_right)
  ultimately show ?case by (simp only:)
qed simp

lemma shift_places_right:
  "p \<le> length x \<Longrightarrow> map (\<lambda>i. if i < length x - p then x ! (i + p) else 0) [0..<length x]
     = drop p x @ replicate p 0"
  by (rule nth_equalityI) (auto simp: nth_append add.commute)

lemma v_bignum_bit_shift_right_len [bn_len, simp]: "length (v_bignum_bit_shift_right x c) = length x"
  by (simp add: v_bignum_bit_shift_right_def Let_def)

lemma shift_right_loop_div:
  "c < 16 \<Longrightarrow> bval (rev (shift_right_loop c 0 (rev x))) = bval x div 2 ^ c"
  using shift_right_loop_val [of c 0 0 "rev x"] by simp

lemma v_bignum_bit_shift_right_val [bn_val]:
  "bval (v_bignum_bit_shift_right x c) = bval x div 2 ^ c"
proof (cases "c \<ge> 16")
  case True
  define p r where "p = c div 16" and "r = c mod 16"
  have c: "c = 16 * p + r" and r: "c - p * 16 = r" "r < 16"
    by (simp_all add: p_def r_def minus_div_mult_eq_mod)
  show ?thesis
  proof (cases "p > length x")
    case True
    have "bval x < 65536 ^ length x" by (rule bval_bound)
    also have "\<dots> \<le> 2 ^ c" using True by (simp add: power_16 c)
    finally show ?thesis using \<open>c \<ge> 16\<close> True
      by (simp add: v_bignum_bit_shift_right_def Let_def p_def)
  next
    case False
    define x1 where "x1 = map (\<lambda>i. if i < length x - p then x ! (i + p) else 0) [0..<length x]"
    have x1: "bval x1 = bval x div 65536 ^ p"
      using False by (simp add: x1_def shift_places_right bval_append bval_drop)
    have "v_bignum_bit_shift_right x c
        = (if r = 0 then x1 else rev (shift_right_loop r 0 (rev x1)))"
      using \<open>c \<ge> 16\<close> False by (simp only: v_bignum_bit_shift_right_def Let_def if_True if_False
          p_def [symmetric] r(1) x1_def [symmetric])
    moreover have "bval x div 2 ^ c = bval x div 65536 ^ p div 2 ^ r"
      by (simp add: c power_add power_16 div_mult2_eq)
    ultimately show ?thesis using shift_right_loop_div [OF r(2), of x1] x1 by simp
  qed
qed (simp add: v_bignum_bit_shift_right_def Let_def shift_right_loop_div)

section \<open>Initialisers and comparators\<close>

lemma v_bignum_set_zero_len [bn_len, simp]: "length (v_bignum_set_zero x) = length x"
  and v_bignum_set_one_len [bn_len, simp]: "length (v_bignum_set_one x) = length x"
  and v_bignum_set_digit_len [bn_len, simp]: "length (v_bignum_set_digit x y) = length x"
  by (simp_all add: v_bignum_set_zero_def v_bignum_set_digit_def) (cases x; simp)

lemma v_bignum_set_zero_val [bn_val]: "bval (v_bignum_set_zero x) = 0"
  by (simp add: v_bignum_set_zero_def)

lemma v_bignum_set_one_val [bn_val]: "x \<noteq> [] \<Longrightarrow> bval (v_bignum_set_one x) = 1"
  by (cases x) simp_all

lemma v_bignum_set_digit_val [bn_val]: "x \<noteq> [] \<Longrightarrow> bval (v_bignum_set_digit x y) = unat y"
  by (cases x) (simp_all add: v_bignum_set_digit_def v_bignum_set_zero_def)

lemma v_bignum_set_bignum_take:
  "v_bignum_set_bignum x y = take (length x) (y @ replicate (length x - length y) 0)"
  unfolding v_bignum_set_bignum_def Let_def
  by (cases "length x = length y"; cases "length y > length x")
     (auto intro!: nth_equalityI simp: nth_append)

lemma v_bignum_set_bignum_len [bn_len, simp]: "length (v_bignum_set_bignum x y) = length x"
  by (simp add: v_bignum_set_bignum_take)

lemma v_bignum_set_bignum_val [bn_val]:
  "bval (v_bignum_set_bignum x y) = bval y mod 65536 ^ length x"
  unfolding v_bignum_set_bignum_take bval_take by (simp add: bval_append)

lemma v_bignum_set_bignum_same: "length x = length y \<Longrightarrow> v_bignum_set_bignum x y = y"
  by (simp add: v_bignum_set_bignum_def Let_def)

lemma v_bignum_eq_zero_val [bn_val]: "v_bignum_eq_zero x \<longleftrightarrow> bval x = 0"
  by (auto simp: v_bignum_eq_zero_def bval_eq_0_iff list_ex_iff)

lemma v_bignum_eq_one_val [bn_val]: "v_bignum_eq_one x \<longleftrightarrow> bval x = 1"
proof (cases x)
  case (Cons d ds)
  have "unat d + 65536 * bval ds = 1 + 65536 * 0 \<longleftrightarrow> unat d = 1 \<and> bval ds = 0"
    by (rule digit_eq_iff) (simp_all add: unat_lt16)
  then show ?thesis
    by (auto simp: Cons bval_eq_0_iff list_ex_iff unat_inj_iff [of d 1, simplified])
qed simp

lemma v_bignum_eq_val [bn_val]:
  "length x = length y \<Longrightarrow> v_bignum_eq False x y \<longleftrightarrow> bval x = bval y"
  by (simp add: v_bignum_eq_def bval_inj)

lemma top_digit_bounds:
  "k \<le> length x \<Longrightarrow> (case top_digit x k of i \<Rightarrow>
     (i < 0 \<longrightarrow> i = - 1 \<and> bval (take k x) = 0)
     \<and> (i \<ge> 0 \<longrightarrow> nat i < k \<and> 65536 ^ nat i \<le> bval (take k x) \<and> bval (take k x) < 65536 ^ (nat i + 1)
          \<and> bval (take k x) = bval (take (nat i + 1) x)))"
proof (induction k)
  case (Suc k)
  then have t: "take (Suc k) x = take k x @ [x ! k]" "length (take k x) = k"
    by (simp_all add: take_Suc_conv_app_nth)
  have b: "bval (take (Suc k) x) < 65536 ^ Suc k" using bval_bound [of "take (Suc k) x"] Suc.prems by simp
  show ?case
  proof (cases "x ! k = 0")
    case True
    then show ?thesis using Suc by (auto simp: t bval_append)
  next
    case False
    then have "1 \<le> unat (x ! k)" by (simp add: unat_gt_0 Suc_le_eq)
    then have "65536 ^ k * 1 \<le> 65536 ^ k * unat (x ! k)" by (rule mult_le_mono2)
    moreover have "bval (take (Suc k) x) = bval (take k x) + 65536 ^ k * unat (x ! k)"
      using t by (simp add: bval_append)
    ultimately have "65536 ^ k \<le> bval (take (Suc k) x)" by linarith
    then show ?thesis using False b by simp
  qed
qed simp

lemma compare_digits_val:
  "k \<le> length x \<Longrightarrow> k \<le> length y \<Longrightarrow> compare_digits x y e k \<longleftrightarrow>
     (if bval (take k x) = bval (take k y) then e else bval (take k x) > bval (take k y))"
proof (induction k)
  case (Suc k)
  define X Y where "X = bval (take k x)" and "Y = bval (take k y)"
  have b: "X < 65536 ^ k" "Y < 65536 ^ k"
    using bval_bound [of "take k x"] bval_bound [of "take k y"] Suc.prems by (simp_all add: X_def Y_def)
  have t: "bval (take (Suc k) x) = X + 65536 ^ k * unat (x ! k)"
       "bval (take (Suc k) y) = Y + 65536 ^ k * unat (y ! k)"
    using Suc.prems by (simp_all add: take_Suc_conv_app_nth bval_append X_def Y_def)
  have less: "A + P * a < C + P * c" if "a < c" "A < P" for A C P a c :: nat
  proof -
    have "P * (a + 1) \<le> P * c" using that(1) by (intro mult_le_mono2) simp
    then show ?thesis using that(2) by simp
  qed
  consider "unat (x ! k) < unat (y ! k)" | "unat (y ! k) < unat (x ! k)" | "x ! k = y ! k"
    by (metis linorder_neqE_nat unat_inj_iff)
  then show ?case
  proof cases
    case 1 then show ?thesis using less [OF 1 b(1), of Y] by (simp add: t word_less_nat_alt)
  next
    case 2 then show ?thesis using less [OF 2 b(2), of X] by (simp add: t word_less_nat_alt)
  next
    case 3 then show ?thesis using Suc by (simp add: t X_def Y_def)
  qed
qed simp


lemma compare_top:
  fixes x y :: vbig
  defines "i \<equiv> top_digit x (length x)" and "j \<equiv> top_digit y (length y)"
  shows "i < 0 \<longleftrightarrow> bval x = 0" and "j < 0 \<longleftrightarrow> bval y = 0"
    and "i < j \<Longrightarrow> bval x < bval y" and "i > j \<Longrightarrow> bval x > bval y"
    and "i = j \<Longrightarrow> \<not> i < 0 \<Longrightarrow> compare_digits x y e (nat (i + 1)) \<longleftrightarrow>
           (if bval x = bval y then e else bval x > bval y)"
proof -
  have X: "i < 0 \<Longrightarrow> i = - 1 \<and> bval x = 0"
     "i \<ge> 0 \<Longrightarrow> nat i < length x \<and> 65536 ^ nat i \<le> bval x \<and> bval x < 65536 ^ (nat i + 1)
        \<and> bval x = bval (take (nat i + 1) x)"
    using top_digit_bounds [of "length x" x] by (simp_all add: i_def)
  have Y: "j < 0 \<Longrightarrow> j = - 1 \<and> bval y = 0"
     "j \<ge> 0 \<Longrightarrow> nat j < length y \<and> 65536 ^ nat j \<le> bval y \<and> bval y < 65536 ^ (nat j + 1)
        \<and> bval y = bval (take (nat j + 1) y)"
    using top_digit_bounds [of "length y" y] by (simp_all add: j_def)
  have pos: "0 < (65536::nat) ^ k" for k by simp
  show "i < 0 \<longleftrightarrow> bval x = 0" using X pos [of "nat i"] by (metis leD not_less)
  show "j < 0 \<longleftrightarrow> bval y = 0" using Y pos [of "nat j"] by (metis leD not_less)
  have mono: "(65536::nat) ^ (nat a + 1) \<le> 65536 ^ nat b" if "a \<ge> 0" "a < b" for a b
    using that by (intro power_increasing) simp_all
  show "i < j \<Longrightarrow> bval x < bval y"
    using X Y mono [of i j] pos [of "nat j"] by (cases "i < 0") auto
  show "i > j \<Longrightarrow> bval x > bval y"
    using X Y mono [of j i] pos [of "nat i"] by (cases "j < 0") auto
  show "compare_digits x y e (nat (i + 1)) \<longleftrightarrow> (if bval x = bval y then e else bval x > bval y)"
    if "i = j" "\<not> i < 0"
    using that X(2) Y(2) compare_digits_val [of "nat i + 1" x y e] by (simp add: nat_add_distrib)
qed

text \<open>The exact meaning of the two ordering tests, the comparison of the digit counts included.\<close>

lemma v_bignum_gt_val:
  "v_bignum_gt False x y \<longleftrightarrow>
     (if bval x = bval y \<and> bval x \<noteq> 0 then length x > length y else bval x > bval y)"
proof -
  define i j where "i = top_digit x (length x)" and "j = top_digit y (length y)"
  note c = compare_top(1) [of x, folded i_def] compare_top(2) [of y, folded j_def]
    compare_top(3) [of x y, folded i_def j_def] compare_top(4) [of y x, folded i_def j_def]
    compare_top(5) [of x y, folded i_def j_def]
  have d: "v_bignum_gt False x y = (if i < 0 \<and> j < 0 then False else if i < j then False
      else if i > j then True else compare_digits x y (length x > length y) (nat (i + 1)))"
    by (simp only: v_bignum_gt_def Let_def i_def j_def if_False)
  consider "i < j" | "j < i" | "i = j" "i < 0" | "i = j" "\<not> i < 0" by linarith
  then show ?thesis
  proof cases
    case 1 then show ?thesis using c(3) c(2) unfolding d by simp
  next
    case 2 then show ?thesis using c(4) c(1) unfolding d by simp
  next
    case 3 then show ?thesis using c(1,2) unfolding d by simp
  next
    case 4 then show ?thesis using c(1) c(5) [of "length x > length y"] unfolding d by simp
  qed
qed

lemma v_bignum_gte_val:
  "v_bignum_gte False x y \<longleftrightarrow>
     (if bval x = bval y \<and> bval x \<noteq> 0 then length x \<ge> length y else bval x \<ge> bval y)"
proof -
  define i j where "i = top_digit x (length x)" and "j = top_digit y (length y)"
  note c = compare_top(1) [of x, folded i_def] compare_top(2) [of y, folded j_def]
    compare_top(3) [of x y, folded i_def j_def] compare_top(4) [of y x, folded i_def j_def]
    compare_top(5) [of x y, folded i_def j_def]
  have d: "v_bignum_gte False x y = (if i < 0 \<and> j < 0 then True else if i < j then False
      else if i > j then True else compare_digits x y (length x \<ge> length y) (nat (i + 1)))"
    by (simp only: v_bignum_gte_def Let_def i_def j_def if_False)
  consider "i < j" | "j < i" | "i = j" "i < 0" | "i = j" "\<not> i < 0" by linarith
  then show ?thesis
  proof cases
    case 1 then show ?thesis using c(3) c(2) unfolding d by simp
  next
    case 2 then show ?thesis using c(4) c(1) unfolding d by simp
  next
    case 3 then show ?thesis using c(1,2) unfolding d by simp
  next
    case 4 then show ?thesis using c(1) c(5) [of "length x \<ge> length y"] unfolding d by (auto simp: le_less)
  qed
qed

lemma v_bignum_gt_le [bn_val]:
  "length x \<le> length y \<Longrightarrow> v_bignum_gt False x y \<longleftrightarrow> bval x > bval y"
  by (simp add: v_bignum_gt_val)

lemma v_bignum_gte_ge [bn_val]:
  "length y \<le> length x \<Longrightarrow> v_bignum_gte False x y \<longleftrightarrow> bval x \<ge> bval y"
  by (simp add: v_bignum_gte_val)

section \<open>Single-digit arithmetic\<close>

lemma mod_from_carry_int: "\<exists>k. b = a + k * P \<Longrightarrow> 0 \<le> b \<Longrightarrow> b < P \<Longrightarrow> b = a mod (P::int)"
  by (metis mod_mult_self1 mod_pos_pos_trivial)

lemma max_digit: "unat (- 1 :: u16) = 65535" "(ucast (- 1 :: u16) :: u32) = 65535"
  by (simp add: unsigned_minus_1_eq_mask mask_eq_exp_minus_1) code_simp

lemma increment_loop_len [bn_len, simp]: "length (increment_loop x) = length x"
  by (induction x) simp_all

lemma decrement_loop_len [bn_len, simp]: "length (decrement_loop x) = length x"
  by (induction x) simp_all

lemma mul_digit_loop_len [bn_len, simp]: "length (mul_digit_loop c y x) = length x"
  by (induction x arbitrary: c) (simp_all add: Let_def)

lemma increment_loop_val: "\<exists>k. bval x + 1 = bval (increment_loop x) + k * 65536 ^ length x"
proof (induction x)
  case (Cons d ds)
  show ?case
  proof (cases "d + 1 = 0")
    case True
    then have "d = - 1" by (simp only: eq_neg_iff_add_eq_0)
    then have d: "unat d = 65535" by (simp only: max_digit)
    from Cons obtain k where "bval ds + 1 = bval (increment_loop ds) + k * 65536 ^ length ds" by blast
    from carry_step [OF _ this, of 0 65536 "65536"] show ?thesis
      using True d by (intro exI [of _ k]) simp
  next
    case False
    then have "unat (d + 1) = unat d + 1" by (simp add: unatSuc add.commute [of d])
    then show ?thesis using False by (intro exI [of _ 0]) simp
  qed
qed simp

lemma v_bignum_add_digit_len [bn_len, simp]: "length (v_bignum_add_digit x y) = length x"
  and v_bignum_sub_digit_len [bn_len, simp]: "length (v_bignum_sub_digit x y) = length x"
  and v_bignum_mul_digit_len [bn_len, simp]: "length (v_bignum_mul_digit x y) = length x"
  by (cases x; simp add: Let_def v_bignum_mul_digit_def)+

lemma v_bignum_add_digit_val [bn_val]:
  assumes "x \<noteq> []"
  shows "bval (v_bignum_add_digit x y) = (bval x + unat y) mod 65536 ^ length x"
proof -
  obtain d ds where x: "x = d # ds" using assms by (cases x) auto
  define t where "t = (ucast d + ucast y :: u32)"
  have t: "unat t = unat d + unat y" "unat t < 131072"
    using unat_lt16 [of d] unat_lt16 [of y] by (simp_all add: t_def unat_word_ariths)
  have "\<exists>k. bval ds + unat (of_bool (t > MAX_DIG) :: u32)
      = bval (if t > MAX_DIG then increment_loop ds else ds) + k * 65536 ^ length ds"
    using increment_loop_val [of ds] by (cases "t > MAX_DIG") (auto intro: exI [of _ 0])
  then obtain k where k: "bval ds + unat (of_bool (t > MAX_DIG) :: u32)
      = bval (if t > MAX_DIG then increment_loop ds else ds) + k * 65536 ^ length ds" by blast
  from carry_step [OF carry_split [OF t(2)] k] have
    "bval x + unat y = bval (v_bignum_add_digit x y) + k * 65536 ^ length x"
    unfolding x t(1) by (simp add: Let_def t_def [symmetric])
  then show ?thesis using bval_bound [of "v_bignum_add_digit x y"]
    by (intro mod_from_carry) auto
qed

lemma mul_digit_loop_val:
  "unat c < 65536 \<Longrightarrow>
   \<exists>k. bval x * unat y + unat c = bval (mul_digit_loop c y x) + k * 65536 ^ length x"
proof (induction x arbitrary: c)
  case (Cons d ds)
  define t where "t = ucast d * ucast y + c"
  have "unat d * unat y \<le> 65535 * 65535"
    using unat_lt16 [of d] unat_lt16 [of y] by (intro mult_le_mono) simp_all
  then have t: "unat t = unat d * unat y + unat c"
    using Cons.prems by (simp add: t_def unat_word_ariths)
  have "unat (drop_bit 16 t) < 65536" using unsigned_less [of t, where 'a = nat] by simp
  from Cons.IH [OF this] obtain k where k: "bval ds * unat y + unat (drop_bit 16 t)
      = bval (mul_digit_loop (drop_bit 16 t) y ds) + k * 65536 ^ length ds" by blast
  have "unat (ucast t :: u16) + 65536 * unat (drop_bit 16 t) = unat d * unat y + unat c"
    using t by (simp add: unat_ucast_mod)
  from carry_step [OF this k] show ?case
    by (intro exI [of _ k]) (simp add: Let_def t_def [symmetric] distrib_right)
qed simp

lemma v_bignum_mul_digit_val [bn_val]:
  "bval (v_bignum_mul_digit x y) = bval x * unat y mod 65536 ^ length x"
  using mul_digit_loop_val [of 0 x y] bval_bound [of "v_bignum_mul_digit x y"]
  unfolding v_bignum_mul_digit_def by (intro mod_from_carry) simp_all


lemma decrement_loop_val:
  "\<exists>k. int (bval (decrement_loop x)) = int (bval x) - 1 + k * 65536 ^ length x"
proof (induction x)
  case (Cons d ds)
  show ?case
  proof (cases "d = 0")
    case True
    from Cons obtain k where k: "int (bval (decrement_loop ds)) = int (bval ds) - 1 + k * 65536 ^ length ds"
      by blast
    from borrow_step [OF _ k, of 65535 "- 1" 65536] show ?thesis
      using True max_digit(1) by (intro exI [of _ k]) (simp add: MAX_DIG_def max_digit)
  next
    case False
    then have "unat (d - 1) = unat d - 1" "unat d > 0" by (simp_all add: unat_minus_one unat_gt_0)
    moreover from this have "unat d - 1 < 65535" using unat_lt16 [of d] by linarith
    ultimately show ?thesis using False
      by (intro exI [of _ 0]) (simp add: MAX_DIG_def word_less_nat_alt)
  qed
qed (auto intro: exI [of _ "1"])

lemma v_bignum_sub_digit_val [bn_val]:
  assumes "x \<noteq> []"
  shows "int (bval (v_bignum_sub_digit x y)) = (int (bval x) - int (unat y)) mod 65536 ^ length x"
proof -
  obtain d ds where x: "x = d # ds" using assms by (cases x) auto
  define t where "t = (ucast d - ucast y :: u32)"
  have t: "int (unat (ucast t :: u16)) = int (unat d) - int (unat y)
      + 65536 * int (unat (of_bool (t > MAX_DIG) :: u32))"
    using borrow_split [of "ucast d" "ucast y" 0] by (simp add: t_def unat_lt16)
  have "\<exists>k. int (bval (if t > MAX_DIG then decrement_loop ds else ds))
      = int (bval ds) - int (unat (of_bool (t > MAX_DIG) :: u32)) + k * 65536 ^ length ds"
    using decrement_loop_val [of ds] by (cases "t > MAX_DIG") (auto intro: exI [of _ 0])
  then obtain k where k: "int (bval (if t > MAX_DIG then decrement_loop ds else ds))
      = int (bval ds) - int (unat (of_bool (t > MAX_DIG) :: u32)) + k * 65536 ^ length ds" by blast
  have "int (bval (v_bignum_sub_digit x y)) = int (bval x) - int (unat y) + k * 65536 ^ length x"
    using borrow_step [OF t k] unfolding x by (simp add: Let_def t_def [symmetric])
  moreover have "int (bval (v_bignum_sub_digit x y)) < 65536 ^ length x"
    using bval_bound [of "v_bignum_sub_digit x y"] by (metis of_nat_less_iff of_nat_numeral of_nat_power v_bignum_sub_digit_len)
  ultimately show ?thesis by (intro mod_from_carry_int) auto
qed

section \<open>Most significant bit and bit slices\<close>

lemma not_bit_top:
  assumes "(n::nat) < 2 ^ Suc j" and "\<not> bit n j"
  shows "n < 2 ^ j"
proof (rule ccontr)
  assume "\<not> n < 2 ^ j"
  then have "n div 2 ^ j = 1"
    using assms(1) by (intro div_nat_eqI) simp_all
  then show False using assms(2) by (simp add: bit_iff_odd)
qed

lemma msb_mask_loop_val:
  "j < 16 \<Longrightarrow> d \<noteq> 0 \<Longrightarrow> unat d < 2 ^ Suc j \<Longrightarrow>
   \<exists>m \<le> j. msb_mask_loop d (push_bit j 1) b = Some (b - int (j - m))
     \<and> 2 ^ m \<le> unat d \<and> unat d < 2 ^ Suc m"
proof (induction j arbitrary: b)
  case (Suc j)
  have nz: "push_bit (Suc j) (1 :: u16) \<noteq> 0"
    using Suc.prems(1) by (simp only: push_bit_of_1 exp_eq_zero_iff) simp
  have sh: "drop_bit 1 (push_bit (Suc j) (1 :: u16)) = push_bit j 1"
    using Suc.prems(1) by (intro bit_eqI) (auto simp: bit_simps)
  show ?case
  proof (cases "bit d (Suc j)")
    case True
    then have "d AND push_bit (Suc j) 1 \<noteq> 0"
      using bit_iff_and_push_bit_not_eq_0 by blast
    then show ?thesis using bit_imp_le_unat [OF True] Suc.prems nz
      by (intro exI [of _ "Suc j"]) (subst msb_mask_loop.simps, simp)
  next
    case False
    then have "\<not> bit (unat d) (Suc j)" by (simp add: bit_simps)
    with Suc.prems(3) have "unat d < 2 ^ Suc j" by (rule not_bit_top)
    with Suc obtain m where m: "m \<le> j" "2 ^ m \<le> unat d" "unat d < 2 ^ Suc m"
      "msb_mask_loop d (push_bit j 1) (b - 1) = Some (b - 1 - int (j - m))" by (meson Suc_lessD)
    have "\<not> d AND push_bit (Suc j) 1 \<noteq> 0"
      using False bit_iff_and_push_bit_not_eq_0 by blast
    then have "msb_mask_loop d (push_bit (Suc j) 1) b = msb_mask_loop d (push_bit j 1) (b - 1)"
      using nz sh by (subst msb_mask_loop.simps) simp
    with m show ?thesis by (intro exI [of _ m]) (simp add: Suc_diff_le)
  qed
next
  case 0
  then have "unat d = unat (1 :: u16)" using unat_gt_0 [of d] by simp
  then have "d = 1" by (simp only: unat_inj_iff)
  then show ?case by (subst msb_mask_loop.simps) simp
qed

lemma bit_msb_loop_val:
  "k \<le> length x \<Longrightarrow>
   (if bval (take k x) = 0 then bit_msb_loop x k = - 1
    else \<exists>m. bit_msb_loop x k = int m \<and> 2 ^ m \<le> bval (take k x) \<and> bval (take k x) < 2 ^ Suc m)"
proof (induction k)
  case (Suc k)
  have t: "bval (take (Suc k) x) = bval (take k x) + 65536 ^ k * unat (x ! k)"
    using Suc.prems by (simp add: take_Suc_conv_app_nth bval_append)
  have b: "bval (take k x) < 65536 ^ k" using bval_bound [of "take k x"] Suc.prems by simp
  show ?case
  proof (cases "x ! k = 0")
    case True
    then show ?thesis using Suc by (simp add: t del: power_Suc)
  next
    case False
    from msb_mask_loop_val [of 15 "x ! k" "(int k + 1) * 16 - 1"] False unat_lt16 [of "x ! k"]
    obtain m where m: "m \<le> 15" "2 ^ m \<le> unat (x ! k)" "unat (x ! k) < 2 ^ Suc m"
      "msb_mask_loop (x ! k) (push_bit 15 1) ((int k + 1) * 16 - 1)
         = Some ((int k + 1) * 16 - 1 - int (15 - m))"
      by auto
    have "65536 ^ k * 2 ^ m \<le> 65536 ^ k * unat (x ! k)" using m(2) by (rule mult_le_mono2)
    then have lo: "2 ^ (16 * k + m) \<le> bval (take (Suc k) x)"
      unfolding t power_add power_16 by linarith
    have "65536 ^ k * (unat (x ! k) + 1) \<le> 65536 ^ k * 2 ^ Suc m" 
      using m(3) by (intro mult_le_mono2) simp
    then have "bval (take k x) + 65536 ^ k * unat (x ! k) < 65536 ^ k * 2 ^ Suc m"
      using b by (simp only: distrib_left mult_1_right)
    then have hi: "bval (take (Suc k) x) < 2 ^ Suc (16 * k + m)"
      unfolding t by (simp add: power_add power_16 mult.left_commute)
    have "bit_msb_loop x (Suc k) = int (16 * k + m)" using False m(1,4) by simp
    moreover have "0 < bval (take (Suc k) x)" by (rule less_le_trans [OF _ lo]) simp
    ultimately show ?thesis using lo hi by (simp only: if_False less_not_refl2) blast
  qed
qed simp

lemma v_bignum_bit_msb_zero: "v_bignum_bit_msb x < 0 \<longleftrightarrow> bval x = 0"
  and v_bignum_bit_msb_neg: "bval x = 0 \<Longrightarrow> v_bignum_bit_msb x = - 1"
  and v_bignum_bit_msb_bounds: "v_bignum_bit_msb x = int m \<Longrightarrow> 2 ^ m \<le> bval x \<and> bval x < 2 ^ Suc m"
  using bit_msb_loop_val [of "length x" x]
  by (auto simp: v_bignum_bit_msb_def simp del: power_Suc split: if_splits)


lemma set_part_fold:
  fixes ds :: vbig
  defines "f \<equiv> \<lambda>off x i. if v_bignum_bit_test ds (off + of_nat i)
       then v_bignum_bit_set x (of_nat i) else x"
  shows "n < 2 ^ 32 \<Longrightarrow> length (foldl (f off) x [0..<n]) = length x \<and>
    (\<forall>k. bit (bval (foldl (f off) x [0..<n])) k \<longleftrightarrow>
       bit (bval x) k \<or> k < n \<and> k < 16 * length x \<and> bit (bval ds) (unat (off + of_nat k)))"
proof (induction n)
  case (Suc n)
  define y where "y = foldl (f off) x [0..<n]"
  have y: "length y = length x" "\<And>k. bit (bval y) k \<longleftrightarrow>
       bit (bval x) k \<or> k < n \<and> k < 16 * length x \<and> bit (bval ds) (unat (off + of_nat k))"
    using Suc by (simp_all add: y_def)
  have n: "unat (of_nat n :: u32) = n" using Suc.prems by (simp add: unat_of_nat)
  have e: "foldl (f off) x [0..<Suc n] = f off y n" by (simp add: y_def)
  have "bit (bval (v_bignum_bit_set y (of_nat n))) k \<longleftrightarrow> bit (bval y) k \<or> n < 16 * length x \<and> k = n" for k
  proof (cases "n < 16 * length x")
    case True
    then show ?thesis using v_bignum_bit_set_bit [of "of_nat n" y k] n y(1) by (simp add: mult.commute)
  next
    case False
    then show ?thesis using n y(1) by (simp add: v_bignum_bit_set_def mult.commute)
  qed
  then show ?case unfolding e using y
    by (auto simp: f_def v_bignum_bit_test_val less_Suc_eq)
qed simp

lemma v_bignum_set_bignum_part_len [bn_len, simp]:
  "length (v_bignum_set_bignum_part x y msb bits) = length x"
proof (cases y)
  case (Some ds)
  then show ?thesis
    using set_part_fold [of "unat bits" ds "msb - (bits - 1)" "v_bignum_set_zero x"]
      unsigned_less [of bits, where 'a = nat]
    by (simp add: v_bignum_set_bignum_part_def Let_def)
qed (simp add: v_bignum_set_bignum_part_def)

lemma v_bignum_set_bignum_part_val [bn_val]:
  assumes "unat msb \<le> length ds * 16" and "0 < unat bits" and "unat bits \<le> unat msb + 1"
    and "unat bits \<le> 16 * length x"
  shows "bval (v_bignum_set_bignum_part x (Some ds) msb bits)
    = bval ds div 2 ^ (unat msb + 1 - unat bits) mod 2 ^ unat bits"
proof -
  have off: "unat (msb - (bits - 1) + of_nat k) = unat msb + 1 - unat bits + k"
    if "k < unat bits" for k
  proof -
    have "unat (bits - 1) = unat bits - 1" using assms(2) by (simp add: unat_minus_one unat_gt_0)
    moreover have "unat (msb - (bits - 1)) = unat msb - unat (bits - 1)"
      using assms(3) calculation by (intro unat_sub) (simp add: word_le_nat_alt)
    moreover have "unat (of_nat k :: u32) = k"
      using that unsigned_less [of bits, where 'a = nat] by (simp add: unat_of_nat)
    ultimately show ?thesis
      using that assms(2,3) unsigned_less [of msb, where 'a = nat] by (simp add: unat_word_ariths)
  qed
  have "bit (bval (v_bignum_set_bignum_part x (Some ds) msb bits)) k
      \<longleftrightarrow> k < unat bits \<and> bit (bval ds) (unat msb + 1 - unat bits + k)" for k
  proof -
    have "bit (bval (v_bignum_set_bignum_part x (Some ds) msb bits)) k \<longleftrightarrow>
        k < unat bits \<and> k < 16 * length x \<and> bit (bval ds) (unat (msb - (bits - 1) + of_nat k))"
      using assms(1) unsigned_less [of bits, where 'a = nat]
        set_part_fold [of "unat bits" ds "msb - (bits - 1)" "v_bignum_set_zero x"]
      by (simp add: v_bignum_set_bignum_part_def Let_def v_bignum_set_zero_val)
    then show ?thesis using off [of k] assms(4) by (cases "k < unat bits") simp_all
  qed
  then show ?thesis
    by (intro bit_eqI) (auto simp: bit_simps simp flip: take_bit_eq_mod drop_bit_eq_div)
qed

section \<open>Properties\<close>

text \<open>C7: addition, subtraction and multiplication of big numbers are the ring operations
  modulo \<open>65536 ^ n\<close>, where \<open>n\<close> is the digit count of the destination, whatever the digit count
  of the other operand; the digit count is kept. Multiplication does so while the digits of both operands
  fit into its working array, at most 2047 together, and leaves the array otherwise.\<close>

theorem v_bignum_ring_ops:
  "bval (v_bignum_add x y) = (bval x + bval y) mod 65536 ^ length x
   \<and> int (bval (v_bignum_sub False x y)) = (int (bval x) - int (bval y)) mod 65536 ^ length x
   \<and> length (v_bignum_add x y) = length x \<and> length (v_bignum_sub False x y) = length x
   \<and> (if length x + length y < 2048
      then \<exists>z. v_bignum_mul x y = Inr z \<and> bval z = (bval x * bval y) mod 65536 ^ length x \<and> length z = length x
      else v_bignum_mul x y = Inl OutOfBounds)"
  by (simp add: v_bignum_add_val v_bignum_sub_val mul_digits_val v_bignum_add_len v_bignum_mul_def)

text \<open>C24: shifting left by any count multiplies by the power of two modulo \<open>65536 ^ n\<close>; shifting
  right by any count divides by it; the two loops of whole digits and of bits compose correctly.\<close>

theorem v_bignum_shifts:
  "bval (v_bignum_bit_shift_left x c) = bval x * 2 ^ c mod 65536 ^ length x
   \<and> bval (v_bignum_bit_shift_left_1 x) = 2 * bval x mod 65536 ^ length x
   \<and> bval (v_bignum_bit_shift_right x c) = bval x div 2 ^ c"
  by (simp add: v_bignum_bit_shift_left_val v_bignum_bit_shift_left_1_val v_bignum_bit_shift_right_val)

text \<open>C25: the exact meaning of the ordering tests. On different values, and on zero, they compare the
  values; on equal non-zero values the answer is the comparison of the two digit counts.\<close>

theorem v_bignum_orderings:
  "v_bignum_gt False x y =
     (if bval x = bval y \<and> bval x \<noteq> 0 then length x > length y else bval x > bval y)
   \<and> v_bignum_gte False x y =
     (if bval x = bval y \<and> bval x \<noteq> 0 then length x \<ge> length y else bval x \<ge> bval y)"
  using v_bignum_gt_val [of x y] v_bignum_gte_val [of x y] by (simp only:)

end
