(* ===== verification/Bignum_Div.thy ===== *)
theory Bignum_Div
  imports Bignum
begin

unbundle bit_operations_syntax

text \<open>
  The scratch heap of \<^verbatim>\<open>target-ppdl/v_bignum.c\<close> and the routines that take their temporaries
  from it that the machine calls: division and modulo.

  The heap is one static array of 2080 16-bit cells with a bump pointer. A number of \<open>n\<close>
  digits takes \<open>n + 1\<close> cells, the first holding \<open>n\<close>. The cells keep their contents when a
  number is freed, so a later allocation sees them: a number the code leaves unwritten is
  read back from the cells. Digit counts and positions are natural numbers; all of them are
  far below the width of \<^verbatim>\<open>unsigned int\<close>.
\<close>

section \<open>The scratch heap\<close>

record bheap =
  heap_cells :: "nat \<Rightarrow> u16"
  heap_pos :: nat

definition HEAP_SIZE :: nat where
  "HEAP_SIZE = 2048 + 32"

definition empty_heap :: bheap where
  "empty_heap = \<lparr> heap_cells = (\<lambda>_. 0), heap_pos = 0 \<rparr>"

definition bignum_alloc :: "nat \<Rightarrow> bheap \<Rightarrow> nat option \<times> bheap" where
  "bignum_alloc n h =
     (if heap_pos h + n > HEAP_SIZE then (None, h)
      else let y = heap_pos h in
        (Some y, h \<lparr> heap_cells := (heap_cells h)(y := of_nat n), heap_pos := heap_pos h + (n + 1) \<rparr>))"

definition bignum_free :: "nat \<Rightarrow> bheap \<Rightarrow> bheap" where
  "bignum_free x h = h \<lparr> heap_pos := heap_pos h - (unat (heap_cells h x) + 1) \<rparr>"

text \<open>
  Every caller reads or writes all digits of the number it allocates, without looking at
  the returned pointer: a null pointer is dereferenced, and a number whose last digit falls
  on cell 2080 is accessed out of bounds.
\<close>

definition new_number :: "nat \<Rightarrow> bheap \<Rightarrow> (nat \<times> bheap) run" where
  "new_number n h =
     (case bignum_alloc n h of
        (None, h') \<Rightarrow> Inl NullDeref
      | (Some p, h') \<Rightarrow> if p + n < HEAP_SIZE then Inr (p, h') else Inl OutOfBounds)"

definition heap_number :: "nat \<Rightarrow> nat \<Rightarrow> bheap \<Rightarrow> vbig" where
  "heap_number p n h = map (\<lambda>i. heap_cells h (p + 1 + i)) [0..<n]"

definition heap_write :: "nat \<Rightarrow> vbig \<Rightarrow> bheap \<Rightarrow> bheap" where
  "heap_write p ds h =
     h \<lparr> heap_cells := (\<lambda>a. if p + 1 \<le> a \<and> a < p + 1 + length ds then ds ! (a - (p + 1))
                         else heap_cells h a) \<rparr>"

section \<open>Division\<close>

definition set_low :: "vbig \<Rightarrow> vbig" where
  "set_low x = x[0 := x ! 0 OR 1]"

text \<open>
  The loop of \<^verbatim>\<open>v_bignum_div\<close>: \<open>div_pass\<close> shifts the quotient and subtracts the divisor where it
  fits; \<open>Suc m\<close> passes are left when \<^verbatim>\<open>next = m - 1\<close>. In the last pass \<^verbatim>\<open>next\<close> is \<open>-1\<close>, which
  \<^verbatim>\<open>v_bignum_bit_test\<close> takes as an unsigned number.
\<close>

definition div_pass :: "vbig \<Rightarrow> vbig \<Rightarrow> vbig \<Rightarrow> vbig \<times> vbig" where
  "div_pass y q work = (if v_bignum_gte False work y
     then (set_low (v_bignum_bit_shift_left_1 q), v_bignum_sub False work y)
     else (v_bignum_bit_shift_left_1 q, work))"

primrec div_loop :: "vbig \<Rightarrow> vbig \<Rightarrow> nat \<Rightarrow> vbig \<Rightarrow> vbig \<Rightarrow> vbig \<times> vbig" where
  "div_loop x y 0 q work = (q, work)"
| "div_loop x y (Suc m) q work =
     (let (q2, w1) = div_pass y q work;
          w2 = v_bignum_bit_shift_left_1 w1;
          w3 = (if v_bignum_bit_test x (of_int (int m - 1)) then set_low w2 else w2)
      in div_loop x y m q2 w3)"

definition v_bignum_div ::
  "vbig \<Rightarrow> vbig \<Rightarrow> vbig option \<Rightarrow> bheap \<Rightarrow> (vbig \<times> vbig option \<times> bheap) run" where
  "v_bignum_div x y remainder h =
     (let msbx = v_bignum_bit_msb x; msby = v_bignum_bit_msb y in
      if msby > msbx then
        Inr (v_bignum_set_zero x, map_option (\<lambda>r. v_bignum_set_bignum r x) remainder, h)
      else if msby < 0 then Inr (v_bignum_set_zero x, remainder, h)
      else
        rbind (new_number (length x) h) (\<lambda>(pq, h1).
        rbind (new_number (length x) h1) (\<lambda>(pw, h2).
          let q0 = v_bignum_set_zero (heap_number pq (length x) h2);
              w0 = v_bignum_set_bignum_part (heap_number pw (length x) h2) (Some x)
                     (of_int msbx) (of_int (msby + 1));
              (q, w) = div_loop x y (nat (msbx - (msby + 1) + 2)) q0 w0;
              work = v_bignum_bit_shift_right w 1;
              h3 = heap_write pw work (heap_write pq q h2)
          in Inr (v_bignum_set_bignum x q, map_option (\<lambda>r. v_bignum_set_bignum r work) remainder,
                  bignum_free pq (bignum_free pw h3)))))"

definition v_bignum_mod :: "vbig \<Rightarrow> vbig \<Rightarrow> bheap \<Rightarrow> (vbig \<times> bheap) run" where
  "v_bignum_mod x y h =
     (let digs = (if length x > length y then length x else length y) in
      rbind (new_number digs h) (\<lambda>(p, h1).
      let tmp0 = heap_number p digs h1 in
      rbind (v_bignum_div x y (Some tmp0) h1) (\<lambda>(x1, r, h2).
        let tmp = (case r of Some r' \<Rightarrow> r' | None \<Rightarrow> tmp0); h3 = heap_write p tmp h2
        in Inr (v_bignum_set_bignum x1 tmp, bignum_free p h3))))"

text \<open>
  The remainder the division really delivers: the final right shift undoes a left shift that
  may have lost the top bit, and \<open>same_outside\<close> says which heap cells a routine may touch.
\<close>

definition div_rem :: "nat \<Rightarrow> nat \<Rightarrow> nat \<Rightarrow> nat" where
  "div_rem n X Y = (if 2 ^ (16 * n - 1) \<le> X \<and> X < Y then X - 2 ^ (16 * n - 1) else X mod Y)"

definition same_outside :: "nat \<Rightarrow> nat \<Rightarrow> bheap \<Rightarrow> bheap \<Rightarrow> bool" where
  "same_outside p n h h' \<longleftrightarrow> heap_pos h' = heap_pos h \<and>
     (\<forall>a. a < p \<or> p + n \<le> a \<longrightarrow> heap_cells h' a = heap_cells h a)"

section \<open>Division lemmas\<close>

lemma heap_number_len [bn_len, simp]: "length (heap_number p n h) = n"
  by (simp add: heap_number_def)

lemma set_low_len [bn_len, simp]: "length (set_low x) = length x"
  by (simp add: set_low_def)

lemma set_low_val [bn_val]: "x \<noteq> [] \<Longrightarrow> even (bval x) \<Longrightarrow> bval (set_low x) = bval x + 1"
proof (cases x)
  case (Cons d ds)
  assume "even (bval x)"
  then have "even (unat d)" by (simp add: Cons)
  then have "\<not> bit (unat d) 0" by (simp add: bit_0)
  then have "\<not> bit d 0" by (simp add: bit_unsigned_iff)
  then have "d AND 1 = 0" by (intro bit_eqI) (auto simp: bit_and_iff bit_1_iff intro!: gr0I)
  from unat_or_disjoint [OF this] show ?thesis by (simp add: Cons set_low_def)
qed simp

lemma shift_left_1_even: "x \<noteq> [] \<Longrightarrow> even (bval (v_bignum_bit_shift_left_1 x))"
  by (cases x) (simp_all add: v_bignum_bit_shift_left_1_val even_mod_4_div_2 dvd_mod)

lemma double_digit_room:
  "length x \<noteq> 0 \<Longrightarrow> 2 * bval x < 65536 ^ length x \<Longrightarrow> bval (v_bignum_bit_shift_left_1 x) = 2 * bval x"
  by (simp add: v_bignum_bit_shift_left_1_val)

lemma next_bit:
  assumes "length x < 65536"
  shows "m < 16 * length x \<Longrightarrow> v_bignum_bit_test x (of_int (int (Suc m) - 1)) = bit (bval x) m"
    and "v_bignum_bit_test x (of_int (int 0 - 1)) = False"
proof -
  assume "m < 16 * length x"
  then have "unat (of_nat m :: u32) = m" using assms by (simp add: unat_of_nat)
  then show "v_bignum_bit_test x (of_int (int (Suc m) - 1)) = bit (bval x) m"
    by (simp add: v_bignum_bit_test_val)
next
  have "unat (- 1 :: u32) = 4294967295" by (simp add: unsigned_minus_1_eq_mask mask_eq_exp_minus_1)
  then show "v_bignum_bit_test x (of_int (int 0 - 1)) = False"
    using assms by (simp add: v_bignum_bit_test_val bit_bval)
qed


lemma div_step:
  fixes X Y q w P :: nat
  assumes "P = 2 * q * Y + w" and "w < 2 * Y"
  defines "b \<equiv> of_bool (w \<ge> Y)"
  shows "P = (2 * q + b) * Y + (w - b * Y)" and "w - b * Y < Y" and "P div Y = 2 * q + b"
    and "P mod Y = w - b * Y"
proof -
  show 1: "P = (2 * q + b) * Y + (w - b * Y)" and 2: "w - b * Y < Y"
    using assms by (auto simp: algebra_simps)
  show "P div Y = 2 * q + b" using 2 unfolding 1 by simp
  show "P mod Y = w - b * Y" using 2 unfolding 1 by simp
qed

lemma div_pass_val:
  assumes "length y \<le> length work" and "length q = length work" and "work \<noteq> []"
    and "0 < bval y" and "P = 2 * bval q * bval y + bval work" and "bval work < 2 * bval y"
    and "P < 65536 ^ length work"
  shows "length (fst (div_pass y q work)) = length work" "length (snd (div_pass y q work)) = length work"
    and "bval (fst (div_pass y q work)) = P div bval y" "bval (snd (div_pass y q work)) = P mod bval y"
proof -
  note st = div_step [OF assms(5,6)]
  have "2 * bval q * 1 \<le> 2 * bval q * bval y" using assms(4) by (intro mult_le_mono2) simp
  then have "2 * bval q < 65536 ^ length q" unfolding assms(2) using assms(5,7) by linarith
  then have q1: "bval (v_bignum_bit_shift_left_1 q) = 2 * bval q"
    by (simp add: v_bignum_bit_shift_left_1_val)
  have ne: "v_bignum_bit_shift_left_1 q \<noteq> []"
    using assms(2,3) by (simp flip: length_greater_0_conv)
  have ge: "v_bignum_gte False work y \<longleftrightarrow> bval y \<le> bval work" using assms(1) by (rule v_bignum_gte_ge)
  show "length (fst (div_pass y q work)) = length work" "length (snd (div_pass y q work)) = length work"
    using assms(2) by (simp_all add: div_pass_def)
  show "bval (fst (div_pass y q work)) = P div bval y"
    unfolding st(3) using ne q1 by (auto simp: div_pass_def ge set_low_val)
  show "bval (snd (div_pass y q work)) = P mod bval y"
    unfolding st(4) using assms(1) by (auto simp: div_pass_def ge v_bignum_sub_ge)
qed

lemma div_loop_val:
  assumes "length y \<le> length x" and "length x < 65536" and "0 < bval y"
  shows "length q = length x \<Longrightarrow> length work = length x \<Longrightarrow> m < 16 * length x \<Longrightarrow>
    bval x div 2 ^ m = 2 * bval q * bval y + bval work \<Longrightarrow> bval work < 2 * bval y \<Longrightarrow>
    (case div_loop x y (Suc m) q work of (q', w') \<Rightarrow>
       length q' = length x \<and> length w' = length x \<and> bval q' = bval x div bval y
       \<and> bval w' = 2 * (bval x mod bval y) mod 65536 ^ length x)"
proof (induction m arbitrary: q work)
  case (0 q work)
  note ps = div_pass_val [of y work q "bval x", OF _ _ _ assms(3)]
  have u: "div_loop x y (Suc 0) q work
      = (fst (div_pass y q work), v_bignum_bit_shift_left_1 (snd (div_pass y q work)))"
    using next_bit(2) [OF assms(2)] by (simp add: split_beta)
  have "work \<noteq> []" using 0 by auto
  then show ?case unfolding u
    using ps 0 assms bval_bound [of x] by (auto simp: v_bignum_bit_shift_left_1_val)
next
  case (Suc m q work)
  define P where "P = bval x div 2 ^ Suc m"
  define q2 w1 where "q2 = fst (div_pass y q work)" and "w1 = snd (div_pass y q work)"
  have ne: "work \<noteq> []" using Suc.prems by auto
  have Pm: "bval x div 2 ^ m = 2 * P + of_bool (bit (bval x) m)"
  proof -
    have "P = bval x div 2 ^ m div 2" by (simp add: P_def mult.commute flip: div_mult2_eq)
    then show ?thesis
      using mult_div_mod_eq [of 2 "bval x div 2 ^ m"] by (simp add: bit_iff_odd mod_2_eq_odd)
  qed
  have "bval x div 2 ^ m \<le> bval x" by simp
  then have bm: "2 * P + of_bool (bit (bval x) m) < 65536 ^ length x"
    using bval_bound [of x] Pm by linarith
  have ps: "length q2 = length x" "length w1 = length x" "bval q2 = P div bval y" "bval w1 = P mod bval y"
    using div_pass_val [of y work q P, folded q2_def w1_def] ne Suc.prems assms bm
    by (simp_all add: P_def)
  define w3 where "w3 = (if bit (bval x) m then set_low (v_bignum_bit_shift_left_1 w1)
      else v_bignum_bit_shift_left_1 w1)"
  have "2 * (P mod bval y) < 65536 ^ length x"
    using bm mod_less_eq_dividend [of P "bval y"] by linarith
  then have w2: "bval (v_bignum_bit_shift_left_1 w1) = 2 * (P mod bval y)"
    using ps by (simp add: v_bignum_bit_shift_left_1_val)
  have "w1 \<noteq> []" using ps(2) ne Suc.prems by auto
  then have w3: "bval w3 = 2 * (P mod bval y) + of_bool (bit (bval x) m)" "length w3 = length x"
    using w2 ps(2) by (auto simp: w3_def set_low_val simp flip: length_greater_0_conv)
  have u: "div_loop x y (Suc (Suc m)) q work = div_loop x y (Suc m) q2 w3"
    using next_bit(1) [OF assms(2), of m] Suc.prems(3)
    by (subst div_loop.simps(2)) (simp add: q2_def w1_def w3_def split_beta Let_def del: div_loop.simps)
  have "P mod bval y < bval y" using assms(3) by simp
  then have lt: "bval w3 < 2 * bval y" unfolding w3 by simp
  have "bval x div 2 ^ m = 2 * bval q2 * bval y + bval w3"
    unfolding Pm w3 ps(3) using div_mult_mod_eq [of P "bval y"] by linarith
  from Suc.IH [OF ps(1) w3(2) _ this lt] Suc.prems(3) show ?case unfolding u by simp
qed


text \<open>Allocation, freeing and the frame of the heap.\<close>

lemma new_number_room:
  "heap_pos h + n < HEAP_SIZE \<Longrightarrow> new_number n h = Inr (heap_pos h,
     h \<lparr> heap_cells := (heap_cells h)(heap_pos h := of_nat n), heap_pos := heap_pos h + (n + 1) \<rparr>)"
  by (simp add: new_number_def bignum_alloc_def Let_def)

lemma new_number_full: "heap_pos h + n > HEAP_SIZE \<Longrightarrow> new_number n h = Inl NullDeref"
  by (simp add: new_number_def bignum_alloc_def)

lemma new_number_last: "heap_pos h + n = HEAP_SIZE \<Longrightarrow> new_number n h = Inl OutOfBounds"
  by (simp add: new_number_def bignum_alloc_def Let_def)

lemma heap_write_pos [simp]: "heap_pos (heap_write p ds h) = heap_pos h"
  by (simp add: heap_write_def)

lemma heap_write_cell:
  "a < p + 1 \<or> p + 1 + length ds \<le> a \<Longrightarrow> heap_cells (heap_write p ds h) a = heap_cells h a"
  by (auto simp: heap_write_def)

lemma heap_number_write [simp]: "heap_number p (length ds) (heap_write p ds h) = ds"
  by (rule nth_equalityI) (simp_all add: heap_number_def heap_write_def)

lemma bignum_free_cells [simp]: "heap_cells (bignum_free p h) = heap_cells h"
  by (simp add: bignum_free_def)

lemma bignum_free_pos:
  "heap_cells h p = of_nat n \<Longrightarrow> n < 65536 \<Longrightarrow> heap_pos (bignum_free p h) = heap_pos h - (n + 1)"
  by (simp add: bignum_free_def unat_of_nat)

lemma msb_cases:
  obtains "bval x = 0" "v_bignum_bit_msb x = - 1"
  | m where "v_bignum_bit_msb x = int m" "2 ^ m \<le> bval x" "bval x < 2 ^ Suc m" "m < 16 * length x"
proof (cases "v_bignum_bit_msb x < 0")
  case False
  then obtain m where m: "v_bignum_bit_msb x = int m" by (metis nonneg_int_cases not_less)
  from v_bignum_bit_msb_bounds [OF m] have b: "2 ^ m \<le> bval x" "bval x < 2 ^ Suc m" by auto
  have "(2::nat) ^ m < 2 ^ (16 * length x)"
    using b(1) bval_bound [of x] unfolding power_16 by (rule le_less_trans)
  then have "m < 16 * length x" by simp
  with m b that(2) show ?thesis by blast
next
  case True
  then have "bval x = 0" by (simp only: v_bignum_bit_msb_zero)
  then show ?thesis using that(1) v_bignum_bit_msb_neg by blast
qed

lemma div_lost_bit:
  assumes "X < 2 ^ (16 * n)" "0 < n" "0 < (Y::nat)"
  shows "(2 * (X mod Y) mod 2 ^ (16 * n)) div 2 = div_rem n X Y"
proof -
  define H :: nat where "H = 2 ^ (16 * n - 1)"
  have P: "2 ^ (16 * n) = 2 * H"
    using power_Suc [of "2::nat" "16 * n - 1"] assms(2) by (simp add: H_def)
  have e: "(2 * (X mod Y) mod 2 ^ (16 * n)) div 2 = X mod Y mod H"
    unfolding P by simp
  show ?thesis
  proof (cases "H \<le> X \<and> X < Y")
    case True
    then have "X mod Y mod H = X - H" using assms(1) P by (simp add: mod_if)
    then show ?thesis using e True by (simp add: div_rem_def H_def)
  next
    case False
    have "X mod Y < H"
    proof (cases "X < Y")
      case True then show ?thesis using False by simp
    next
      case F: False
      show ?thesis
      proof (cases "Y \<le> H")
        case True then show ?thesis using assms(3) by (meson less_le_trans mod_less_divisor)
      next
        case F2: False
        have "X mod Y \<le> X - Y" using F by (metis le_mod_geq mod_less_eq_dividend not_less)
        then show ?thesis using F2 F assms(1) P by linarith
      qed
    qed
    then show ?thesis using e False by (auto simp: div_rem_def H_def)
  qed
qed


lemma div_start:
  assumes "length y \<le> length x" "length x < 65536" "length w = length x" "length q = length x" "bval q = 0"
    and "v_bignum_bit_msb x = int mx" "v_bignum_bit_msb y = int my" "my \<le> mx"
  shows "(case div_loop x y (nat (int mx - (int my + 1) + 2)) q
            (v_bignum_set_bignum_part w (Some x) (of_int (int mx)) (of_int (int my + 1))) of (q', w') \<Rightarrow>
       length q' = length x \<and> length w' = length x \<and> bval q' = bval x div bval y
       \<and> bval w' = 2 * (bval x mod bval y) mod 65536 ^ length x)"
proof -
  have X: "2 ^ mx \<le> bval x" "bval x < 2 ^ Suc mx" "mx < 16 * length x"
    using assms(6) by (cases x rule: msb_cases; simp)+
  have Y: "2 ^ my \<le> bval y" "bval y < 2 ^ Suc my"
    using assms(7) by (cases y rule: msb_cases; simp)+
  have c: "nat (int mx - (int my + 1) + 2) = Suc (mx - my)" using assms(8) by simp
  have bits: "of_int (int my + 1) = (of_nat (Suc my) :: u32)" by simp
  have un: "unat (of_int (int mx) :: u32) = mx" "unat (of_nat (Suc my) :: u32) = Suc my"
    using X(3) assms(2,8) by (simp_all add: unat_of_nat del: of_nat_Suc)
  let ?w = "v_bignum_set_bignum_part w (Some x) (of_int (int mx)) (of_nat (Suc my))"
  have "bval x div 2 ^ (mx - my) < 2 ^ Suc my"
  proof (rule less_mult_imp_div_less)
    have "(2::nat) ^ Suc mx = 2 ^ Suc my * 2 ^ (mx - my)"
      using assms(8) by (simp flip: power_add power_Suc)
    then show "bval x < 2 ^ Suc my * 2 ^ (mx - my)" using X(2) by simp
  qed
  moreover have "bval ?w = bval x div 2 ^ (mx - my) mod 2 ^ Suc my"
    using v_bignum_set_bignum_part_val [of "of_int (int mx)" x "of_nat (Suc my)" w] X(3) assms(3,8) un
    by (simp del: of_nat_Suc of_int_of_nat_eq power_Suc)
  ultimately have w: "bval ?w = bval x div 2 ^ (mx - my)" "bval ?w < 2 ^ Suc my" by simp_all
  have "0 < bval y" using Y(1) by (rule less_le_trans [rotated]) simp
  moreover have "bval ?w < 2 * bval y" using w(2) Y(1) by simp
  ultimately show ?thesis
    unfolding c bits using w(1) X(3) assms by (intro div_loop_val) simp_all
qed


lemma same_outside_refl [simp]: "same_outside p n h h"
  by (simp add: same_outside_def)

lemma v_bignum_div_val:
  assumes "length y \<le> length x" "length x < 65536" "bval y \<noteq> 0"
    and "heap_pos h + 2 * (length x + 1) \<le> HEAP_SIZE"
  shows "\<exists>x' work h'. v_bignum_div x y rem h
        = Inr (x', map_option (\<lambda>r. v_bignum_set_bignum r work) rem, h')
     \<and> length x' = length x \<and> bval x' = bval x div bval y
     \<and> length work = length x \<and> bval work = div_rem (length x) (bval x) (bval y)
     \<and> same_outside (heap_pos h) (2 * (length x + 1)) h h'"
proof (cases "v_bignum_bit_msb y > v_bignum_bit_msb x")
  case True
  have "bval x < bval y \<and> \<not> (2 ^ (16 * length x - 1) \<le> bval x)"
  proof (cases y rule: msb_cases)
    case Y: (2 my)
    show ?thesis
    proof (cases x rule: msb_cases)
      case X: (2 mx)
      have "(2::nat) ^ Suc mx \<le> 2 ^ my" using True X Y by (intro power_increasing) simp_all
      moreover have "(2::nat) ^ my \<le> 2 ^ (16 * length x - 1)"
        using Y(4) assms(1) by (intro power_increasing) simp_all
      ultimately show ?thesis using X(3) Y(2) by linarith
    qed (use assms(3) in auto)
  qed (use assms(3) in auto)
  then show ?thesis using True
    by (intro exI [of _ "v_bignum_set_zero x"] exI [of _ x] exI [of _ h])
       (simp add: v_bignum_div_def v_bignum_set_zero_val div_rem_def)
next
  case False
  obtain my where Y: "v_bignum_bit_msb y = int my"
    using assms(3) by (cases y rule: msb_cases) auto
  then obtain mx where X: "v_bignum_bit_msb x = int mx" "my \<le> mx" "bval x < 2 ^ (16 * length x)"
    using False bval_bound [of x] by (cases x rule: msb_cases) (auto simp: power_16)
  define n p where "n = length x" and "p = heap_pos h"
  define h1 where "h1 = h \<lparr> heap_cells := (heap_cells h)(p := of_nat n), heap_pos := p + (n + 1) \<rparr>"
  define h2 where "h2 = h1 \<lparr> heap_cells := (heap_cells h1)(p + (n + 1) := of_nat n),
      heap_pos := p + (n + 1) + (n + 1) \<rparr>"
  have a: "new_number n h = Inr (p, h1)" "new_number n h1 = Inr (p + (n + 1), h2)"
    using assms(4) by (simp_all add: new_number_room h1_def h2_def p_def n_def)
  define q0 where "q0 = v_bignum_set_zero (heap_number p n h2)"
  define w0 where "w0 = v_bignum_set_bignum_part (heap_number (p + (n + 1)) n h2) (Some x)
      (of_int (int mx)) (of_int (int my + 1))"
  obtain q w where qw: "div_loop x y (nat (int mx - (int my + 1) + 2)) q0 w0 = (q, w)" by fastforce
  have z: "length (heap_number (p + (n + 1)) n h2) = length x" "length q0 = length x" "bval q0 = 0"
    by (simp_all add: q0_def v_bignum_set_zero_val n_def)
  have r: "length q = n" "length w = n" "bval q = bval x div bval y"
      "bval w = 2 * (bval x mod bval y) mod 65536 ^ n"
    using div_start [OF assms(1,2) z X(1) Y X(2), folded w0_def, unfolded qw] by (simp_all add: n_def)
  define work h3 where "work = v_bignum_bit_shift_right w 1"
    and "h3 = heap_write (p + (n + 1)) work (heap_write p q h2)"
  have ne: "0 < n" using X(3) Y assms(3) X(1) v_bignum_bit_msb_bounds [OF X(1)]
    by (cases "n = 0") (auto simp: n_def)
  have "bval work = div_rem n (bval x) (bval y)"
    using div_lost_bit [of "bval x" n "bval y"] X(3) ne assms(3) r(4)
    by (simp add: work_def v_bignum_bit_shift_right_val power_16 n_def)
  moreover have "heap_cells h3 p = of_nat n" "heap_cells h3 (p + (n + 1)) = of_nat n"
    using r by (simp_all add: h3_def heap_write_def work_def h2_def h1_def)
  then have "same_outside p (2 * (n + 1)) h (bignum_free p (bignum_free (p + (n + 1)) h3))"
    using assms(2) r by (auto simp: same_outside_def bignum_free_pos h3_def heap_write_cell h2_def h1_def
        work_def n_def p_def)
  moreover have "v_bignum_div x y rem h
      = Inr (q, map_option (\<lambda>r. v_bignum_set_bignum r work) rem, bignum_free p (bignum_free (p + (n + 1)) h3))"
  proof -
    have c: "(int my > int mx) = False" "(int my < 0) = False" using X(2) by simp_all
    have s: "v_bignum_set_bignum x q = q" using r(1) by (simp add: v_bignum_set_bignum_same n_def)
    show ?thesis
      by (simp only: v_bignum_div_def Let_def X(1) Y c if_False n_def [symmetric] a rbind_simps prod.case
          q0_def [symmetric] w0_def [symmetric] qw work_def [symmetric] h3_def [symmetric] s)
  qed
  ultimately show ?thesis using r by (auto simp: n_def p_def work_def)
qed

lemma v_bignum_div_zero:
  assumes "bval y = 0"
  shows "v_bignum_div x y rem h = Inr (v_bignum_set_zero x, rem, h)"
proof -
  have "\<not> v_bignum_bit_msb y > v_bignum_bit_msb x"
    using v_bignum_bit_msb_neg [OF assms] by (cases x rule: msb_cases) simp_all
  then show ?thesis using v_bignum_bit_msb_neg [OF assms] by (simp add: v_bignum_div_def)
qed

lemma v_bignum_mod_frame:
  assumes "length y \<le> length x" "length x < 65536" "heap_pos h + (length x + 1) \<le> HEAP_SIZE"
  defines "h1 \<equiv> h \<lparr> heap_cells := (heap_cells h)(heap_pos h := of_nat (length x)),
      heap_pos := heap_pos h + (length x + 1) \<rparr>"
  assumes "v_bignum_div x y (Some (heap_number (heap_pos h) (length x) h1)) h1 = Inr (x1, Some tmp, h2)"
    and "same_outside (heap_pos h + (length x + 1)) k h1 h2" and "length tmp = length x"
    and "length x1 = length x"
  shows "\<exists>h'. v_bignum_mod x y h = Inr (tmp, h') \<and> same_outside (heap_pos h) (k + (length x + 1)) h h'"
proof -
  define p n where "p = heap_pos h" and "n = length x"
  have d: "(if length x > length y then length x else length y) = n" using assms(1) by (simp add: n_def)
  have a: "new_number n h = Inr (p, h1)"
    using assms(3) by (simp add: new_number_room h1_def n_def p_def)
  have "v_bignum_mod x y h = Inr (tmp, bignum_free p (heap_write p tmp h2))"
    unfolding v_bignum_mod_def d Let_def a rbind_simps prod.case
    using assms(5,7,8) by (simp add: n_def p_def v_bignum_set_bignum_same)
  moreover have "heap_cells (heap_write p tmp h2) p = of_nat n"
    using assms(6) by (simp add: heap_write_cell same_outside_def h1_def p_def n_def)
  then have "same_outside p (k + (n + 1)) h (bignum_free p (heap_write p tmp h2))"
    using assms(2,6,7)
    by (auto simp: same_outside_def bignum_free_pos heap_write_cell h1_def p_def n_def)
  ultimately show ?thesis by (auto simp: n_def p_def)
qed

lemma v_bignum_mod_val:
  assumes "length y \<le> length x" "length x < 65536" "bval y \<noteq> 0"
    and "heap_pos h + 3 * (length x + 1) \<le> HEAP_SIZE"
  shows "\<exists>x' h'. v_bignum_mod x y h = Inr (x', h') \<and> length x' = length x
     \<and> bval x' = div_rem (length x) (bval x) (bval y)
     \<and> same_outside (heap_pos h) (3 * (length x + 1)) h h'"
proof -
  define h1 where "h1 = h \<lparr> heap_cells := (heap_cells h)(heap_pos h := of_nat (length x)),
      heap_pos := heap_pos h + (length x + 1) \<rparr>"
  have room: "heap_pos h1 + 2 * (length x + 1) \<le> HEAP_SIZE" using assms(4) by (simp add: h1_def)
  from v_bignum_div_val [OF assms(1-3) room, of "Some (heap_number (heap_pos h) (length x) h1)"]
  obtain x1 work h2 where r: "v_bignum_div x y (Some (heap_number (heap_pos h) (length x) h1)) h1
      = Inr (x1, Some work, h2)" "length x1 = length x" "length work = length x"
      "bval work = div_rem (length x) (bval x) (bval y)"
      "same_outside (heap_pos h1) (2 * (length x + 1)) h1 h2"
    by (auto simp: v_bignum_set_bignum_same)
  have three: "3 * (length x + 1) = 2 * (length x + 1) + (length x + 1)" by simp
  have "heap_pos h1 = heap_pos h + (length x + 1)" by (simp add: h1_def)
  with v_bignum_mod_frame [OF assms(1,2) _ r(1) [unfolded h1_def], of "2 * (length x + 1)"] r assms(4)
  show ?thesis unfolding three by (auto simp: h1_def)
qed

lemma v_bignum_mod_zero:
  assumes "length y \<le> length x" "length x < 65536" "bval y = 0"
    and "heap_pos h + (length x + 1) \<le> HEAP_SIZE"
  shows "\<exists>h'. v_bignum_mod x y h = Inr (heap_number (heap_pos h) (length x) h, h')
     \<and> same_outside (heap_pos h) (length x + 1) h h'"
proof -
  define h1 where "h1 = h \<lparr> heap_cells := (heap_cells h)(heap_pos h := of_nat (length x)),
      heap_pos := heap_pos h + (length x + 1) \<rparr>"
  have e: "heap_number (heap_pos h) (length x) h1 = heap_number (heap_pos h) (length x) h"
    by (simp add: heap_number_def h1_def)
  from v_bignum_mod_frame [OF assms(1,2,4) v_bignum_div_zero [OF assms(3)], of 0] 
  show ?thesis using e by (simp add: h1_def)
qed

section \<open>Properties\<close>

text \<open>C8: division by a non-zero number that is not longer than the dividend succeeds when the heap has
  room for its two temporaries. The quotient is exact. The remainder is the mathematical one except
  when dividend and divisor both have the top bit set and the dividend is the smaller: then the
  top bit of the remainder is lost. The heap pointer is restored and no other cell is written.\<close>

theorem v_bignum_div_correct:
  assumes "length y \<le> length x" "length x < 65536" "bval y \<noteq> 0"
    and "heap_pos h + 2 * (length x + 1) \<le> HEAP_SIZE"
  shows "\<exists>x' work h'. v_bignum_div x y rem h
        = Inr (x', map_option (\<lambda>r. v_bignum_set_bignum r work) rem, h')
     \<and> length x' = length x \<and> bval x' = bval x div bval y
     \<and> length work = length x
     \<and> bval work = (if 2 ^ (16 * length x - 1) \<le> bval x \<and> bval x < bval y
                     then bval x - 2 ^ (16 * length x - 1) else bval x mod bval y)
     \<and> same_outside (heap_pos h) (2 * (length x + 1)) h h'"
  using v_bignum_div_val [OF assms] by (simp add: div_rem_def)

theorem v_bignum_div_correct_witness:
  "\<exists>x' work h'. v_bignum_div [7, 1] [2, 0] None empty_heap = Inr (x', None, h') \<and> bval x' = 32771
     \<and> bval work = 1"
  using v_bignum_div_correct [of "[2, 0]" "[7, 1]" empty_heap None]
  by (auto simp: empty_heap_def HEAP_SIZE_def)

end
