(* ===== verification/Bignum_Text.thy ===== *)
theory Bignum_Text
  imports Bignum_Div
begin

text \<open>
  The conversions of \<^verbatim>\<open>target-ppdl/v_bignum.c\<close> between big numbers and the other
  representations: hexadecimal and decimal text, raw big-endian bytes, and the machine's
  registers, which are four 64-bit cells with the bytes of each cell in reverse order.

  A C string is the list of its characters without the terminating zero; the character
  classes are those of the C locale.
\<close>

section \<open>Characters\<close>

abbreviation code_of :: "char \<Rightarrow> nat" where
  "code_of c \<equiv> of_char c"

definition isdigit :: "char \<Rightarrow> bool" where
  "isdigit c = (48 \<le> code_of c \<and> code_of c \<le> 57)"

definition isxdigit :: "char \<Rightarrow> bool" where
  "isxdigit c = (isdigit c \<or> 65 \<le> code_of c \<and> code_of c \<le> 70 \<or> 97 \<le> code_of c \<and> code_of c \<le> 102)"

definition tolower :: "char \<Rightarrow> nat" where
  "tolower c = (if 65 \<le> code_of c \<and> code_of c \<le> 90 then code_of c + 32 else code_of c)"

text \<open>The digits that the conversions \<^verbatim>\<open>%x\<close> and \<^verbatim>\<open>%X\<close> of \<^verbatim>\<open>printf\<close> write.\<close>

definition hex_char :: "nat \<Rightarrow> char" where
  "hex_char n = (if n < 10 then char_of (48 + n) else char_of (87 + n))"

definition HEX_char :: "nat \<Rightarrow> char" where
  "HEX_char n = (if n < 10 then char_of (48 + n) else char_of (55 + n))"

definition fmt_02x :: "nat \<Rightarrow> string" where
  "fmt_02x b = [hex_char (b div 16 mod 16), hex_char (b mod 16)]"

definition fmt_04 :: "(nat \<Rightarrow> char) \<Rightarrow> u16 \<Rightarrow> string" where
  "fmt_04 dig d = map (\<lambda>k. dig (unat d div 16 ^ k mod 16)) [3, 2, 1, 0]"

fun fmt_x :: "nat \<Rightarrow> string" where
  "fmt_x n = (if n < 16 then [hex_char n] else fmt_x (n div 16) @ [hex_char (n mod 16)])"

section \<open>Text to number\<close>

definition hex_digit :: "char \<Rightarrow> u32" where
  "hex_digit c =
     (let d = of_nat (tolower c) - 48 :: u32;
          d = (if d > 9 then d - ((97 - 48) - 10) else d)
      in d AND 0xF)"

fun set_string_hex_loop :: "vbig \<Rightarrow> string \<Rightarrow> vbig" where
  "set_string_hex_loop x [] = x"
| "set_string_hex_loop x (c # cs) =
     (if isxdigit c then
        let x1 = v_bignum_bit_shift_left x 4
        in set_string_hex_loop (x1[0 := ucast (ucast (x1 ! 0) OR hex_digit c)]) cs
      else x)"

definition skip_0x :: "string \<Rightarrow> string" where
  "skip_0x s = (if length s \<ge> 2 \<and> s ! 0 = CHR ''0'' \<and> (s ! 1 = CHR ''x'' \<or> s ! 1 = CHR ''X'')
                then drop 2 s else s)"

definition v_bignum_set_string_hex :: "vbig \<Rightarrow> string \<Rightarrow> vbig" where
  "v_bignum_set_string_hex x s = set_string_hex_loop (v_bignum_set_zero x) (skip_0x s)"

fun set_string_loop :: "vbig \<Rightarrow> string \<Rightarrow> vbig" where
  "set_string_loop x [] = x"
| "set_string_loop x (c # cs) =
     (if isdigit c then
        set_string_loop (v_bignum_add_digit (v_bignum_mul_digit x 10) (of_nat (code_of c - 48))) cs
      else x)"

definition v_bignum_set_string :: "vbig \<Rightarrow> string \<Rightarrow> vbig" where
  "v_bignum_set_string x s = set_string_loop (v_bignum_set_zero x) s"

section \<open>Number to text\<close>

definition v_bignum_sprint_hex :: "string \<Rightarrow> vbig \<Rightarrow> string" where
  "v_bignum_sprint_hex s x = s @ concat (map (fmt_04 hex_char) (rev x))"

definition v_bignum_print_hex :: "vbig \<Rightarrow> string" where
  "v_bignum_print_hex x = ''0x'' @ concat (map (fmt_04 HEX_char) (rev x))"

definition v_bignum_print_hex_lf :: "vbig \<Rightarrow> string" where
  "v_bignum_print_hex_lf x = v_bignum_print_hex x @ [char_of (10 :: nat)]"

section \<open>Raw bytes\<close>

fun import_pairs :: "nat \<Rightarrow> u8 list \<Rightarrow> vbig" where
  "import_pairs (Suc n) (b # c # bs) = (push_bit 8 (ucast b) OR ucast c) # import_pairs n bs"
| "import_pairs _ _ = []"

definition v_bignum_raw_import :: "vbig \<Rightarrow> u8 list \<Rightarrow> vbig run" where
  "v_bignum_raw_import x bytes =
     (if length bytes < 2 * length x then Inl OutOfBounds
      else Inr (rev (import_pairs (length x) bytes)))"

definition v_bignum_raw_export :: "vbig \<Rightarrow> u8 list" where
  "v_bignum_raw_export x = concat (map (\<lambda>d. [ucast (drop_bit 8 d), ucast d]) (rev x))"

section \<open>Registers\<close>

definition BLOCK_SIZE :: nat where
  "BLOCK_SIZE = 4"

type_synonym reg = "nat \<Rightarrow> u64"

definition block_string :: "u64 \<Rightarrow> string" where
  "block_string r = concat (map (\<lambda>j. fmt_02x (unat (drop_bit (8 * j) r AND 0xff))) [0..<8])"

definition reg_string :: "reg \<Rightarrow> string" where
  "reg_string r = ''0x'' @ concat (map (\<lambda>i. block_string (r i)) (rev [0..<BLOCK_SIZE]))"

definition v_bignum_reg_to_bignum :: "reg \<Rightarrow> bheap \<Rightarrow> (vbig \<times> bheap) run" where
  "v_bignum_reg_to_bignum r h =
     rbind (new_number 64 h) (\<lambda>(p, h1).
       let x = v_bignum_set_string_hex (heap_number p 64 h1) (reg_string r)
       in Inr (x, heap_write p x h1))"

text \<open>
  \<^verbatim>\<open>strtoull(s, NULL, 16)\<close> on a text of at most sixteen hexadecimal digits; the texts of
  \<^verbatim>\<open>v_bignum_bignum_to_reg\<close> have no sign, blank or prefix.
\<close>

definition strtoull16 :: "string \<Rightarrow> u64" where
  "strtoull16 s = foldl (\<lambda>a c. a * 16 + ucast (hex_digit c)) 0 (takeWhile isxdigit s)"

definition part_string :: "string \<Rightarrow> nat \<Rightarrow> string" where
  "part_string ds i = concat (map (\<lambda>j. take 2 (drop (64 - 16 * i - j) ds)) [0, 2, 4, 6, 8, 10, 12, 14])"

definition v_bignum_bignum_to_reg :: "vbig \<Rightarrow> u64 list run" where
  "v_bignum_bignum_to_reg x =
     (let digit_string = v_bignum_sprint_hex ''0x'' x in
      if length digit_string + 1 > 67 then Inl OutOfBounds
      else Inr (map (\<lambda>i. strtoull16 (part_string digit_string i)) [0..<BLOCK_SIZE]))"

text \<open>
  The byte reversal that \<^verbatim>\<open>target-ppdl/functions.c\<close> writes out wherever a cell of the stack
  becomes a number, and the number that a register stands for.
\<close>

primrec bswap64_loop :: "u64 \<Rightarrow> nat \<Rightarrow> u64" where
  "bswap64_loop r 0 = 0"
| "bswap64_loop r (Suc i) = bswap64_loop r i OR push_bit (8 * (7 - i)) (drop_bit (8 * i) r AND 0xff)"

definition bswap64 :: "u64 \<Rightarrow> u64" where
  "bswap64 r = bswap64_loop r 8"

definition byte_of :: "u64 \<Rightarrow> nat \<Rightarrow> nat" where
  "byte_of r j = unat (drop_bit (8 * j) r AND 0xff)"

definition reg_val :: "reg \<Rightarrow> nat" where
  "reg_val r = (\<Sum>i<4. unat (bswap64 (r i)) * 2 ^ (64 * i))"

definition limb :: "nat \<Rightarrow> nat \<Rightarrow> u64" where
  "limb V i = bswap64 (of_nat (V div 2 ^ (64 * i)))"

definition hex_val :: "string \<Rightarrow> nat" where
  "hex_val s = foldl (\<lambda>a c. 16 * a + unat (hex_digit c)) 0 s"

definition dec_val :: "string \<Rightarrow> nat" where
  "dec_val s = foldl (\<lambda>a c. 10 * a + (code_of c - 48)) 0 s"

section \<open>Values of texts\<close>

lemma low_nibble: "unat (d AND 0xF :: u32) = unat d mod 16"
proof -
  have "d AND 0xF = take_bit 4 d" by (simp add: take_bit_eq_mask mask_eq_decr_exp)
  then have "unat (d AND 0xF) = take_bit 4 (unat d)" by (simp only: unsigned_take_bit_eq)
  then show ?thesis by (simp add: take_bit_eq_mod)
qed

lemma hex_digit_lt: "unat (hex_digit c) < 16"
  by (simp add: hex_digit_def Let_def low_nibble)

lemma hex_digit_of_code:
  assumes "tolower c = 48 + n" and "n < 10 \<or> 49 \<le> n \<and> n < 55"
  shows "unat (hex_digit c) = (if n < 10 then n else n - 39)"
proof -
  have d: "of_nat (tolower c) - 48 = (of_nat n :: u32)" by (simp add: assms(1))
  have u: "unat (of_nat n :: u32) = n" using assms(2) by (auto simp: unat_of_nat)
  have g: "(9 :: u32) < of_nat n \<longleftrightarrow> 9 < n" by (simp add: word_less_nat_alt u)
  have s: "9 < n \<Longrightarrow> unat (of_nat n - 39 :: u32) = n - 39"
    using assms(2) u by (subst unat_sub) (simp_all add: word_le_nat_alt)
  show ?thesis
    unfolding hex_digit_def d Let_def g low_nibble using assms(2) u s by auto
qed

lemma hex_char_code:
  "n < 16 \<Longrightarrow> code_of (hex_char n) = (if n < 10 then 48 + n else 87 + n)"
  "n < 16 \<Longrightarrow> code_of (HEX_char n) = (if n < 10 then 48 + n else 55 + n)"
  by (simp_all add: hex_char_def HEX_char_def)

lemma hex_char_simps [simp]:
  assumes "n < 16"
  shows "isxdigit (hex_char n)" "unat (hex_digit (hex_char n)) = n"
    "isxdigit (HEX_char n)" "unat (hex_digit (HEX_char n)) = n"
proof -
  show "isxdigit (hex_char n)" "isxdigit (HEX_char n)"
    using assms by (auto simp: isxdigit_def isdigit_def hex_char_code)
  have "tolower (hex_char n) = 48 + (if n < 10 then n else 39 + n)"
       "tolower (HEX_char n) = 48 + (if n < 10 then n else 39 + n)"
    using assms by (auto simp: tolower_def hex_char_code)
  from this [THEN hex_digit_of_code]
  show "unat (hex_digit (hex_char n)) = n" "unat (hex_digit (HEX_char n)) = n"
    using assms by (auto split: if_splits)
qed

lemma set_string_hex_loop_len [bn_len, simp]: "length (set_string_hex_loop x s) = length x"
  by (induction x s rule: set_string_hex_loop.induct) (simp_all add: Let_def)

lemma hex_val_Nil [simp]: "hex_val [] = 0"
  by (simp add: hex_val_def)

lemma hex_val_fold:
  "foldl (\<lambda>a c. 16 * a + unat (hex_digit c)) a s = a * 16 ^ length s + hex_val s"
proof (induction s arbitrary: a)
  case (Cons c s)
  show ?case using Cons [of "16 * a + unat (hex_digit c)"] Cons [of "unat (hex_digit c)"]
    by (simp add: hex_val_def algebra_simps)
qed (simp add: hex_val_def)

lemma hex_val_Cons [simp]: "hex_val (c # s) = unat (hex_digit c) * 16 ^ length s + hex_val s"
  using hex_val_fold [of "unat (hex_digit c)" s] by (simp add: hex_val_def)

lemma hex_val_append: "hex_val (s @ t) = hex_val s * 16 ^ length t + hex_val t"
  by (induction s) (simp_all add: power_add distrib_right)

lemma hex_val_bound: "hex_val s < 16 ^ length s"
proof (induction s)
  case (Cons c s)
  have "(unat (hex_digit c) + 1) * 16 ^ length s \<le> 16 * 16 ^ length s"
    using hex_digit_lt [of c] by (intro mult_le_mono1) simp
  then have "unat (hex_digit c) * 16 ^ length s + 16 ^ length s \<le> 16 * 16 ^ length s"
    by (simp only: distrib_right mult_1)
  then have "unat (hex_digit c) * 16 ^ length s + hex_val s < 16 * 16 ^ length s"
    using Cons by linarith
  then show ?case by simp
qed simp

lemma or_low_digit:
  assumes "x \<noteq> []" and "unat d < 16" and "bval x mod 16 = 0"
  shows "bval (x[0 := ucast (ucast (x ! 0) OR (d :: u32))]) = bval x + unat d"
proof -
  obtain e es where x: "x = e # es" using assms(1) by (cases x) auto
  have "unat e mod 16 = 0"
  proof -
    have "bval x mod 16 = unat e mod 16" using mod_mult_self2 [of "unat e" 16 "4096 * bval es"] by (simp add: x)
    with assms(3) show ?thesis by simp
  qed
  then have e: "unat (ucast e :: u32) = (unat e div 16) * 2 ^ 4" by auto
  have "unat (d OR ucast e) = unat d + unat (ucast e :: u32)"
    by (rule unat_or_high [OF _ e]) (use assms(2) in simp)
  moreover have "unat e div 16 < 4096" using unat_lt16 [of e] by simp
  then have "unat e + unat d < 65536" using e assms(2) by simp
  ultimately have "unat (ucast (ucast e OR d) :: u16) = unat e + unat d"
    by (simp add: unat_ucast_mod or.commute [of "ucast e" d])
  then show ?thesis by (simp add: x)
qed

lemma set_string_hex_loop_val:
  "x \<noteq> [] \<Longrightarrow> bval (set_string_hex_loop x s)
     = (bval x * 16 ^ length (takeWhile isxdigit s) + hex_val (takeWhile isxdigit s)) mod 65536 ^ length x"
proof (induction x s rule: set_string_hex_loop.induct)
  case (2 x c cs)
  show ?case
  proof (cases "isxdigit c")
    case True
    define x1 where "x1 = v_bignum_bit_shift_left x 4"
    define x2 where "x2 = x1[0 := ucast (ucast (x1 ! 0) OR hex_digit c)]"
    define P :: nat where "P = 65536 ^ length x"
    have x1: "bval x1 = bval x * 16 mod P" "x1 \<noteq> []" "length x1 = length x"
      using 2 by (auto simp: x1_def v_bignum_bit_shift_left_val P_def simp flip: length_greater_0_conv)
    have "16 dvd P" using 2 by (cases x) (auto simp: P_def)
    then have "bval x1 mod 16 = 0" using x1(1) by (metis dvd_mod dvd_triv_right dvd_imp_mod_0)
    then have x2: "bval x2 = bval x * 16 mod P + unat (hex_digit c)"
      using or_low_digit [OF x1(2) hex_digit_lt [of c]] x1(1) by (simp add: x2_def)
    have "set_string_hex_loop x (c # cs) = set_string_hex_loop x2 cs"
      using True by (simp add: Let_def x1_def [symmetric] x2_def [symmetric])
    moreover have "x2 \<noteq> []" "length x2 = length x" using x1 by (auto simp: x2_def)
    moreover define k where "k = (16::nat) ^ length (takeWhile isxdigit cs)"
    have "((bval x * 16 mod P + unat (hex_digit c)) * k + V) mod P
        = ((bval x * 16 + unat (hex_digit c)) * k + V) mod P" for V
      by (intro mod_add_cong mod_mult_cong refl) simp
    ultimately show ?thesis
      using 2(1) [OF True x1_def, folded x2_def] x2 True
      by (simp add: P_def k_def distrib_right mult.assoc add.assoc)
  qed (use mod_less [OF bval_bound] in simp)
qed (use mod_less [OF bval_bound] in simp)

text \<open>Texts made of hexadecimal digits are read back completely.\<close>

lemma takeWhile_hex: "list_all isxdigit s \<Longrightarrow> takeWhile isxdigit s = s"
  by (induction s) simp_all

lemma skip_0x_simp [simp]: "skip_0x (CHR ''0'' # CHR ''x'' # s) = s"
  by (simp add: skip_0x_def)

lemma v_bignum_set_string_hex_len [bn_len, simp]: "length (v_bignum_set_string_hex x s) = length x"
  by (simp add: v_bignum_set_string_hex_def)

lemma v_bignum_set_string_hex_val [bn_val]:
  assumes "x \<noteq> []"
  shows "bval (v_bignum_set_string_hex x s) = hex_val (takeWhile isxdigit (skip_0x s)) mod 65536 ^ length x"
proof -
  have "v_bignum_set_zero x \<noteq> []" using assms by (simp flip: length_greater_0_conv)
  from set_string_hex_loop_val [OF this] show ?thesis
    by (simp add: v_bignum_set_string_hex_def v_bignum_set_zero_val)
qed

lemma digit_nibbles: "n div 4096 * 4096 + (n div 256 mod 16 * 256
    + (n div 16 mod 16 * 16 + n mod 16)) = (n :: nat)"
proof -
  have e: "n div 16 div 16 = n div 256" "n div 256 div 16 = n div 4096" by (simp_all flip: div_mult2_eq)
  show ?thesis
    using mult_div_mod_eq [of 16 n] mult_div_mod_eq [of 16 "n div 16", unfolded e]
      mult_div_mod_eq [of 16 "n div 256", unfolded e] by linarith
qed

lemma fmt_04_props:
  assumes "dig = hex_char \<or> dig = HEX_char"
  shows "length (fmt_04 dig d) = 4" "list_all isxdigit (fmt_04 dig d)" "hex_val (fmt_04 dig d) = unat d"
proof -
  have "unat d div 4096 < 16" using unat_lt16 [of d] by (simp add: less_mult_imp_div_less)
  then show "length (fmt_04 dig d) = 4" "list_all isxdigit (fmt_04 dig d)" "hex_val (fmt_04 dig d) = unat d"
    using assms digit_nibbles [of "unat d"] by (auto simp: fmt_04_def)
qed

lemma fmt_02x_props:
  assumes "b < 256"
  shows "length (fmt_02x b) = 2" "list_all isxdigit (fmt_02x b)" "hex_val (fmt_02x b) = b"
  using assms by (simp_all add: fmt_02x_def less_mult_imp_div_less)

lemma digits_text:
  assumes "dig = hex_char \<or> dig = HEX_char"
  defines "s \<equiv> \<lambda>x. concat (map (fmt_04 dig) (rev x))"
  shows "length (s x) = 4 * length x" "list_all isxdigit (s x)" "hex_val (s x) = bval x"
proof -
  note p = fmt_04_props [OF assms(1)]
  show "length (s x) = 4 * length x" "list_all isxdigit (s x)" unfolding s_def
    by (induction x) (simp_all add: p)
  show "hex_val (s x) = bval x" unfolding s_def
    by (induction x) (simp_all add: hex_val_append p)
qed

lemma set_string_hex_print:
  assumes "dig = hex_char \<or> dig = HEX_char" "length x = length y"
  shows "v_bignum_set_string_hex x (''0x'' @ concat (map (fmt_04 dig) (rev y))) = y"
proof (cases x)
  case (Cons d ds)
  then have "bval (v_bignum_set_string_hex x (''0x'' @ concat (map (fmt_04 dig) (rev y)))) = bval y"
    using digits_text [OF assms(1), of y] bval_bound [of y] assms(2)
    by (simp add: v_bignum_set_string_hex_val takeWhile_hex)
  then show ?thesis using assms(2) by (simp add: bval_inj)
next
  case Nil
  then have "v_bignum_set_string_hex x s = []" for s
    by (metis length_0_conv v_bignum_set_string_hex_len)
  then show ?thesis using Nil assms(2) by (simp only:) simp
qed


lemma low_byte64: "unat (d AND 0xff :: u64) = unat d mod 256"
proof -
  have "d AND 0xff = take_bit 8 d" by (simp add: take_bit_eq_mask mask_eq_decr_exp)
  then have "unat (d AND 0xff) = take_bit 8 (unat d)" by (simp only: unsigned_take_bit_eq)
  then show ?thesis by (simp add: take_bit_eq_mod)
qed

lemma byte_of_val: "byte_of r j = unat r div 256 ^ j mod 256"
  by (simp add: byte_of_def low_byte64 power_mult)

lemma byte_of_lt [simp]: "byte_of r j < 256"
  by (simp add: byte_of_val)

lemma bytes_text:
  "length (concat (map (\<lambda>j. fmt_02x (byte_of r j)) [0..<i])) = 2 * i"
  "list_all isxdigit (concat (map (\<lambda>j. fmt_02x (byte_of r j)) [0..<i]))"
  by (induction i) (simp_all add: fmt_02x_props)

lemma bswap64_loop_val:
  "i \<le> 8 \<Longrightarrow> unat (bswap64_loop r i)
     = hex_val (concat (map (\<lambda>j. fmt_02x (byte_of r j)) [0..<i])) * 2 ^ (8 * (8 - i))"
proof (induction i)
  case (Suc i)
  define V where "V = hex_val (concat (map (\<lambda>j. fmt_02x (byte_of r j)) [0..<i]))"
  define t where "t = push_bit (8 * (7 - i)) (drop_bit (8 * i) r AND 0xff)"
  define K :: nat where "K = 2 ^ (8 * (7 - i))"
  have e: "8 * (8 - i) = 8 + 8 * (7 - i)" using Suc.prems by simp
  have K: "2 ^ (8 * (8 - i)) = 256 * K" unfolding e power_add K_def by simp
  have "K \<le> 2 ^ 56" unfolding K_def by (intro power_increasing) simp_all
  have b: "byte_of r i * K < 256 * K" by (simp add: K_def)
  have t: "unat t = byte_of r i * K"
  proof -
    have "byte_of r i * K < 256 * 2 ^ 56" using b \<open>K \<le> 2 ^ 56\<close> by linarith
    then have "byte_of r i * K < 2 ^ LENGTH(64)" by simp
    then show ?thesis
      unfolding t_def unat_push_bit byte_of_def [symmetric] K_def [symmetric] by (rule mod_less)
  qed
  have "unat (t OR bswap64_loop r i) = unat t + unat (bswap64_loop r i)"
    by (rule unat_or_high [of _ "8 * (8 - i)" _ V]) (use Suc b t in \<open>simp_all add: K V_def\<close>)
  moreover have "bswap64_loop r (Suc i) = t OR bswap64_loop r i"
    by (simp add: t_def or.commute)
  moreover have "hex_val (concat (map (\<lambda>j. fmt_02x (byte_of r j)) [0..<Suc i])) = V * 256 + byte_of r i"
    by (simp add: hex_val_append fmt_02x_props V_def)
  ultimately show ?case using Suc by (simp add: t K V_def [symmetric] K_def [symmetric] distrib_right)
qed simp

lemma block_string_props:
  "length (block_string r) = 16" "list_all isxdigit (block_string r)"
  "hex_val (block_string r) = unat (bswap64 r)"
  using bytes_text [of r 8] bswap64_loop_val [of 8 r]
  by (simp_all add: block_string_def byte_of_def bswap64_def)

lemma sum_upto_4: "(\<Sum>i<4. f i) = f 0 + f 1 + f 2 + f (3::nat)"
  by (simp add: eval_nat_numeral)

lemma reg_string_props:
  "list_all isxdigit (skip_0x (reg_string r))" "hex_val (skip_0x (reg_string r)) = reg_val r"
proof -
  have s: "skip_0x (reg_string r) = block_string (r 3) @ block_string (r 2) @ block_string (r 1) @ block_string (r 0)"
    by (simp add: reg_string_def BLOCK_SIZE_def upt_rec numeral_3_eq_3 numeral_2_eq_2)
  show "list_all isxdigit (skip_0x (reg_string r))" by (simp add: s block_string_props)
  show "hex_val (skip_0x (reg_string r)) = reg_val r"
    by (simp add: s hex_val_append block_string_props reg_val_def sum_upto_4)
qed

section \<open>Registers and numbers\<close>

lemma hex_val_take: "n \<le> length s \<Longrightarrow> hex_val (take n s) = hex_val s div 16 ^ (length s - n)"
proof -
  assume "n \<le> length s"
  then have "hex_val s = hex_val (take n s) * 16 ^ (length s - n) + hex_val (drop n s)"
    using hex_val_append [of "take n s" "drop n s"] by simp
  moreover have "hex_val (drop n s) < 16 ^ (length s - n)" using hex_val_bound [of "drop n s"] by simp
  ultimately show ?thesis by simp
qed

lemma hex_val_drop: "n \<le> length s \<Longrightarrow> hex_val (drop n s) = hex_val s mod 16 ^ (length s - n)"
proof -
  assume "n \<le> length s"
  then have "hex_val s = hex_val (take n s) * 16 ^ (length s - n) + hex_val (drop n s)"
    using hex_val_append [of "take n s" "drop n s"] by simp
  moreover have "hex_val (drop n s) < 16 ^ (length s - n)" using hex_val_bound [of "drop n s"] by simp
  ultimately show ?thesis by simp
qed

lemma hex_val_slice:
  assumes "p + 2 \<le> length s"
  shows "hex_val (take 2 (drop p s)) = hex_val s div 16 ^ (length s - p - 2) mod 256"
proof -
  define k where "k = length s - p - 2"
  have k: "length s - p = k + 2" using assms by (simp add: k_def)
  have "hex_val (take 2 (drop p s)) = hex_val s mod 16 ^ (k + 2) div 16 ^ k"
    using assms k by (simp add: hex_val_take hex_val_drop)
  also have "\<dots> = hex_val s div 16 ^ k mod 256"
    by (simp add: power_add mod_mult2_eq mult.commute)
  finally show ?thesis by (simp add: k_def)
qed

lemma hex_val_concat_cong:
  "(\<And>j. j \<in> set js \<Longrightarrow> length (f j) = length (g j) \<and> hex_val (f j) = hex_val (g j)) \<Longrightarrow>
   hex_val (concat (map f js)) = hex_val (concat (map g js))
   \<and> length (concat (map f js)) = length (concat (map g js))"
  by (induction js) (simp_all add: hex_val_append)

lemma strtoull16_val: "list_all isxdigit s \<Longrightarrow> strtoull16 s = of_nat (hex_val s)"
proof -
  have f: "foldl (\<lambda>a c. a * 16 + ucast (hex_digit c)) (of_nat a) s
      = (of_nat (foldl (\<lambda>a c. 16 * a + unat (hex_digit c)) a s) :: u64)" for a
  proof (induction s arbitrary: a)
    case (Cons c s)
    have "of_nat a * 16 + ucast (hex_digit c) = (of_nat (16 * a + unat (hex_digit c)) :: u64)"
      by (simp add: mult.commute)
    then show ?case using Cons by (simp only: foldl_Cons)
  qed simp
  assume "list_all isxdigit s"
  then show ?thesis using f [of 0] by (simp add: strtoull16_def takeWhile_hex hex_val_def)
qed

lemma byte_of_limb:
  "j < 8 \<Longrightarrow> byte_of (of_nat (V div 2 ^ (64 * i))) j = V div 256 ^ (8 * i + j) mod 256"
proof -
  assume "j < 8"
  define k where "k = 7 - j"
  have "64 = 8 * j + (8 + 8 * k)" using \<open>j < 8\<close> by (simp add: k_def)
  then have e: "(2::nat) ^ 64 = 256 ^ j * (256 * 256 ^ k)"
    by (simp only: power_add power_mult) simp
  have "unat (of_nat (V div 2 ^ (64 * i)) :: u64) div 256 ^ j mod 256
      = V div 2 ^ (64 * i) mod 2 ^ 64 div 256 ^ j mod 256" by (simp add: unat_of_nat)
  also have "\<dots> = V div 2 ^ (64 * i) div 256 ^ j mod 256"
    unfolding e mod_mult2_eq by (simp add: mod_mult2_eq)
  also have "\<dots> = V div 256 ^ (8 * i + j) mod 256"
    by (simp add: power_add power_mult div_mult2_eq)
  finally show ?thesis by (simp only: byte_of_val)
qed

lemma part_string_val:
  assumes "length x = 16" and "i < 4"
  defines "ds \<equiv> v_bignum_sprint_hex ''0x'' x"
  shows "strtoull16 (part_string ds i) = limb (bval x) i"
proof -
  define D where "D = concat (map (fmt_04 hex_char) (rev x))"
  have D: "length D = 64" "list_all isxdigit D" "hex_val D = bval x"
    using digits_text [of hex_char x] assms(1) by (simp_all add: D_def)
  have ds: "ds = ''0x'' @ D" by (simp add: ds_def v_bignum_sprint_hex_def D_def)
  define f where "f = (\<lambda>k. take 2 (drop (62 - 16 * i - 2 * k) D))"
  define w where "w = (of_nat (bval x div 2 ^ (64 * i)) :: u64)"
  have p: "part_string ds i = concat (map f [0..<8])"
  proof -
    have l: "[0, 2, 4, 6, 8, 10, 12, 14] = map (\<lambda>k. 2 * k) [0..<8::nat]" by code_simp
    have "take 2 (drop (64 - 16 * i - 2 * k) ds) = f k" if "k < 8" for k
    proof -
      have "64 - 16 * i - 2 * k = Suc (Suc (62 - 16 * i - 2 * k))" using that assms(2) by simp
      then show ?thesis by (simp add: ds f_def)
    qed
    then have "map (\<lambda>k. take 2 (drop (64 - 16 * i - 2 * k) ds)) [0..<8] = map f [0..<8]"
      by (intro map_cong) simp_all
    then show ?thesis unfolding part_string_def l by (simp only: map_map comp_def)
  qed
  have "hex_val (concat (map f [0..<8])) = hex_val (concat (map (\<lambda>j. fmt_02x (byte_of w j)) [0..<8]))"
  proof (rule hex_val_concat_cong [THEN conjunct1])
    fix j assume "j \<in> set [0..<8]"
    then have j: "62 - 16 * i - 2 * j + 2 \<le> length D" "j < 8" "64 - (62 - 16 * i - 2 * j) - 2 = 2 * (8 * i + j)"
      using assms(2) D(1) by auto
    have "hex_val (f j) = bval x div 16 ^ (2 * (8 * i + j)) mod 256"
      unfolding f_def hex_val_slice [OF j(1)] D using j(3) by simp
    moreover have "byte_of w j = bval x div 16 ^ (2 * (8 * i + j)) mod 256"
      unfolding w_def byte_of_limb [OF j(2)] power_mult [of _ 2] by simp
    ultimately show "length (f j) = length (fmt_02x (byte_of w j)) \<and> hex_val (f j) = hex_val (fmt_02x (byte_of w j))"
      using j(1) by (simp add: fmt_02x_props f_def)
  qed
  moreover have "list_all isxdigit (part_string ds i)"
    unfolding p using D(2) by (auto simp: f_def list_all_iff dest!: in_set_takeD in_set_dropD)
  moreover have "hex_val (concat (map (\<lambda>j. fmt_02x (byte_of w j)) [0..<8])) = unat (bswap64 w)"
    using bswap64_loop_val [of 8 w] by (simp add: bswap64_def)
  ultimately show ?thesis by (simp add: strtoull16_val p limb_def w_def)
qed

lemma v_bignum_bignum_to_reg_val [bn_val]:
  assumes "length x = 16"
  shows "v_bignum_bignum_to_reg x = Inr (map (limb (bval x)) [0..<4])"
proof -
  have "length (v_bignum_sprint_hex ''0x'' x) = 66"
    using digits_text(1) [of hex_char x] assms by (simp add: v_bignum_sprint_hex_def)
  then show ?thesis
    using part_string_val [OF assms] by (simp add: v_bignum_bignum_to_reg_def Let_def BLOCK_SIZE_def)
qed


lemma and_0xff: "(d :: u64) AND 0xff = take_bit 8 d"
  by (simp add: take_bit_eq_mask mask_eq_decr_exp)

lemma bit_bswap64_loop:
  "k \<le> 8 \<Longrightarrow> bit (bswap64_loop r k) n \<longleftrightarrow>
     (\<exists>i<k. 8 * (7 - i) \<le> n \<and> n < 8 * (7 - i) + 8 \<and> bit r (8 * i + (n - 8 * (7 - i))))"
proof (induction k)
  case (Suc k)
  have "bit (push_bit (8 * (7 - k)) (drop_bit (8 * k) r AND 0xff)) n \<longleftrightarrow>
      8 * (7 - k) \<le> n \<and> n < 8 * (7 - k) + 8 \<and> bit r (8 * k + (n - 8 * (7 - k)))"
    using Suc.prems by (auto simp: and_0xff bit_push_bit_iff bit_take_bit_iff bit_drop_bit_eq)
  with Suc show ?case by (auto simp: bit_or_iff less_Suc_eq)
qed simp

lemma bit_bswap64: "n < 64 \<Longrightarrow> bit (bswap64 r) n \<longleftrightarrow> bit r (8 * (7 - n div 8) + n mod 8)"
proof -
  assume n: "n < 64"
  have u: "i = 7 - n div 8" if "i < 8" "8 * (7 - i) \<le> n" "n < 8 * (7 - i) + 8" for i
  proof -
    have "n div 8 = 7 - i" using that by (intro div_nat_eqI) simp_all
    with that show ?thesis by simp
  qed
  have d: "n div 8 \<le> 7" using n by simp
  have e: "7 - n div 8 < 8" "8 * (7 - (7 - n div 8)) \<le> n" "n < 8 * (7 - (7 - n div 8)) + 8"
    "n - 8 * (7 - (7 - n div 8)) = n mod 8"
    using d by (simp_all add: minus_mult_div_eq_mod)
  show ?thesis unfolding bswap64_def bit_bswap64_loop [OF order_refl]
    using e(1,2,3) u unfolding e(4) [symmetric] by blast
qed

lemma bswap64_bswap64 [simp]: "bswap64 (bswap64 r) = r"
proof (rule bit_eqI)
  fix n assume "possible_bit TYPE(u64) n"
  then have n: "n < 64" by simp
  define m where "m = 8 * (7 - n div 8) + n mod 8"
  have d: "n div 8 \<le> 7" using n by simp
  have m: "m < 64" "m div 8 = 7 - n div 8" "m mod 8 = n mod 8" by (simp_all add: m_def)
  have "8 * (7 - m div 8) + m mod 8 = n" using d by (simp add: m)
  then show "bit (bswap64 (bswap64 r)) n = bit r n"
    using bit_bswap64 [OF n, of "bswap64 r"] bit_bswap64 [OF m(1), of r] by (simp add: m_def [symmetric])
qed


lemma reg_val_limb: "V < 2 ^ 256 \<Longrightarrow> reg_val (limb V) = V"
proof -
  assume V: "V < 2 ^ 256"
  define B :: nat where "B = 2 ^ 64"
  have p: "(2::nat) ^ (64 * i) = B ^ i" for i by (simp add: B_def power_mult)
  have l: "unat (bswap64 (limb V i)) = V div B ^ i mod B" for i
    by (simp add: limb_def unat_of_nat p) (simp add: B_def)
  have "V = V mod B + B * (V div B mod B + B * (V div B ^ 2 mod B + B * (V div B ^ 3)))"
    using mult_div_mod_eq [of B V] mult_div_mod_eq [of B "V div B"] mult_div_mod_eq [of B "V div B ^ 2"]
    by (simp add: power2_eq_square power3_eq_cube div_mult2_eq)
  moreover have "V div B ^ 3 mod B = V div B ^ 3"
    using V by (intro mod_less less_mult_imp_div_less) (simp add: B_def)
  moreover have "reg_val (limb V) = (\<Sum>i<4. (V div B ^ i mod B) * B ^ i)" by (simp only: reg_val_def l p)
  ultimately show "reg_val (limb V) = V"
    by (simp add: sum_upto_4 power2_eq_square power3_eq_cube distrib_left ac_simps)
qed

lemma reg_val_bound: "reg_val r < 2 ^ 256"
  using unat_lt64 [of "bswap64 (r 0)"] unat_lt64 [of "bswap64 (r 1)"] unat_lt64 [of "bswap64 (r 2)"]
    unat_lt64 [of "bswap64 (r 3)"]
  by (simp add: reg_val_def sum_upto_4)

lemma limb_reg_val: "i < 4 \<Longrightarrow> limb (reg_val r) i = r i"
proof -
  assume i: "i < 4"
  define B :: nat where "B = 2 ^ 64"
  define b where "b i = unat (bswap64 (r i))" for i
  have p: "(2::nat) ^ (64 * i) = B ^ i" for i by (simp add: B_def power_mult)
  have lt: "b i < B" for i using unat_lt64 [of "bswap64 (r i)"] by (simp add: b_def B_def)
  have "reg_val r = (\<Sum>i<4. b i * B ^ i)" by (simp only: reg_val_def b_def p)
  then have V: "reg_val r = b 0 + B * (b 1 + B * (b 2 + B * b 3))"
    by (simp add: sum_upto_4 power2_eq_square power3_eq_cube distrib_left ac_simps)
  have d: "(b i + B * k) div B = k" "(b i + B * k) mod B = b i" for i k using lt [of i] by simp_all
  have "reg_val r div B ^ i mod B = b i"
    using i by (auto simp: V numeral_eq_Suc less_Suc_eq d div_mult2_eq lt)
  then have "unat (of_nat (reg_val r div 2 ^ (64 * i)) :: u64) = unat (bswap64 (r i))"
    unfolding p by (simp add: unat_of_nat b_def) (simp add: B_def)
  then show ?thesis by (simp only: limb_def unat_inj_iff bswap64_bswap64)
qed

lemma v_bignum_reg_to_bignum_val:
  assumes "heap_pos h + 65 \<le> HEAP_SIZE"
  shows "\<exists>x h'. v_bignum_reg_to_bignum r h = Inr (x, h') \<and> length x = 64 \<and> bval x = reg_val r
     \<and> heap_pos h' = heap_pos h + 65
     \<and> (\<forall>a. a < heap_pos h \<or> heap_pos h + 65 \<le> a \<longrightarrow> heap_cells h' a = heap_cells h a)"
proof -
  define h1 where "h1 = h \<lparr> heap_cells := (heap_cells h)(heap_pos h := of_nat 64),
      heap_pos := heap_pos h + (64 + 1) \<rparr>"
  define x where "x = v_bignum_set_string_hex (heap_number (heap_pos h) 64 h1) (reg_string r)"
  have a: "new_number 64 h = Inr (heap_pos h, h1)"
    unfolding h1_def by (rule new_number_room) (use assms in simp)
  have ne: "heap_number (heap_pos h) 64 h1 \<noteq> []" by (simp flip: length_greater_0_conv)
  have "reg_val r < 65536 ^ 64" by (rule less_trans [OF reg_val_bound]) simp
  then have x: "bval x = reg_val r" "length x = 64"
    using ne by (simp_all add: x_def v_bignum_set_string_hex_val takeWhile_hex reg_string_props)
  have "v_bignum_reg_to_bignum r h = Inr (x, heap_write (heap_pos h) x h1)"
    by (simp add: v_bignum_reg_to_bignum_def a x_def Let_def)
  then show ?thesis using x by (auto simp: heap_write_cell h1_def)
qed

lemma v_bignum_reg_to_bignum_full:
  "heap_pos h + 64 > HEAP_SIZE \<Longrightarrow> v_bignum_reg_to_bignum r h = Inl NullDeref"
  by (simp add: v_bignum_reg_to_bignum_def new_number_full)

section \<open>Raw bytes and decimal text\<close>

lemma import_pairs_export:
  "import_pairs (length y) (concat (map (\<lambda>d. [ucast (drop_bit 8 d), ucast d]) y) @ bs) = y"
proof (induction y)
  case (Cons d y)
  have "push_bit 8 (ucast (ucast (drop_bit 8 d) :: u8)) OR ucast (ucast d :: u8) = (d :: u16)"
    by (rule bit_eqI) (auto simp: bit_simps)
  with Cons show ?case by simp
qed simp

lemma export_import_pairs:
  "length bs = 2 * n \<Longrightarrow> concat (map (\<lambda>d. [ucast (drop_bit 8 d), ucast d]) (import_pairs n bs)) = bs
     \<and> length (import_pairs n bs) = n"
proof (induction n bs rule: import_pairs.induct)
  case (1 n b c bs)
  have "(ucast (drop_bit 8 (push_bit 8 (ucast b) OR ucast c :: u16)) :: u8) = b"
       "(ucast (push_bit 8 (ucast b) OR ucast c :: u16) :: u8) = c"
    by (rule bit_eqI, auto simp: bit_simps dest: bit_imp_le_length)+
  with 1 show ?case by simp
qed simp_all

lemma v_bignum_raw_export_len [simp]: "length (v_bignum_raw_export x) = 2 * length x"
  unfolding v_bignum_raw_export_def by (induction x) simp_all

lemma v_bignum_raw_import_export:
  "length x = length y \<Longrightarrow> v_bignum_raw_import x (v_bignum_raw_export y) = Inr y"
  using import_pairs_export [of "rev y" "[]"]
  by (simp add: v_bignum_raw_import_def) (simp add: v_bignum_raw_export_def)

lemma v_bignum_raw_export_import:
  "length bs = 2 * length x \<Longrightarrow> v_bignum_raw_import x bs = Inr y \<Longrightarrow> v_bignum_raw_export y = bs"
  using export_import_pairs [of bs "length x"]
  by (auto simp: v_bignum_raw_import_def v_bignum_raw_export_def)

lemma set_string_loop_len [bn_len, simp]: "length (set_string_loop x s) = length x"
  by (induction x s rule: set_string_loop.induct) simp_all

lemma set_string_loop_val:
  "x \<noteq> [] \<Longrightarrow> bval (set_string_loop x s)
     = foldl (\<lambda>a c. 10 * a + (code_of c - 48)) (bval x) (takeWhile isdigit s) mod 65536 ^ length x"
proof (induction x s rule: set_string_loop.induct)
  case (2 x c cs)
  define P :: nat where "P = 65536 ^ length x"
  have cong: "a mod P = b mod P \<Longrightarrow> foldl (\<lambda>a c. 10 * a + (code_of c - 48)) a s mod P
      = foldl (\<lambda>a c. 10 * a + (code_of c - 48)) b s mod P" for a b s
  proof (induction s arbitrary: a b)
    case (Cons c s)
    show ?case using Cons.IH [OF mod_add_cong [OF mod_mult_cong [OF refl Cons.prems] refl]] by simp
  qed simp
  show ?case
  proof (cases "isdigit c")
    case True
    define x1 where "x1 = v_bignum_add_digit (v_bignum_mul_digit x 10) (of_nat (code_of c - 48))"
    have ne: "v_bignum_mul_digit x 10 \<noteq> []" "x1 \<noteq> []"
      using 2(2) by (simp_all add: x1_def flip: length_greater_0_conv)
    have "unat (of_nat (code_of c - 48) :: u16) = code_of c - 48"
      unfolding unat_of_nat using True by (intro mod_less) (auto simp: isdigit_def)
    then have "bval x1 = (bval x * 10 mod P + (code_of c - 48)) mod P"
      using ne(1) by (simp add: x1_def v_bignum_add_digit_val v_bignum_mul_digit_val P_def)
    then have "bval x1 mod P = (10 * bval x + (code_of c - 48)) mod P" by (simp add: mod_simps mult.commute)
    from cong [OF this] have "foldl (\<lambda>a c. 10 * a + (code_of c - 48)) (bval x1) (takeWhile isdigit cs) mod P
      = foldl (\<lambda>a c. 10 * a + (code_of c - 48)) (bval x) (takeWhile isdigit (c # cs)) mod P"
      using True by simp
    moreover have "length x1 = length x" by (simp add: x1_def)
    ultimately show ?thesis using 2(1) [OF True] ne(2) True by (simp add: x1_def [symmetric] P_def)
  qed (use mod_less [OF bval_bound] in simp)
qed (use mod_less [OF bval_bound] in simp)

lemma v_bignum_set_string_val [bn_val]:
  assumes "x \<noteq> []"
  shows "bval (v_bignum_set_string x s) = dec_val (takeWhile isdigit s) mod 65536 ^ length x"
proof -
  have "v_bignum_set_zero x \<noteq> []" using assms by (simp flip: length_greater_0_conv)
  from set_string_loop_val [OF this] show ?thesis
    by (simp add: v_bignum_set_string_def dec_val_def v_bignum_set_zero_val)
qed

end
