(* ===== verification/Cpu_State.thy ===== *)
theory Cpu_State
  imports Bignum_Text
begin

unbundle bit_operations_syntax

text \<open>
  The processor state of \<^verbatim>\<open>target-ppdl/translate_cpu.h\<close> with reset, snapshot and tracing
  (\<^verbatim>\<open>translate_cpu.c\<close>), the register mask of \<^verbatim>\<open>include/qemu/trace.h\<close>, and the small
  arithmetic helpers of \<^verbatim>\<open>cpu.c\<close> and \<^verbatim>\<open>bitfield.c\<close>.

  An array field is a function from indices; every access goes through \<open>rd\<close> or \<open>wr\<close>, which
  stop at an index outside the declared size. The globals that the execution engine touches are
  collected in the record \<open>machine\<close>: the processor, the snapshot \<^verbatim>\<open>envSaved\<close>, the storage list
  \<^verbatim>\<open>mainStorage\<close>, the big-number heap and everything written to standard output.
\<close>

section \<open>Processor state\<close>

record CPUPPDLState =
  pc :: u32
  input_data :: "nat \<Rightarrow> u64"
  caller_addr :: u64
  inp_data_size :: u64
  gas_price :: u64
  log_ptr :: u64
  cur_addr :: u64
  log_bus :: "nat \<Rightarrow> u64"
  origin_addr :: u64
  ext_code_size :: u64
  stack_arr :: "nat \<Rightarrow> u64"
  counter :: u64
  mem_size :: u64
  sp :: u64
  GasLimit :: u64
  Number :: u64
  is_pc_const_changed :: u64
  Difficulty :: u64
  gas_available :: "nat \<Rightarrow> u64"
  TimeStamp :: u64
  CoinBase :: u64
  data_bus :: "nat \<Rightarrow> u64"
  is_pc_within_inst :: u64
  elfSize :: u64

definition STACK_LEN :: nat where "STACK_LEN = 2048"

definition BUS_LEN :: nat where "BUS_LEN = 1024"

text \<open>One node of the storage list of \<^verbatim>\<open>target-ppdl/functions.c\<close>.\<close>

record snode =
  skey :: u32
  svalue :: "u64 list"

record machine =
  env :: CPUPPDLState
  envSaved :: CPUPPDLState
  mainStorage :: "snode list option"
  bigheap :: bheap
  out :: string

text \<open>The state before the first reset: the allocated processor object and the static data are zero.\<close>

definition zero_cpu :: CPUPPDLState where
  "zero_cpu = \<lparr> pc = 0, input_data = (\<lambda>_. 0), caller_addr = 0, inp_data_size = 0, gas_price = 0, log_ptr = 0,
     cur_addr = 0, log_bus = (\<lambda>_. 0), origin_addr = 0, ext_code_size = 0, stack_arr = (\<lambda>_. 0), counter = 0,
     mem_size = 0, sp = 0, GasLimit = 0, Number = 0, is_pc_const_changed = 0, Difficulty = 0,
     gas_available = (\<lambda>_. 0), TimeStamp = 0, CoinBase = 0, data_bus = (\<lambda>_. 0), is_pc_within_inst = 0,
     elfSize = 0 \<rparr>"

definition boot :: machine where
  "boot = \<lparr> env = zero_cpu, envSaved = zero_cpu, mainStorage = None, bigheap = empty_heap, out = [] \<rparr>"

section \<open>Array access\<close>

definition rd :: "nat \<Rightarrow> (nat \<Rightarrow> u64) \<Rightarrow> u64 \<Rightarrow> u64 run" where
  "rd n arr i = (if unat i < n then Inr (arr (unat i)) else Inl OutOfBounds)"

definition wr :: "nat \<Rightarrow> (nat \<Rightarrow> u64) \<Rightarrow> u64 \<Rightarrow> u64 \<Rightarrow> (nat \<Rightarrow> u64) run" where
  "wr n arr i v = (if unat i < n then Inr (arr(unat i := v)) else Inl OutOfBounds)"

section \<open>Shifts and bit fields\<close>

definition pd_lsh :: "u64 \<Rightarrow> u64 \<Rightarrow> u64" where
  "pd_lsh aVal aOffs = (if aOffs \<ge> 64 then 0 else push_bit (unat aOffs) aVal)"

definition pd_rsh :: "u64 \<Rightarrow> u64 \<Rightarrow> u64" where
  "pd_rsh aVal aOffs = (if aOffs \<ge> 64 then 0 else drop_bit (unat aOffs) aVal)"

text \<open>
  \<^verbatim>\<open>start\<close> is overwritten before \<^verbatim>\<open>end\<close> is computed, so the new \<^verbatim>\<open>end\<close> is the maximum of the smaller
  bound and the old \<^verbatim>\<open>end\<close>. A shift by 64 or more is undefined in C; the model shifts everything
  out.
\<close>

definition field_bounds :: "u64 \<Rightarrow> u64 \<Rightarrow> nat \<times> u64" where
  "field_bounds start fin =
     (let start' = (if start < fin then start else fin);
          end' = (if start' > fin then start' else fin) + 1;
          diff = end' - start';
          bits = (if diff = 64 then - 1 else push_bit (unat diff) 1 - 1)
      in (unat start', bits))"

definition set_bitfield :: "u64 \<Rightarrow> u64 \<Rightarrow> u64 \<Rightarrow> u64 \<Rightarrow> u64" where
  "set_bitfield dst start fin aVal =
     (case field_bounds start fin of (s, bits) \<Rightarrow>
        (dst AND NOT (push_bit s bits)) OR push_bit s (aVal AND bits))"

definition get_bitfield :: "u64 \<Rightarrow> u64 \<Rightarrow> u64 \<Rightarrow> u64" where
  "get_bitfield aVal start fin =
     (case field_bounds start fin of (s, bits) \<Rightarrow> drop_bit s aVal AND bits)"

section \<open>Reset and snapshot\<close>

definition saveState :: "CPUPPDLState \<Rightarrow> CPUPPDLState \<Rightarrow> CPUPPDLState" where
  "saveState dst src = dst \<lparr>
     pc := pc src, cur_addr := cur_addr src, caller_addr := caller_addr src,
     origin_addr := origin_addr src, gas_price := gas_price src,
     ext_code_size := ext_code_size src, inp_data_size := inp_data_size src,
     log_ptr := log_ptr src, sp := sp src,
     gas_available := (\<lambda>i. if i < 4 then gas_available src i else gas_available dst i),
     data_bus := (\<lambda>i. if i < BUS_LEN then data_bus src i else data_bus dst i),
     stack_arr := (\<lambda>i. if i < STACK_LEN then stack_arr src i else stack_arr dst i),
     CoinBase := CoinBase src, TimeStamp := TimeStamp src, Number := Number src,
     Difficulty := Difficulty src, GasLimit := GasLimit src \<rparr>"

definition initialize :: "machine \<Rightarrow> machine" where
  "initialize m =
     (case mainStorage m of
        None \<Rightarrow> m \<lparr> mainStorage := Some [\<lparr> skey = - 1, svalue = replicate 4 0 \<rparr>] \<rparr>
      | Some ns \<Rightarrow> m)"

definition reset_env :: "u64 \<Rightarrow> u64 \<Rightarrow> u64 \<Rightarrow> CPUPPDLState \<Rightarrow> CPUPPDLState" where
  "reset_env elf_entry gas end_pc e = e \<lparr>
     pc := ucast elf_entry, GasLimit := gas,
     gas_available := (\<lambda>i. if i = 0 then bswap64 gas else if i < 4 then 0 else gas_available e i),
     elfSize := end_pc, sp := 0 - 1, log_ptr := 0,
     data_bus := (\<lambda>i. if i < BUS_LEN then 0 else data_bus e i), counter := 0x400 \<rparr>"

definition RESET :: "u64 \<Rightarrow> u64 \<Rightarrow> u64 \<Rightarrow> machine \<Rightarrow> machine" where
  "RESET elf_entry gas end_pc m =
     (let e = reset_env elf_entry gas end_pc (env m)
      in initialize (m \<lparr> env := e, envSaved := saveState (envSaved m) e \<rparr>))"

definition OPER :: "u64 \<Rightarrow> u64 \<Rightarrow> u64 \<Rightarrow> machine \<Rightarrow> machine" where
  "OPER elf_entry gas end_pc m =
     (let e = reset_env elf_entry gas end_pc (env m)
      in initialize (m \<lparr> env := e, envSaved := saveState (envSaved m) e \<rparr>))"

section \<open>Tracing\<close>

fun fmt_d :: "nat \<Rightarrow> string" where
  "fmt_d n = (if n < 10 then [char_of (48 + n)] else fmt_d (n div 10) @ [char_of (48 + n mod 10)])"

definition fmt_016lx :: "u64 \<Rightarrow> string" where
  "fmt_016lx w = map (\<lambda>k. hex_char (unat w div 16 ^ k mod 16)) (rev [0..<16])"

text \<open>
  \<^verbatim>\<open>qemu_reg_mask\<close>: the item table and the list of selected indices are arguments; \<open>idx\<close> is
  \<open>None\<close> where the code passes \<open>-1\<close>. The code builds the name in a buffer of 20 characters; the names its callers
  pass have at most 14 with their index, so that the buffer is never left and is not modelled.
\<close>

definition reg_name :: "string \<Rightarrow> nat option \<Rightarrow> string" where
  "reg_name reg idx = (case idx of None \<Rightarrow> reg | Some i \<Rightarrow> reg @ fmt_d i)"

definition qemu_reg_mask ::
  "bool \<Rightarrow> (string \<times> nat) list \<Rightarrow> nat list \<Rightarrow> string \<Rightarrow> nat option \<Rightarrow> bool" where
  "qemu_reg_mask use_ctracer items selected reg idx =
     (if use_ctracer then True
      else case map_of items (reg_name reg idx) of
             None \<Rightarrow> False
           | Some reg_index \<Rightarrow> list_ex (\<lambda>s. reg_index = s) selected)"

record trace_cfg =
  use_regtracer :: bool
  use_ctracer :: bool
  trace_items :: "(string \<times> nat) list"
  trace_list :: "nat list"

text \<open>
  One comparison: \<open>lbl\<close> is what the register tracer prints before the colon, \<open>plain\<close> what the
  compact tracer prints before the equal sign, if it prints the register at all.
\<close>

definition trace_line ::
  "trace_cfg \<Rightarrow> string \<Rightarrow> nat option \<Rightarrow> string \<Rightarrow> string option \<Rightarrow> u64 \<Rightarrow> u64 \<Rightarrow> string" where
  "trace_line cfg reg idx lbl plain old new =
     (if old \<noteq> new \<and> qemu_reg_mask (use_ctracer cfg) (trace_items cfg) (trace_list cfg) reg idx
      then (if use_regtracer cfg
            then lbl @ '': '' @ fmt_016lx old @ '' -> '' @ fmt_016lx new @ [char_of (10::nat)] else [])
         @ (case plain of
              None \<Rightarrow> []
            | Some p \<Rightarrow> if use_ctracer cfg
                        then p @ '' = '' @ fmt_016lx new @ [char_of (10::nat)] else [])
      else [])"

definition trace_reg :: "trace_cfg \<Rightarrow> string \<Rightarrow> string \<Rightarrow> u64 \<Rightarrow> u64 \<Rightarrow> string" where
  "trace_reg cfg reg lbl old new = trace_line cfg reg None lbl (Some reg) old new"

definition trace_arr ::
  "trace_cfg \<Rightarrow> string \<Rightarrow> nat \<Rightarrow> (nat \<Rightarrow> u64) \<Rightarrow> (nat \<Rightarrow> u64) \<Rightarrow> string" where
  "trace_arr cfg reg n old new =
     concat (map (\<lambda>i. trace_line cfg reg (Some i) (reg @ fmt_d i) (Some (reg @ fmt_d i)) (old i) (new i)) [0..<n])"

text \<open>
  The text \<^verbatim>\<open>compareState\<close> prints. The label of \<^verbatim>\<open>sp\<close> contains the loop variable before any loop
  has set it: its value is the argument \<open>i0\<close>. The labels after the last loop contain 2048.
\<close>

definition compareState :: "trace_cfg \<Rightarrow> nat \<Rightarrow> CPUPPDLState \<Rightarrow> CPUPPDLState \<Rightarrow> string" where
  "compareState cfg i0 old new =
     trace_line cfg ''pc'' None ''pc'' None (ucast (pc old)) (ucast (pc new))
   @ trace_reg cfg ''cur_addr'' ''cur_addr'' (cur_addr old) (cur_addr new)
   @ trace_reg cfg ''caller_addr'' ''caller_addr'' (caller_addr old) (caller_addr new)
   @ trace_reg cfg ''origin_addr'' ''origin_addr'' (origin_addr old) (origin_addr new)
   @ trace_reg cfg ''gas_price'' ''gas_price'' (gas_price old) (gas_price new)
   @ trace_reg cfg ''ext_code_size'' ''ext_code_size'' (ext_code_size old) (ext_code_size new)
   @ trace_reg cfg ''inp_data_size'' ''inp_data_size'' (inp_data_size old) (inp_data_size new)
   @ trace_reg cfg ''log_ptr'' ''log_ptr'' (log_ptr old) (log_ptr new)
   @ trace_reg cfg ''sp'' (''sp'' @ fmt_d i0) (sp old) (sp new)
   @ trace_arr cfg ''gas_available'' 4 (gas_available old) (gas_available new)
   @ trace_arr cfg ''data_bus'' BUS_LEN (data_bus old) (data_bus new)
   @ trace_arr cfg ''stack_arr'' STACK_LEN (stack_arr old) (stack_arr new)
   @ trace_reg cfg ''CoinBase'' (''CoinBase'' @ fmt_d 2048) (CoinBase old) (CoinBase new)
   @ trace_reg cfg ''TimeStamp'' (''TimeStamp'' @ fmt_d 2048) (TimeStamp old) (TimeStamp new)
   @ trace_reg cfg ''Number'' (''Number'' @ fmt_d 2048) (Number old) (Number new)
   @ trace_reg cfg ''Difficulty'' (''Difficulty'' @ fmt_d 2048) (Difficulty old) (Difficulty new)
   @ trace_reg cfg ''GasLimit'' (''GasLimit'' @ fmt_d 2048) (GasLimit old) (GasLimit new)"

lemma rd_ok [simp]: "unat i < n \<Longrightarrow> rd n arr i = Inr (arr (unat i))"
  and rd_bad [simp]: "\<not> unat i < n \<Longrightarrow> rd n arr i = Inl OutOfBounds"
  and wr_ok [simp]: "unat i < n \<Longrightarrow> wr n arr i v = Inr (arr(unat i := v))"
  and wr_bad [simp]: "\<not> unat i < n \<Longrightarrow> wr n arr i v = Inl OutOfBounds"
  by (simp_all add: rd_def wr_def)

lemma pd_shifts:
  "unat k < 64 \<Longrightarrow> pd_lsh a k = push_bit (unat k) a" "unat k < 64 \<Longrightarrow> pd_rsh a k = drop_bit (unat k) a"
  "\<not> unat k < 64 \<Longrightarrow> pd_lsh a k = 0" "\<not> unat k < 64 \<Longrightarrow> pd_rsh a k = 0"
  by (simp_all add: pd_lsh_def pd_rsh_def word_le_nat_alt)

lemma field_bounds_val:
  assumes "unat s \<le> unat e" and "unat e < 64"
  shows "field_bounds s e = (unat s, mask (unat e - unat s + 1))"
proof -
  have "\<not> s < e \<Longrightarrow> s = e" using assms(1) by (simp add: word_less_nat_alt flip: unat_inj_iff)
  then have st: "(if s < e then s else e) = s" by auto
  have en: "(if s > e then s else e) = e" using assms(1) by (simp add: word_less_nat_alt)
  have d: "unat (e + 1 - s) = unat e - unat s + 1"
  proof -
    have "unat (e + 1) = unat e + 1" using assms(2) by (simp add: unat_word_ariths)
    then show ?thesis using assms(1) by (subst unat_sub) (simp_all add: word_le_nat_alt)
  qed
  have "e + 1 - s = 64 \<longleftrightarrow> unat e - unat s + 1 = 64"
    using d unat_inj_iff [of "e + 1 - s" 64] by simp
  then show ?thesis
    unfolding field_bounds_def Let_def st en d
    by (simp add: mask_eq_decr_exp push_bit_eq_mult)
qed

lemma set_bitfield_bit:
  assumes "unat s \<le> unat e" and "unat e < 64" and "n < 64"
  shows "bit (set_bitfield dst s e v) n = (if unat s \<le> n \<and> n \<le> unat e then bit v (n - unat s) else bit dst n)"
  using assms by (auto simp: set_bitfield_def field_bounds_val bit_simps)

lemma get_bitfield_bit:
  assumes "unat s \<le> unat e" and "unat e < 64" and "n < 64"
  shows "bit (get_bitfield v s e) n = (unat s + n \<le> unat e \<and> bit v (unat s + n))"
  using assms by (auto simp: get_bitfield_def field_bounds_val bit_simps)

lemma trace_line_same [simp]: "trace_line cfg reg idx lbl plain v v = []"
  by (simp add: trace_line_def)

lemma trace_reg_same [simp]: "trace_reg cfg reg lbl v v = []"
  by (simp add: trace_reg_def)

lemma trace_arr_same: "(\<And>i. i < n \<Longrightarrow> old i = new i) \<Longrightarrow> trace_arr cfg reg n old new = []"
  by (simp add: trace_arr_def)

lemma compareState_saved: "compareState cfg i0 (saveState d s) s = []"
  by (simp add: compareState_def saveState_def trace_arr_same)

lemma initialize_fields [frame, simp]:
  "env (initialize m) = env m" "envSaved (initialize m) = envSaved m"
  "bigheap (initialize m) = bigheap m" "out (initialize m) = out m"
  by (simp_all add: initialize_def split: option.splits)

lemma initialize_storage: "\<exists>ns. mainStorage (initialize m) = Some ns \<and> ns \<noteq> [] \<or> mainStorage m = Some []"
  by (simp add: initialize_def split: option.splits)

section \<open>Properties\<close>

text \<open>C26: a bit field written by \<open>set_bitfield\<close> is read back by \<open>get_bitfield\<close>, cut to the width of the
  field, and no bit outside the field changes.\<close>

theorem bitfield_set_get:
  assumes "unat s \<le> unat e" and "unat e < 64"
  shows "get_bitfield (set_bitfield dst s e v) s e = take_bit (unat e - unat s + 1) v
    \<and> (\<forall>n. n < 64 \<and> (n < unat s \<or> unat e < n) \<longrightarrow> bit (set_bitfield dst s e v) n = bit dst n)"
proof -
  have "get_bitfield (set_bitfield dst s e v) s e = take_bit (unat e - unat s + 1) v"
    using assms by (intro bit_eqI) (auto simp: get_bitfield_bit set_bitfield_bit bit_simps)
  then show ?thesis using assms by (auto simp: set_bitfield_bit)
qed

theorem bitfield_set_get_witness:
  "get_bitfield (set_bitfield 0xFFFF 4 7 0x2A) 4 7 = 0xA"
  using bitfield_set_get [of 4 7 "0xFFFF" "0x2A"] by simp

text \<open>C17: after a reset the stack is empty, the data memory is zero, the gas register holds the configured
  gas, the snapshot agrees with the processor on everything the tracer compares, and the storage
  exists.\<close>

theorem RESET_establishes:
  "sp (env (RESET entry gas endp m)) = - 1
   \<and> map (data_bus (env (RESET entry gas endp m))) [0..<BUS_LEN] = replicate BUS_LEN 0
   \<and> reg_val (gas_available (env (RESET entry gas endp m))) = unat gas
   \<and> elfSize (env (RESET entry gas endp m)) = endp
   \<and> compareState cfg i0 (envSaved (RESET entry gas endp m)) (env (RESET entry gas endp m)) = []
   \<and> mainStorage (RESET entry gas endp m) \<noteq> None"
proof -
  have "bswap64 0 = 0" by (rule bit_eqI) (simp add: bit_bswap64)
  then have "reg_val (gas_available (reset_env entry gas endp (env m))) = unat gas"
    by (simp add: reg_val_def sum_upto_4 reset_env_def)
  then show ?thesis
    by (auto simp: RESET_def Let_def compareState_saved reset_env_def initialize_def intro: nth_equalityI
      split: option.splits)
qed

end
