(* ===== verification/Evm_Stack.thy ===== *)
theory Evm_Stack
  imports Cpu_State
begin

unbundle bit_operations_syntax

text \<open>
  The evaluation stack. A 256-bit element takes four cells of \<^verbatim>\<open>stack_arr\<close>, the least significant
  64 bits first and each cell with its bytes reversed; \<^verbatim>\<open>sp\<close> is the index of the top cell and \<open>-1\<close>
  for the empty stack. \<open>elem m k\<close> is the \<open>k\<close>-th element from the bottom as a 256-bit word and
  \<open>depth m n\<close> says that the stack has \<open>n\<close> elements.

  The routines of \<^verbatim>\<open>functions.c\<close> compute cell indices in a signed 32-bit copy of \<^verbatim>\<open>sp\<close>
  (\<open>int32\<close>); the generated helpers compute them in the unsigned 64-bit register itself.
\<close>

definition int32 :: "u64 \<Rightarrow> int" where
  "int32 w = sint (ucast w :: u32)"

definition stack_reg :: "int \<Rightarrow> machine \<Rightarrow> reg run" where
  "stack_reg b m =
     (if 0 \<le> b \<and> b + 3 < int STACK_LEN then Inr (\<lambda>i. stack_arr (env m) (nat b + i))
      else Inl OutOfBounds)"

definition put_reg :: "int \<Rightarrow> u64 list \<Rightarrow> machine \<Rightarrow> machine run" where
  "put_reg b cs m =
     (if 0 \<le> b \<and> b + int (length cs) \<le> int STACK_LEN
      then Inr (m \<lparr> env := (env m) \<lparr> stack_arr := (\<lambda>a. if nat b \<le> a \<and> a < nat b + length cs then cs ! (a - nat b)
                                                 else stack_arr (env m) a) \<rparr> \<rparr>)
      else Inl OutOfBounds)"

definition set_sp :: "int \<Rightarrow> machine \<Rightarrow> machine" where
  "set_sp i m = m \<lparr> env := (env m) \<lparr> sp := of_int i \<rparr> \<rparr>"

definition cell_get :: "u64 \<Rightarrow> machine \<Rightarrow> u64 run" where
  "cell_get i m = rd STACK_LEN (stack_arr (env m)) i"

definition cell_set :: "u64 \<Rightarrow> u64 \<Rightarrow> machine \<Rightarrow> machine run" where
  "cell_set i v m = rbind (wr STACK_LEN (stack_arr (env m)) i v)
     (\<lambda>a. Inr (m \<lparr> env := (env m) \<lparr> stack_arr := a \<rparr> \<rparr>))"

section \<open>The abstract stack\<close>

definition elem_reg :: "machine \<Rightarrow> nat \<Rightarrow> reg" where
  "elem_reg m k = (\<lambda>i. stack_arr (env m) (4 * k + i))"

definition elem :: "machine \<Rightarrow> nat \<Rightarrow> u256" where
  "elem m k = of_nat (reg_val (elem_reg m k))"

definition depth :: "machine \<Rightarrow> nat \<Rightarrow> bool" where
  "depth m n \<longleftrightarrow> sp (env m) = of_int (4 * int n - 1) \<and> n \<le> 512"

definition stack_list :: "machine \<Rightarrow> nat \<Rightarrow> u256 list" where
  "stack_list m n = map (elem m) (rev [0..<n])"

definition gas_left :: "machine \<Rightarrow> nat" where
  "gas_left m = reg_val (gas_available (env m))"

section \<open>Elements and cells\<close>

lemma unat_elem: "unat (elem m k) = reg_val (elem_reg m k)"
  using reg_val_bound [of "elem_reg m k"] by (simp add: elem_def unat_of_nat)

lemma int32_small: "- 2147483648 \<le> i \<Longrightarrow> i < 2147483648 \<Longrightarrow> int32 (of_int i) = i"
proof -
  assume a: "- 2147483648 \<le> i" "i < 2147483648"
  have "(ucast (of_int i :: u64) :: u32) = of_int i"
    by (simp add: unsigned_ucast_eq word_eq_iff_unsigned [where 'a = int] take_bit_of_int uint_word_of_int_eq)
  moreover have "sint (of_int i :: u32) = i" using a by (simp add: signed_of_int signed_take_bit_int_eq_self)
  ultimately show ?thesis by (simp add: int32_def)
qed

lemma depth_int32: "depth m n \<Longrightarrow> int32 (sp (env m)) = 4 * int n - 1"
  unfolding depth_def using int32_small [of "4 * int n - 1"] by simp

lemma depth_unat: "depth m n \<Longrightarrow> 0 < n \<Longrightarrow> unat (sp (env m)) = 4 * n - 1"
proof -
  assume d: "depth m n" "0 < n"
  then have "sp (env m) = of_nat (4 * n - 1)" by (simp add: depth_def)
  moreover have "unat (of_nat (4 * n - 1) :: u64) = 4 * n - 1"
    unfolding unat_of_nat by (rule mod_less) (use d in \<open>auto simp: depth_def\<close>)
  ultimately show ?thesis by simp
qed

lemma nat_4_int [simp]: "nat (4 * int k) = 4 * k"
  by simp

lemma depth_set_sp: "n \<le> 512 \<Longrightarrow> depth (set_sp (4 * int n - 1) m) n"
  by (simp add: depth_def set_sp_def)

lemma stack_reg_elem: "k < 512 \<Longrightarrow> stack_reg (4 * int k) m = Inr (elem_reg m k)"
  by (simp add: stack_reg_def STACK_LEN_def elem_reg_def nat_mult_distrib)

lemma stack_reg_underflow: "b < 0 \<Longrightarrow> stack_reg b m = Inl OutOfBounds"
  by (simp add: stack_reg_def)

lemma put_reg_elem:
  assumes "k < 512" and "length cs = 4"
  obtains m' where "put_reg (4 * int k) cs m = Inr m'"
    and "elem_reg m' k 0 = cs ! 0" "elem_reg m' k 1 = cs ! 1" "elem_reg m' k 2 = cs ! 2" "elem_reg m' k 3 = cs ! 3"
    and "\<And>j. j \<noteq> k \<Longrightarrow> elem m' j = elem m j"
    and "m' = m \<lparr> env := (env m) \<lparr> stack_arr := stack_arr (env m') \<rparr> \<rparr>"
proof -
  define m' where "m' = m \<lparr> env := (env m) \<lparr> stack_arr := (\<lambda>a. if 4 * k \<le> a \<and> a < 4 * k + 4 then cs ! (a - 4 * k)
      else stack_arr (env m) a) \<rparr> \<rparr>"
  have "put_reg (4 * int k) cs m = Inr m'"
    unfolding put_reg_def nat_4_int using assms by (simp add: STACK_LEN_def m'_def)
  moreover have "elem m' j = elem m j" if "j \<noteq> k" for j
  proof -
    have "elem_reg m' j i = elem_reg m j i" if "i < 4" for i
    proof -
      have "\<not> (4 * k \<le> 4 * j + i \<and> 4 * j + i < 4 * k + 4)" using \<open>j \<noteq> k\<close> that by arith
      then show ?thesis by (auto simp: elem_reg_def m'_def)
    qed
    then show ?thesis by (simp add: elem_def reg_val_def)
  qed
  ultimately show ?thesis using that [of m'] by (simp add: elem_reg_def m'_def)
qed

lemma reg_val_cong: "(\<And>i. i < 4 \<Longrightarrow> r i = r' i) \<Longrightarrow> reg_val r = reg_val r'"
  by (simp add: reg_val_def)

lemma elem_put_limbs:
  assumes "V < 2 ^ 256" and "k < 512"
  obtains m' where "put_reg (4 * int k) (map (limb V) [0..<4]) m = Inr m'"
    and "elem m' k = of_nat V" "\<And>j. j \<noteq> k \<Longrightarrow> elem m' j = elem m j"
    and "m' = m \<lparr> env := (env m) \<lparr> stack_arr := stack_arr (env m') \<rparr> \<rparr>"
proof -
  obtain m' where p: "put_reg (4 * int k) (map (limb V) [0..<4]) m = Inr m'"
    and e: "elem_reg m' k 0 = limb V 0" "elem_reg m' k 1 = limb V 1" "elem_reg m' k 2 = limb V 2" "elem_reg m' k 3 = limb V 3"
    and o: "\<And>j. j \<noteq> k \<Longrightarrow> elem m' j = elem m j"
    and u: "m' = m \<lparr> env := (env m) \<lparr> stack_arr := stack_arr (env m') \<rparr> \<rparr>"
    using put_reg_elem [OF assms(2), of "map (limb V) [0..<4]" m] by (auto simp: numeral_2_eq_2)
  have "reg_val (elem_reg m' k) = reg_val (limb V)" using e by (simp add: reg_val_def sum_upto_4)
  then have "elem m' k = of_nat V" by (simp add: elem_def reg_val_limb [OF assms(1)])
  with p o u that show ?thesis by blast
qed

end
