(* ===== verification/Storage.thy ===== *)
theory Storage
  imports Evm_Stack
begin

unbundle bit_operations_syntax

text \<open>
  The contract storage of \<^verbatim>\<open>target-ppdl/functions.c\<close>: a linked list of key/value nodes, searched
  from the front. \<^verbatim>\<open>initialize\<close> (in \<open>Cpu_State\<close>) creates it with one node whose key \<open>-1\<close> marks it
  empty; \<^verbatim>\<open>SaveToStorage\<close> overwrites the first node that is empty or has the key and appends one
  otherwise; \<^verbatim>\<open>LoadFromStorage\<close> copies the value of the first node with the key.

  The interface \<open>keyed_store\<close> states what the machine needs of the list: that it behaves as a map
  from keys to values. The list implements it for every key but \<open>-1\<close>.
\<close>

section \<open>The list\<close>

fun storage_save :: "u32 \<Rightarrow> u64 list \<Rightarrow> snode list \<Rightarrow> snode list" where
  "storage_save offs v [] = [\<lparr> skey = offs, svalue = v \<rparr>]"
| "storage_save offs v (n # ns) =
     (if skey n = - 1 \<or> skey n = offs then \<lparr> skey = offs, svalue = v \<rparr> # ns
      else n # storage_save offs v ns)"

fun storage_load :: "u32 \<Rightarrow> snode list \<Rightarrow> u64 list option" where
  "storage_load offs [] = None"
| "storage_load offs (n # ns) = (if skey n = offs then Some (svalue n) else storage_load offs ns)"

section \<open>Save and load\<close>

definition SaveToStorage :: "u32 \<Rightarrow> machine \<Rightarrow> machine run" where
  "SaveToStorage offs m =
     (let s = int32 (sp (env m)) in
      rbind (stack_reg (s - 3) m) (\<lambda>data_val.
        let data_tmp = map (\<lambda>j. bswap64 (data_val (3 - j))) [0..<4];
            m1 = set_sp (s - 4) m
        in case mainStorage m of
             None \<Rightarrow> Inl Uninitialised
           | Some ns \<Rightarrow> Inr (m1 \<lparr> mainStorage := Some (storage_save offs data_tmp ns) \<rparr>)))"

definition LoadFromStorage :: "u32 \<Rightarrow> machine \<Rightarrow> machine run" where
  "LoadFromStorage offs m =
     (let s = int32 (sp (env m)) in
      rbind (stack_reg (s + 1) m) (\<lambda>_.
        case (case mainStorage m of None \<Rightarrow> None | Some ns \<Rightarrow> storage_load offs ns) of
          None \<Rightarrow> Inl Uninitialised
        | Some data_tmp \<Rightarrow>
            rbind (put_reg (s + 1) (map (\<lambda>j. bswap64 (data_tmp ! (3 - j))) [0..<4]) m) (\<lambda>m1.
              Inr (set_sp (s + 4) m1))))"

text \<open>
  \<^verbatim>\<open>finalize\<close> frees every node and keeps the dangling pointer; a later access would be undefined,
  as it is for a storage that was never created.
\<close>

definition finalize :: "machine \<Rightarrow> machine" where
  "finalize m = m \<lparr> mainStorage := None \<rparr>"

text \<open>The number a stored value stands for, and the storage as a map.\<close>

definition value_num :: "u64 list \<Rightarrow> u256" where
  "value_num v = of_nat (\<Sum>j<4. unat (v ! (3 - j)) * 2 ^ (64 * j))"

definition storage_val :: "machine \<Rightarrow> u32 \<rightharpoonup> u256" where
  "storage_val m k = (case mainStorage m of None \<Rightarrow> None | Some ns \<Rightarrow> map_option value_num (storage_load k ns))"

definition storage_inv :: "snode list \<Rightarrow> bool" where
  "storage_inv ns \<longleftrightarrow> ns \<noteq> [] \<and> distinct (map skey ns)
     \<and> (- 1 \<in> set (map skey ns) \<longrightarrow> length ns = 1) \<and> (\<forall>n \<in> set ns. length (svalue n) = 4)"

definition storage_ok :: "machine \<Rightarrow> bool" where
  "storage_ok m = (case mainStorage m of None \<Rightarrow> False | Some ns \<Rightarrow> storage_inv ns)"

section \<open>The interface\<close>

locale keyed_store =
  fixes lookup :: "'k \<Rightarrow> 's \<Rightarrow> 'v option"
    and update :: "'k \<Rightarrow> 'v \<Rightarrow> 's \<Rightarrow> 's"
    and inv :: "'s \<Rightarrow> bool"
    and valid :: "'k \<Rightarrow> bool"
    and okv :: "'v \<Rightarrow> bool"
  assumes update_inv: "inv s \<Longrightarrow> valid k \<Longrightarrow> okv v \<Longrightarrow> inv (update k v s)"
    and lookup_update: "inv s \<Longrightarrow> valid k \<Longrightarrow> valid k' \<Longrightarrow>
      lookup k' (update k v s) = (if k' = k then Some v else lookup k' s)"
    and lookup_okv: "inv s \<Longrightarrow> lookup k s = Some v \<Longrightarrow> okv v"
begin

lemma updates_inv:
  "inv s \<Longrightarrow> \<forall>(k, v) \<in> set kvs. valid k \<and> okv v \<Longrightarrow> inv (fold (\<lambda>(k, v). update k v) kvs s)"
  by (induction kvs arbitrary: s) (auto simp: update_inv)

lemma lookup_updates:
  "inv s \<Longrightarrow> \<forall>(k, v) \<in> set kvs. valid k \<and> okv v \<Longrightarrow> valid k' \<Longrightarrow>
   lookup k' (fold (\<lambda>(k, v). update k v) kvs s)
     = (case map_of (rev kvs) k' of Some v \<Rightarrow> Some v | None \<Rightarrow> lookup k' s)"
proof (induction kvs arbitrary: s)
  case (Cons kv kvs)
  obtain k v where kv: "kv = (k, v)" by (cases kv) auto
  with Cons.prems have p: "valid k" "okv v" "\<forall>(k, v) \<in> set kvs. valid k \<and> okv v" by auto
  have "inv (update k v s)" using Cons.prems(1) p(1,2) by (rule update_inv)
  from Cons.IH [OF this p(3) Cons.prems(3)] show ?case
    using Cons.prems p by (auto simp: kv lookup_update map_add_def split: option.splits)
qed simp

end

lemma storage_load_save:
  assumes "k \<noteq> - 1" and "storage_inv ns \<or> - 1 \<notin> set (map skey ns)"
  shows "k' \<noteq> - 1 \<Longrightarrow>
    storage_load k' (storage_save k v ns) = (if k' = k then Some v else storage_load k' ns)"
  using assms
proof (induction ns)
  case (Cons n ns)
  show ?case
  proof (cases "skey n = - 1")
    case True
    then have "ns = []" using Cons.prems by (auto simp: storage_inv_def)
    with True Cons.prems(1) show ?thesis by simp
  next
    case False
    then have "- 1 \<notin> set (map skey ns)" using Cons.prems(3) by (auto simp: storage_inv_def)
    with Cons False show ?thesis by auto
  qed
qed simp

lemma storage_save_keys:
  "- 1 \<notin> set (map skey ns) \<Longrightarrow> distinct (map skey ns) \<Longrightarrow>
   set (map skey (storage_save k v ns)) = insert k (set (map skey ns))
   \<and> distinct (map skey (storage_save k v ns)) \<and> storage_save k v ns \<noteq> []"
  by (induction ns) auto

lemma storage_save_lengths:
  "\<forall>n \<in> set ns. length (svalue n) = 4 \<Longrightarrow> length v = 4 \<Longrightarrow>
   \<forall>n \<in> set (storage_save k v ns). length (svalue n) = 4"
  by (induction ns) auto

lemma storage_save_inv:
  "storage_inv ns \<Longrightarrow> k \<noteq> - 1 \<Longrightarrow> length v = 4 \<Longrightarrow> storage_inv (storage_save k v ns)"
proof -
  assume a: "storage_inv ns" "k \<noteq> - 1" "length v = 4"
  show ?thesis
  proof (cases "- 1 \<in> set (map skey ns)")
    case True
    with a obtain n where "ns = [n]" "skey n = - 1"
      by (auto simp: storage_inv_def length_Suc_conv)
    with a show ?thesis by (simp add: storage_inv_def)
  next
    case False
    with a storage_save_keys [OF False, of k v] storage_save_lengths [of ns v k]
    show ?thesis by (auto simp: storage_inv_def)
  qed
qed

lemma storage_load_length: "storage_inv ns \<Longrightarrow> storage_load k ns = Some v \<Longrightarrow> length v = 4"
proof -
  have "\<forall>n \<in> set ns. length (svalue n) = 4 \<Longrightarrow> storage_load k ns = Some v \<Longrightarrow> length v = 4"
    by (induction ns) (auto split: if_splits)
  then show "storage_inv ns \<Longrightarrow> storage_load k ns = Some v \<Longrightarrow> length v = 4"
    by (simp add: storage_inv_def)
qed

interpretation storage: keyed_store storage_load storage_save storage_inv "\<lambda>k. k \<noteq> - 1" "\<lambda>v. length v = 4"
  by unfold_locales (simp_all add: storage_save_inv storage_load_save storage_load_length)

section \<open>The machine operations\<close>

lemma value_num_of_reg: "value_num (map (\<lambda>j. bswap64 (r (3 - j))) [0..<4]) = of_nat (reg_val r)"
proof -
  have "(\<Sum>j<4. unat (map (\<lambda>j. bswap64 (r (3 - j))) [0..<4] ! (3 - j)) * 2 ^ (64 * j)) = reg_val r"
  proof -
    have "[0..<4] ! (3 - x) = 3 - x" for x by (subst nth_upt) simp_all
    then show ?thesis unfolding reg_val_def by (intro sum.cong) simp_all
  qed
  then show ?thesis by (simp only: value_num_def)
qed

lemma SaveToStorage_val:
  assumes "depth m (Suc n)" and "storage_ok m" and "k \<noteq> - 1"
  shows "\<exists>m'. SaveToStorage k m = Inr m' \<and> depth m' n \<and> storage_ok m'
    \<and> (\<forall>k'. k' \<noteq> - 1 \<longrightarrow> storage_val m' k' = ((storage_val m)(k \<mapsto> elem m n)) k')
    \<and> m' = set_sp (4 * int n - 1) m \<lparr> mainStorage := mainStorage m' \<rparr>"
proof -
  obtain ns where ns: "mainStorage m = Some ns" "storage_inv ns"
    using assms(2) by (auto simp: storage_ok_def split: option.splits)
  define d where "d = map (\<lambda>j. bswap64 (elem_reg m n (3 - j))) [0..<4]"
  have s: "int32 (sp (env m)) = 4 * int n + 3" using depth_int32 [OF assms(1)] by simp
  have n: "n < 512" using assms(1) by (simp add: depth_def)
  define m' where "m' = set_sp (4 * int n - 1) m \<lparr> mainStorage := Some (storage_save k d ns) \<rparr>"
  have "SaveToStorage k m = Inr m'"
    unfolding SaveToStorage_def s Let_def using stack_reg_elem [OF n, of m] ns(1)
    by (simp add: m'_def d_def)
  moreover have "value_num d = elem m n" by (simp add: d_def value_num_of_reg elem_def)
  then have "\<forall>k'. k' \<noteq> - 1 \<longrightarrow> storage_val m' k' = ((storage_val m)(k \<mapsto> elem m n)) k'"
    using storage.lookup_update [OF ns(2) assms(3)] ns(1)
    by (simp add: storage_val_def m'_def set_sp_def)
  moreover have "storage_ok m'"
    using storage.update_inv [OF ns(2) assms(3), of d] by (simp add: storage_ok_def m'_def d_def)
  ultimately show ?thesis using n by (auto simp: m'_def depth_def set_sp_def)
qed

lemma LoadFromStorage_val:
  assumes "depth m n" and "n < 512" and "storage_ok m" and "storage_val m k = Some v"
  shows "\<exists>m'. LoadFromStorage k m = Inr m' \<and> depth m' (Suc n) \<and> elem m' n = v
    \<and> (\<forall>j<n. elem m' j = elem m j)
    \<and> m' = set_sp (4 * int n + 3) m \<lparr> env := (env m) \<lparr> sp := of_int (4 * int n + 3), stack_arr := stack_arr (env m') \<rparr> \<rparr>"
proof -
  obtain ns d where ns: "mainStorage m = Some ns" "storage_inv ns" "storage_load k ns = Some d" "v = value_num d"
    using assms(3,4) by (auto simp: storage_ok_def storage_val_def split: option.splits)
  have l: "length d = 4" using storage_load_length [OF ns(2,3)] .
  have s: "int32 (sp (env m)) = 4 * int n - 1" using depth_int32 [OF assms(1)] by simp
  define cs where "cs = map (\<lambda>j. bswap64 (d ! (3 - j))) [0..<4]"
  obtain m1 where p: "put_reg (4 * int n) cs m = Inr m1"
    and e: "elem_reg m1 n 0 = cs ! 0" "elem_reg m1 n 1 = cs ! 1" "elem_reg m1 n 2 = cs ! 2" "elem_reg m1 n 3 = cs ! 3"
    and o: "\<And>j. j \<noteq> n \<Longrightarrow> elem m1 j = elem m j"
    and u: "m1 = m \<lparr> env := (env m) \<lparr> stack_arr := stack_arr (env m1) \<rparr> \<rparr>"
    using put_reg_elem [OF assms(2), of cs m] by (auto simp: cs_def)
  define m' where "m' = set_sp (4 * int n + 3) m1"
  have L: "LoadFromStorage k m = Inr m'"
    unfolding LoadFromStorage_def s Let_def
    using stack_reg_elem [OF assms(2), of m] ns p by (simp add: m'_def cs_def add.commute)
  have sa: "elem m' j = elem m1 j" for j by (simp add: m'_def set_sp_def elem_def elem_reg_def)
  have "elem m1 n = v"
    unfolding elem_def ns(4) value_num_def reg_val_def sum_upto_4 e
    by (simp add: cs_def numeral_2_eq_2 numeral_3_eq_3)
  moreover have "depth m' (Suc n)" using assms(2) by (simp add: m'_def depth_def set_sp_def)
  moreover have "m' = set_sp (4 * int n + 3) m \<lparr> env := (env m) \<lparr> sp := of_int (4 * int n + 3), stack_arr := stack_arr (env m') \<rparr> \<rparr>"
    by (subst m'_def, subst u) (simp add: set_sp_def m'_def)
  ultimately show ?thesis using L o sa by (intro exI [of _ m']) auto
qed


section \<open>Properties\<close>

text \<open>C3: a sequence of stores behaves as a sequence of map updates: the list gives back for every key the
  value stored last, for all keys but the marker \<open>-1\<close>.\<close>

theorem storage_is_map:
  assumes "storage_inv ns" and "\<forall>(k, v) \<in> set kvs. k \<noteq> - 1 \<and> length v = 4" and "k' \<noteq> - 1"
  shows "storage_load k' (fold (\<lambda>(k, v). storage_save k v) kvs ns)
    = (case map_of (rev kvs) k' of Some v \<Rightarrow> Some v | None \<Rightarrow> storage_load k' ns)"
  using assms by (rule storage.lookup_updates)

theorem storage_is_map_witness:
  "storage_load 7 (storage_save 7 [0, 0, 0, 9] (storage_save 7 [0, 0, 0, 5] [\<lparr> skey = - 1, svalue = [0, 0, 0, 0] \<rparr>]))
     = Some [0, 0, 0, 9]"
  using storage_is_map [of "[\<lparr> skey = - 1, svalue = [0, 0, 0, 0] \<rparr>]" "[(7, [0, 0, 0, 5]), (7, [0, 0, 0, 9])]" 7]
  by (simp add: storage_inv_def)

text \<open>C18: storing the top of the stack under a key and loading the key again gives back the stack as it
  was; in between the element is gone from the stack and the storage maps the key to it.\<close>

theorem storage_round_trip:
  assumes "depth m (Suc n)" and "storage_ok m" and "k \<noteq> - 1"
  shows "\<exists>m1 m2. SaveToStorage k m = Inr m1 \<and> depth m1 n \<and> storage_val m1 k = Some (elem m n)
    \<and> LoadFromStorage k m1 = Inr m2 \<and> depth m2 (Suc n) \<and> (\<forall>j\<le>n. elem m2 j = elem m j)"
proof -
  obtain m1 where s: "SaveToStorage k m = Inr m1" "depth m1 n" "storage_ok m1" "storage_val m1 k = Some (elem m n)"
    and u: "m1 = set_sp (4 * int n - 1) m \<lparr> mainStorage := mainStorage m1 \<rparr>"
    using SaveToStorage_val [OF assms] assms(3) by auto
  have n: "n < 512" using assms(1) by (simp add: depth_def)
  obtain m2 where l: "LoadFromStorage k m1 = Inr m2" "depth m2 (Suc n)" "elem m2 n = elem m n"
      "\<forall>j<n. elem m2 j = elem m1 j"
    using LoadFromStorage_val [OF s(2) n s(3,4)] by auto
  have "elem m1 j = elem m j" for j by (subst u) (simp add: elem_def elem_reg_def set_sp_def)
  with s l show ?thesis by (auto simp: le_less)
qed


theorem storage_round_trip_witness:
  "\<exists>m1 m2. SaveToStorage 5 (set_sp 3 (RESET 0 1000 0 boot)) = Inr m1 \<and> LoadFromStorage 5 m1 = Inr m2
    \<and> elem m2 0 = elem (set_sp 3 (RESET 0 1000 0 boot)) 0"
proof -
  have "depth (set_sp 3 (RESET 0 1000 0 boot)) (Suc 0)" by (simp add: depth_def set_sp_def)
  moreover have "storage_ok (set_sp 3 (RESET 0 1000 0 boot))"
    by (simp add: storage_ok_def set_sp_def RESET_def Let_def initialize_def boot_def storage_inv_def)
  moreover have "(5 :: u32) \<noteq> - 1" by simp
  ultimately show ?thesis using storage_round_trip [of "set_sp 3 (RESET 0 1000 0 boot)" 0 5] by auto
qed

end
