(* ===== verification/Evm_Gas.thy ===== *)
theory Evm_Gas
  imports Storage
begin

unbundle bit_operations_syntax

text \<open>
  Gas accounting (\<^verbatim>\<open>UseGas\<close> of \<^verbatim>\<open>target-ppdl/functions.c\<close> with \<^verbatim>\<open>gascost.h\<close>) and the way the stack
  routines read their arguments: a register of four cells becomes a 256-bit number on the C stack
  through a conversion that leaks 65 cells of the big-number heap.

  \<open>num a x\<close> says that the 16-digit number \<open>a\<close> stands for the 256-bit word \<open>x\<close>; the lemmas show that
  the big-number routines compute the word operations. \<open>room k m\<close> says that \<open>k\<close> heap cells are left,
  \<open>clean k m\<close> that the cells from \<open>k\<close> above the heap pointer on have never been written.
  \<open>holds m st\<close> says that the evaluation stack is the list \<open>st\<close> of words, top first; \<open>stepped g k m m'\<close> that \<open>m'\<close>
  differs from \<open>m\<close> in the stack only, up to \<open>g\<close> units of gas and \<open>k\<close> heap cells.
\<close>

section \<open>Gas\<close>

definition STEPGAS2 :: u64 where "STEPGAS2 = 3"
definition STEPGAS3 :: u64 where "STEPGAS3 = 5"
definition STEPGAS4 :: u64 where "STEPGAS4 = 8"
definition STEPGAS5 :: u64 where "STEPGAS5 = 10"

definition set_gas :: "u64 list \<Rightarrow> machine \<Rightarrow> machine" where
  "set_gas cs m = m \<lparr> env := (env m) \<lparr> gas_available := (\<lambda>i. if i < length cs then cs ! i else gas_available (env m) i) \<rparr> \<rparr>"

definition big256 :: vbig where
  "big256 = replicate 16 0"

definition UseGas :: "u64 \<Rightarrow> machine \<Rightarrow> machine run" where
  "UseGas v m =
     rbind (v_bignum_reg_to_bignum (gas_available (env m)) (bigheap m)) (\<lambda>(g, h).
       let m1 = m \<lparr> bigheap := h \<rparr>;
           x = v_bignum_set_bignum big256 g;
           y = v_bignum_set_string_hex (replicate 4 0) (''0x'' @ fmt_x (unat v))
       in if v_bignum_gt False y x then
            rbind (v_bignum_bignum_to_reg (v_bignum_set_zero x)) (\<lambda>cs.
              Inr (set_gas cs (m1 \<lparr> out := out m1 @ ''out of gas'' @ [char_of (10::nat)] \<rparr>)))
          else
            rbind (v_bignum_bignum_to_reg (v_bignum_sub False x y)) (\<lambda>cs. Inr (set_gas cs m1)))"

section \<open>Arguments\<close>

definition reg_arg :: "int \<Rightarrow> machine \<Rightarrow> (vbig \<times> machine) run" where
  "reg_arg b m =
     rbind (stack_reg b m) (\<lambda>r.
     rbind (v_bignum_reg_to_bignum r (bigheap m)) (\<lambda>(x, h).
       Inr (v_bignum_set_bignum big256 x, m \<lparr> bigheap := h \<rparr>)))"

section \<open>Numbers as words, heap room\<close>

definition num :: "vbig \<Rightarrow> u256 \<Rightarrow> bool" where
  "num a x \<longleftrightarrow> length a = 16 \<and> bval a = unat x"

definition room :: "nat \<Rightarrow> machine \<Rightarrow> bool" where
  "room k m \<longleftrightarrow> heap_pos (bigheap m) + k \<le> HEAP_SIZE"

definition clean :: "nat \<Rightarrow> machine \<Rightarrow> bool" where
  "clean k m \<longleftrightarrow> (\<forall>a \<ge> heap_pos (bigheap m) + k. heap_cells (bigheap m) a = 0)"

definition out_of_gas :: string where
  "out_of_gas = ''out of gas'' @ [char_of (10::nat)]"

definition holds :: "machine \<Rightarrow> u256 list \<Rightarrow> bool" where
  "holds m st \<longleftrightarrow> depth m (length st) \<and> stack_list m (length st) = st"

definition same_stack :: "machine \<Rightarrow> machine \<Rightarrow> bool" where
  "same_stack m m' \<longleftrightarrow> stack_arr (env m') = stack_arr (env m) \<and> sp (env m') = sp (env m)"

definition rest :: "machine \<Rightarrow> machine" where
  "rest m = m \<lparr> env := (env m) \<lparr> stack_arr := (\<lambda>_. 0), sp := 0, gas_available := (\<lambda>_. 0) \<rparr>,
     bigheap := empty_heap, out := [] \<rparr>"

definition stepped :: "nat \<Rightarrow> nat \<Rightarrow> machine \<Rightarrow> machine \<Rightarrow> bool" where
  "stepped g k m m' \<longleftrightarrow> rest m' = rest m \<and> gas_left m' = gas_left m - g
     \<and> out m' = out m @ (if gas_left m < g then out_of_gas else [])
     \<and> heap_pos (bigheap m') = heap_pos (bigheap m) + k \<and> (clean 51 m \<longrightarrow> clean 51 m')"

text \<open>The machine after start-up with a given stack and gas, for concrete examples.\<close>

definition loaded :: "nat \<Rightarrow> u256 list \<Rightarrow> machine" where
  "loaded g st = boot \<lparr> env := zero_cpu \<lparr> stack_arr := (\<lambda>i. if i < 4 * length st then limb (unat (rev st ! (i div 4))) (i mod 4) else 0),
     sp := of_int (4 * int (length st) - 1), gas_available := limb g \<rparr> \<rparr>"

section \<open>Hexadecimal text\<close>

lemma hex_val_snoc: "hex_val (s @ [c]) = 16 * hex_val s + unat (hex_digit c)"
  by (simp add: hex_val_def)

declare fmt_x.simps [simp del]

lemma fmt_x_props: "list_all isxdigit (fmt_x n) \<and> hex_val (fmt_x n) = n"
proof (induction n rule: fmt_x.induct)
  case (1 n)
  show ?case
  proof (cases "n < 16")
    case True
    then have "fmt_x n = [hex_char n]" by (subst fmt_x.simps) simp
    then show ?thesis using True by (simp add: hex_val_def)
  next
    case False
    then have "fmt_x n = fmt_x (n div 16) @ [hex_char (n mod 16)]" by (subst fmt_x.simps) simp
    then show ?thesis using 1 [OF False] by (simp add: hex_val_snoc)
  qed
qed

section \<open>The routines on words\<close>

lemma num_len: "num a x \<Longrightarrow> length a = 16"
  and num_bval: "num a x \<Longrightarrow> bval a = unat x"
  by (simp_all add: num_def)

lemma pow_256: "(65536 :: nat) ^ 16 = 2 ^ 256" "(65536 :: int) ^ 16 = 2 ^ 256"
  by simp_all

lemma num_of_nat: "length a = 16 \<Longrightarrow> num a (of_nat (bval a))"
  using bval_bound [of a] by (simp add: num_def unat_of_nat)

lemma num_iff: "num a x \<longleftrightarrow> length a = 16 \<and> of_nat (bval a) = x"
  using num_of_nat [of a] by (auto simp: num_def)

lemma num_big256: "num big256 0"
  by (simp add: num_def big256_def)

lemma num_zero: "length a = 16 \<Longrightarrow> num (v_bignum_set_zero a) 0"
  by (simp add: num_def bn_val)

lemma num_one: "length a = 16 \<Longrightarrow> num (v_bignum_set_one a) 1"
  by (cases a) (auto simp: num_def)

lemma num_add: "num a x \<Longrightarrow> num b y \<Longrightarrow> num (v_bignum_add a b) (x + y)"
  by (simp add: num_def bn_val unat_word_ariths)

lemma num_mul: "num a x \<Longrightarrow> num b y \<Longrightarrow> \<exists>c. v_bignum_mul a b = Inr c \<and> num c (x * y)"
  by (simp add: num_def bn_val unat_word_ariths v_bignum_mul_def)

lemma num_sub: "num a x \<Longrightarrow> num b y \<Longrightarrow> num (v_bignum_sub False a b) (x - y)"
proof -
  assume a: "num a x" "num b y"
  have "int (bval (v_bignum_sub False a b)) = (uint x - uint y) mod 2 ^ 256"
    using a unfolding v_bignum_sub_val num_def by simp
  also have "\<dots> = uint (x - y)" unfolding uint_word_ariths(2) by simp
  finally have "nat (int (bval (v_bignum_sub False a b))) = nat (uint (x - y))" by (rule arg_cong)
  then have "bval (v_bignum_sub False a b) = unat (x - y)" by (simp only: nat_int unat_eq_nat_uint)
  then show ?thesis using a by (simp add: num_def)
qed

lemma num_and: "num a x \<Longrightarrow> num b y \<Longrightarrow> num (v_bignum_and a b) (x AND y)"
  and num_or: "num a x \<Longrightarrow> num b y \<Longrightarrow> num (v_bignum_or a b) (x OR y)"
  and num_xor: "num a x \<Longrightarrow> num b y \<Longrightarrow> num (v_bignum_xor a b) (x XOR y)"
  by (simp_all add: num_def v_bignum_and_val v_bignum_or_val v_bignum_xor_val unsigned_and_eq unsigned_or_eq unsigned_xor_eq)

lemma num_not: "num a x \<Longrightarrow> num (v_bignum_not a) (NOT x)"
proof -
  assume a: "num a x"
  then have "bval (v_bignum_not a) + unat x + 1 = 2 ^ 256" using v_bignum_not_val [of a] by (simp add: num_def)
  moreover have "unat (NOT x) + unat x + 1 = 2 ^ 256" using unat_not [of x] by simp
  ultimately show ?thesis using a by (simp add: num_def)
qed

lemma num_copy: "num a x \<Longrightarrow> length b = 16 \<Longrightarrow> num (v_bignum_set_bignum b a) x"
  by (simp add: num_def v_bignum_set_bignum_same)

lemma num_gt: "num a x \<Longrightarrow> num b y \<Longrightarrow> v_bignum_gt False a b \<longleftrightarrow> x > y"
  by (simp add: num_def v_bignum_gt_le word_less_nat_alt)

lemma num_eq: "num a x \<Longrightarrow> num b y \<Longrightarrow> v_bignum_eq False a b \<longleftrightarrow> x = y"
  by (simp add: num_def v_bignum_eq_val unat_inj_iff)

lemma num_eq_zero: "num a x \<Longrightarrow> v_bignum_eq_zero a \<longleftrightarrow> x = 0"
  by (simp add: num_def v_bignum_eq_zero_val unat_eq_zero)

lemma num_eq_one: "num a x \<Longrightarrow> v_bignum_eq_one a \<longleftrightarrow> x = 1"
  using unat_inj_iff [of x 1] by (simp add: num_def v_bignum_eq_one_val)

lemma num_bit: "num a x \<Longrightarrow> v_bignum_bit_test a i = bit x (unat i)"
  by (simp add: num_def v_bignum_bit_test_val bit_unsigned_iff)

lemma num_reg: "num a x \<Longrightarrow> v_bignum_bignum_to_reg a = Inr (map (limb (unat x)) [0..<4])"
  by (simp add: num_def v_bignum_bignum_to_reg_val)


section \<open>Heap room\<close>

text \<open>A register conversion takes 65 cells for good and touches no cell above them.\<close>

lemma reg_conv:
  assumes "room 65 m"
  obtains x h where "v_bignum_reg_to_bignum r (bigheap m) = Inr (x, h)" and "num (v_bignum_set_bignum big256 x) (of_nat (reg_val r))"
    and "heap_pos h = heap_pos (bigheap m) + 65" and "clean 51 m \<Longrightarrow> clean 0 (m \<lparr> bigheap := h \<rparr>)"
proof -
  from v_bignum_reg_to_bignum_val [of "bigheap m" r] assms obtain x h where
    c: "v_bignum_reg_to_bignum r (bigheap m) = Inr (x, h)" "length x = 64" "bval x = reg_val r"
      "heap_pos h = heap_pos (bigheap m) + 65"
      "\<And>a. a < heap_pos (bigheap m) \<or> heap_pos (bigheap m) + 65 \<le> a \<Longrightarrow> heap_cells h a = heap_cells (bigheap m) a"
    by (auto simp: room_def)
  have "bval (v_bignum_set_bignum big256 x) = reg_val r"
    unfolding v_bignum_set_bignum_val c(3) using reg_val_bound [of r] by (simp add: big256_def)
  then have "num (v_bignum_set_bignum big256 x) (of_nat (reg_val r))"
    using num_of_nat [of "v_bignum_set_bignum big256 x"] by (simp add: big256_def)
  moreover have "clean 0 (m \<lparr> bigheap := h \<rparr>)" if "clean 51 m" using that c(4,5) by (simp add: clean_def)
  ultimately show ?thesis using c(1,4) that by blast
qed

lemma reg_conv_full: "\<not> room 64 m \<Longrightarrow> v_bignum_reg_to_bignum r (bigheap m) = Inl NullDeref"
  by (rule v_bignum_reg_to_bignum_full) (simp add: room_def)

lemma reg_arg_val:
  assumes "room 65 m" and "k < 512"
  obtains a h where "reg_arg (4 * int k) m = Inr (a, m \<lparr> bigheap := h \<rparr>)" and "num a (elem m k)"
    and "heap_pos h = heap_pos (bigheap m) + 65" and "clean 51 m \<Longrightarrow> clean 0 (m \<lparr> bigheap := h \<rparr>)"
proof -
  obtain x h where "v_bignum_reg_to_bignum (elem_reg m k) (bigheap m) = Inr (x, h)" "num (v_bignum_set_bignum big256 x) (elem m k)"
      "heap_pos h = heap_pos (bigheap m) + 65" "clean 51 m \<Longrightarrow> clean 0 (m \<lparr> bigheap := h \<rparr>)"
    using reg_conv [OF assms(1), of "elem_reg m k"] by (auto simp: elem_def)
  then show ?thesis using that stack_reg_elem [OF assms(2), of m] by (simp add: reg_arg_def)
qed

lemma reg_arg_full: "\<not> room 64 m \<Longrightarrow> k < 512 \<Longrightarrow> reg_arg (4 * int k) m = Inl NullDeref"
  by (simp add: reg_arg_def stack_reg_elem reg_conv_full)

lemma reg_arg_underflow: "b < 0 \<Longrightarrow> reg_arg b m = Inl OutOfBounds"
  by (simp add: reg_arg_def stack_reg_underflow)

section \<open>Gas lemmas\<close>

lemma gas_left_set_gas: "V < 2 ^ 256 \<Longrightarrow> gas_left (set_gas (map (limb V) [0..<4]) m) = V"
  by (simp add: gas_left_def set_gas_def reg_val_limb cong: reg_val_cong) 

lemma UseGas_val:
  assumes "room 65 m"
  obtains cs h t where "UseGas v m = Inr (set_gas cs (m \<lparr> bigheap := h, out := t \<rparr>))"
    and "gas_left (set_gas cs m) = gas_left m - unat v" and "length cs = 4"
    and "t = out m @ (if gas_left m < unat v then out_of_gas else [])"
    and "heap_pos h = heap_pos (bigheap m) + 65" and "clean 51 m \<Longrightarrow> clean 0 (m \<lparr> bigheap := h \<rparr>)"
proof -
  obtain g h where c: "v_bignum_reg_to_bignum (gas_available (env m)) (bigheap m) = Inr (g, h)"
      "num (v_bignum_set_bignum big256 g) (of_nat (gas_left m))"
      "heap_pos h = heap_pos (bigheap m) + 65" "clean 51 m \<Longrightarrow> clean 0 (m \<lparr> bigheap := h \<rparr>)"
    using reg_conv [OF assms, of "gas_available (env m)"] by (auto simp: gas_left_def)
  define x y where "x = v_bignum_set_bignum big256 g"
    and "y = v_bignum_set_string_hex (replicate 4 0) (''0x'' @ fmt_x (unat v))"
  have lt: "gas_left m < 2 ^ 256" unfolding gas_left_def by (rule reg_val_bound)
  have x: "length x = 16" "bval x = gas_left m"
    using c(2) lt by (simp_all add: x_def num_def unat_of_nat)
  have y: "length y = 4" "bval y = unat v"
    using fmt_x_props [of "unat v"] unat_lt64 [of v]
    by (simp_all add: y_def v_bignum_set_string_hex_val takeWhile_hex)
  define w where "w = (if gas_left m < unat v then v_bignum_set_zero x else v_bignum_sub False x y)"
  have w: "length w = 16" "bval w = gas_left m - unat v"
    using x y v_bignum_sub_ge [of y x] by (simp_all add: w_def v_bignum_set_zero_val)
  define cs where "cs = map (limb (gas_left m - unat v)) [0..<4]"
  have cs: "v_bignum_bignum_to_reg w = Inr cs" using v_bignum_bignum_to_reg_val [OF w(1)] by (simp add: w(2) cs_def)
  have "v_bignum_gt False y x = (gas_left m < unat v)" using x y by (simp add: v_bignum_gt_le)
  then have "UseGas v m = Inr (set_gas cs (m \<lparr> bigheap := h,
      out := out m @ (if gas_left m < unat v then out_of_gas else []) \<rparr>))"
    using cs unfolding UseGas_def c(1) Let_def x_def [symmetric] y_def [symmetric] w_def
    by (auto simp: Let_def x_def [symmetric] y_def [symmetric] out_of_gas_def split: if_splits)
  moreover have "gas_left (set_gas cs m) = gas_left m - unat v"
    unfolding cs_def by (rule gas_left_set_gas) (use lt in linarith)
  ultimately show ?thesis using that [of cs _ h] c(3,4) by (simp add: cs_def)
qed

section \<open>Steps of the machine\<close>

lemma stack_list_Suc: "stack_list m (Suc n) = elem m n # stack_list m n"
  by (simp add: stack_list_def)

lemma stack_list_cong: "(\<And>j. j < n \<Longrightarrow> elem m' j = elem m j) \<Longrightarrow> stack_list m' n = stack_list m n"
  by (simp add: stack_list_def)

lemma stack_list_len [simp]: "length (stack_list m n) = n"
  by (simp add: stack_list_def)

lemma holds_Cons: "holds m (x # st) \<longleftrightarrow> depth m (Suc (length st)) \<and> elem m (length st) = x \<and> stack_list m (length st) = st"
  by (simp add: holds_def stack_list_Suc)

lemma same_stack_elem: "same_stack m m' \<Longrightarrow> elem m' k = elem m k"
  by (simp add: same_stack_def elem_def elem_reg_def)

lemma same_stack_depth: "same_stack m m' \<Longrightarrow> depth m' n = depth m n"
  by (simp add: same_stack_def depth_def)

lemma same_stack_trans: "same_stack m m1 \<Longrightarrow> same_stack m1 m2 \<Longrightarrow> same_stack m m2"
  by (simp add: same_stack_def)

lemma same_stack_heap: "same_stack m (m \<lparr> bigheap := h \<rparr>)"
  by (simp add: same_stack_def)

lemma stepped_trans:
  assumes "stepped g k m m1" and "stepped g' k' m1 m2" and "g = 0 \<or> g' = 0"
  shows "stepped (g + g') (k + k') m m2"
  using assms by (auto simp: stepped_def)

lemma stepped_refl: "stepped 0 0 m m"
  by (simp add: stepped_def)

lemma stepped_heap:
  assumes "heap_pos h = heap_pos (bigheap m) + k" and "clean 51 m \<Longrightarrow> clean 51 (m \<lparr> bigheap := h \<rparr>)"
  shows "stepped 0 k m (m \<lparr> bigheap := h \<rparr>)"
  using assms by (simp add: stepped_def rest_def gas_left_def)

lemma clean_mono: "clean k m \<Longrightarrow> k \<le> k' \<Longrightarrow> clean k' m"
  by (simp add: clean_def)

lemma stepped_set_sp: "stepped 0 0 m (set_sp i m)"
  by (simp add: stepped_def set_sp_def rest_def gas_left_def clean_def)

lemma stepped_put: "put_reg b cs m = Inr m' \<Longrightarrow> stepped 0 0 m m'"
  by (auto simp: put_reg_def stepped_def rest_def gas_left_def clean_def split: if_splits)

lemma set_gas_frame:
  "gas_left (set_gas cs (m \<lparr> bigheap := h, out := t \<rparr>)) = gas_left (set_gas cs m)"
  "rest (set_gas cs m') = rest m'" "bigheap (set_gas cs m') = bigheap m'" "out (set_gas cs m') = out m'"
  by (simp_all add: gas_left_def set_gas_def rest_def cong: if_cong)

lemma UseGas_stepped:
  assumes "room 65 m"
  obtains m' where "UseGas v m = Inr m'" "stepped (unat v) 65 m m'" "same_stack m m'" "clean 51 m \<longrightarrow> clean 0 m'"
proof -
  obtain cs h t where u: "UseGas v m = Inr (set_gas cs (m \<lparr> bigheap := h, out := t \<rparr>))"
      "gas_left (set_gas cs m) = gas_left m - unat v" "length cs = 4"
      "t = out m @ (if gas_left m < unat v then out_of_gas else [])"
      "heap_pos h = heap_pos (bigheap m) + 65" "clean 51 m \<Longrightarrow> clean 0 (m \<lparr> bigheap := h \<rparr>)"
    using UseGas_val [OF assms] by blast
  then have "clean 51 m \<longrightarrow> clean 0 (set_gas cs (m \<lparr> bigheap := h, out := t \<rparr>))"
    by (simp add: clean_def set_gas_def)
  moreover have "stepped (unat v) 65 m (set_gas cs (m \<lparr> bigheap := h, out := t \<rparr>))"
    using u(2-) calculation by (auto simp: stepped_def set_gas_frame intro: clean_mono) (simp_all add: rest_def)
  ultimately show ?thesis using u(1) that by (simp add: same_stack_def set_gas_def)
qed

lemma UseGas_full: "\<not> room 64 m \<Longrightarrow> UseGas v m = Inl NullDeref"
  by (simp add: UseGas_def reg_conv_full)

lemma reg_arg_stepped:
  assumes "room 65 m" and "k < 512"
  obtains a m' where "reg_arg (4 * int k) m = Inr (a, m')" "num a (elem m k)" "stepped 0 65 m m'" "same_stack m m'"
proof -
  obtain a h where r: "reg_arg (4 * int k) m = Inr (a, m \<lparr> bigheap := h \<rparr>)" "num a (elem m k)"
      "heap_pos h = heap_pos (bigheap m) + 65" "clean 51 m \<Longrightarrow> clean 0 (m \<lparr> bigheap := h \<rparr>)"
    using reg_arg_val [OF assms] by blast
  have "stepped 0 65 m (m \<lparr> bigheap := h \<rparr>)" using r(3,4) by (intro stepped_heap) (auto intro: clean_mono)
  with r same_stack_heap that show ?thesis by blast
qed

lemma room_stepped: "stepped g k m m' \<Longrightarrow> room j m' \<longleftrightarrow> room (k + j) m"
  by (simp add: stepped_def room_def add.assoc)

lemma push_result:
  assumes "num r x" and "n < 512" and "stack_list m n = st"
  obtains m' where "rbind (v_bignum_bignum_to_reg r) (\<lambda>cs. put_reg (4 * int n) cs m) = Inr m'"
    "stepped 0 0 m m'" "elem m' n = x" "stack_list m' n = st" "sp (env m') = sp (env m)"
proof -
  have x: "unat x < 2 ^ 256" using unsigned_less [of x, where 'a = nat] by simp
  obtain m' where p: "put_reg (4 * int n) (map (limb (unat x)) [0..<4]) m = Inr m'"
      "elem m' n = of_nat (unat x)" "\<And>j. j \<noteq> n \<Longrightarrow> elem m' j = elem m j"
      "m' = m \<lparr> env := (env m) \<lparr> stack_arr := stack_arr (env m') \<rparr> \<rparr>"
    using elem_put_limbs [OF x assms(2)] by blast
  moreover have "sp (env m') = sp (env m)" by (subst p(4)) simp
  moreover have "stack_list m' n = st" using stack_list_cong [of n m' m] p(3) assms(3) by simp
  ultimately show ?thesis using that stepped_put [OF p(1)] num_reg [OF assms(1)] by simp
qed

lemma and_255: "(w :: u64) AND 0xFF = take_bit 8 w"
  by (simp add: take_bit_eq_mask mask_eq_decr_exp)

lemma low_byte:
  "unat (ucast (drop_bit 56 (elem_reg m k 0) AND 0xFF) :: u8) = unat (elem m k) mod 256"
proof -
  have d: "(2 :: nat) ^ 64 = 256 * 72057594037927936" by simp
  have "unat (elem m k) mod 256 = unat (bswap64 (elem_reg m k 0)) mod 256"
    unfolding unat_elem reg_val_def sum_upto_4 by (simp add: mod_add_eq [symmetric] mod_mult_right_eq [symmetric])
  also have "\<dots> = unat (ucast (bswap64 (elem_reg m k 0)) :: u8)"
    by (simp add: unat_ucast_mod)
  also have "(ucast (bswap64 (elem_reg m k 0)) :: u8) = ucast (drop_bit 56 (elem_reg m k 0) AND 0xFF)"
    unfolding and_255 by (rule bit_word_eqI) (auto simp: bit_simps bit_bswap64)
  finally show ?thesis by simp
qed

lemma same_outside_stepped:
  assumes "same_outside (heap_pos (bigheap m)) k (bigheap m) h" and "k \<le> 51"
  shows "stepped 0 0 m (m \<lparr> bigheap := h \<rparr>)"
  using assms by (intro stepped_heap) (auto simp: same_outside_def clean_def)

lemma stepped_charge:
  assumes "stepped g k m m1" and "stepped 0 0 m1 m2"
  shows "stepped g k m m2"
  using stepped_trans [OF assms] by simp

lemma clean_after: "stepped g k m m' \<Longrightarrow> clean 51 m \<Longrightarrow> clean 51 m'"
  by (simp add: stepped_def)

lemma room_less: "room k m \<Longrightarrow> j \<le> k \<Longrightarrow> room j m"
  by (simp add: room_def)

lemma two_args:
  assumes "holds m (x # y # st)" and "room 130 m"
  obtains a b m1 m2 where "reg_arg (int32 (sp (env m)) - 3) m = Inr (a, m1)" "reg_arg (int32 (sp (env m)) - 7) m1 = Inr (b, m2)"
    "num a x" "num b y" "stepped 0 130 m m2" "same_stack m m2"
proof -
  define n where "n = length st"
  have d: "depth m (Suc (Suc n))" "elem m (Suc n) = x" "elem m n = y"
    using assms(1) by (simp_all add: holds_Cons stack_list_Suc n_def)
  then have n: "Suc n < 512" by (simp add: depth_def)
  have s: "int32 (sp (env m)) - 3 = 4 * int (Suc n)" "int32 (sp (env m)) - 7 = 4 * int n" using depth_int32 [OF d(1)] by simp_all
  obtain a m1 where a: "reg_arg (4 * int (Suc n)) m = Inr (a, m1)" "num a x" "stepped 0 65 m m1" "same_stack m m1"
    using reg_arg_stepped [OF room_less [OF assms(2), of 65] n] d(2) by auto
  have "room 65 m1" using room_stepped [OF a(3)] assms(2) by simp
  then obtain b m2 where b: "reg_arg (4 * int n) m1 = Inr (b, m2)" "num b y" "stepped 0 65 m1 m2" "same_stack m1 m2"
    using reg_arg_stepped [of m1 n] n d(3) same_stack_elem [OF a(4)] by auto
  show ?thesis using that [of a m1 b m2] a b s stepped_trans [OF a(3) b(3)] same_stack_trans [OF a(4) b(4)] by simp
qed

lemma three_args:
  assumes "holds m (x # y # z # st)" and "room 195 m"
  obtains a b c m1 m2 m3 where "reg_arg (int32 (sp (env m)) - 3) m = Inr (a, m1)" "reg_arg (int32 (sp (env m)) - 7) m1 = Inr (b, m2)"
    "reg_arg (int32 (sp (env m)) - 11) m2 = Inr (c, m3)"
    "num a x" "num b y" "num c z" "stepped 0 195 m m3" "same_stack m m3"
proof -
  have r: "room 130 m" using assms(2) by (simp add: room_def)
  obtain a b m1 m2 where t: "reg_arg (int32 (sp (env m)) - 3) m = Inr (a, m1)" "reg_arg (int32 (sp (env m)) - 7) m1 = Inr (b, m2)"
      "num a x" "num b y" "stepped 0 130 m m2" "same_stack m m2"
    by (rule two_args [OF assms(1) r])
  have d: "depth m (Suc (Suc (Suc (length st))))" "elem m (length st) = z"
    using assms(1) by (simp_all add: holds_Cons stack_list_Suc)
  have s: "int32 (sp (env m)) - 11 = 4 * int (length st)" using depth_int32 [OF d(1)] by simp
  have "room 65 m2" using room_stepped [OF t(5)] assms(2) by simp
  then obtain c m3 where c: "reg_arg (4 * int (length st)) m2 = Inr (c, m3)" "num c z" "stepped 0 65 m2 m3" "same_stack m2 m3"
    using reg_arg_stepped [of m2 "length st"] d same_stack_elem [OF t(6)] by (auto simp: depth_def)
  show ?thesis using that [of a m1 b m2 c m3] t c s stepped_trans [OF t(5) c(3)] same_stack_trans [OF t(6) c(4)] by simp
qed

lemma finish_op:
  assumes "same_stack m m2" and "same_stack (set_sp (4 * int (length st) + 3) m2) m3" and "num r x"
    and "length st < 512" and "stack_list m (length st) = st"
  obtains m' where "rbind (v_bignum_bignum_to_reg r) (\<lambda>cs. put_reg (4 * int (length st)) cs m3) = Inr m'"
    "stepped 0 0 m3 m'" "holds m' (x # st)"
proof -
  have "elem m3 k = elem m k" for k
    using assms(1,2) by (simp add: same_stack_def set_sp_def elem_def elem_reg_def)
  then have "stack_list m3 (length st) = st" using stack_list_cong [of "length st" m3 m] assms(5) by simp
  then obtain m' where p: "rbind (v_bignum_bignum_to_reg r) (\<lambda>cs. put_reg (4 * int (length st)) cs m3) = Inr m'"
      "stepped 0 0 m3 m'" "elem m' (length st) = x" "stack_list m' (length st) = st" "sp (env m') = sp (env m3)"
    using push_result [OF assms(3,4)] by blast
  have "sp (env m3) = of_int (4 * int (length st) + 3)" using assms(2) by (simp add: same_stack_def set_sp_def)
  then have "depth m' (Suc (length st))" using p(5) assms(4) by (simp add: depth_def algebra_simps)
  with p that show ?thesis by (simp add: holds_Cons)
qed

lemma holds_loaded: "length st \<le> 512 \<Longrightarrow> holds (loaded g st) st"
proof -
  assume l: "length st \<le> 512"
  have "elem (loaded g st) k = rev st ! k" if "k < length st" for k
  proof -
    have x: "unat (rev st ! k) < 2 ^ 256" using unsigned_less [of "rev st ! k", where 'a = nat] by simp
    have "elem_reg (loaded g st) k i = limb (unat (rev st ! k)) i" if "i < 4" for i
    proof -
      have "4 * k + i < 4 * length st" using that \<open>k < length st\<close> by linarith
      then show ?thesis using that by (simp add: elem_reg_def loaded_def)
    qed
    then have "reg_val (elem_reg (loaded g st) k) = unat (rev st ! k)"
      using reg_val_cong [of "elem_reg (loaded g st) k" "limb (unat (rev st ! k))"] reg_val_limb [OF x] by simp
    then show ?thesis by (simp add: elem_def)
  qed
  then have "stack_list (loaded g st) (length st) = st"
    by (intro nth_equalityI) (simp_all add: stack_list_def rev_nth)
  moreover have "depth (loaded g st) (length st)" using l by (simp add: depth_def loaded_def)
  ultimately show ?thesis by (simp add: holds_def)
qed

lemma loaded_simps [simp]:
  "clean k (loaded g st)" "room k (loaded g st) \<longleftrightarrow> k \<le> 2080" "out (loaded g st) = []"
  "g < 2 ^ 256 \<Longrightarrow> gas_left (loaded g st) = g" "mainStorage (loaded g st) = None"
  by (simp_all add: loaded_def boot_def clean_def room_def empty_heap_def HEAP_SIZE_def gas_left_def reg_val_limb)

end
