(* ===== verification/Evm_Arith.thy ===== *)
theory Evm_Arith
  imports Evm_Gas
begin

unbundle bit_operations_syntax

text \<open>
  Arithmetic on the evaluation stack: \<^verbatim>\<open>DoArithm\<close> of \<^verbatim>\<open>target-ppdl/functions.c\<close>. It reads two or three
  elements into 256-bit numbers, charges the gas, computes and writes the cells of the result.

  The lemmas relate it to the operations \<open>arith2\<close> and \<open>arith3\<close> on 256-bit words: the arguments are popped, the
  result is pushed, the gas is charged and everything else is left alone. Where the code departs from the
  operation its name announces, the word operation says what it computes.
\<close>

section \<open>Arithmetic\<close>

partial_function (option) exp_loop :: "vbig \<Rightarrow> vbig \<Rightarrow> vbig \<Rightarrow> vbig \<Rightarrow> vbig run option" where
  "exp_loop a tmp tmp2 b =
     (if v_bignum_eq_one b then Some (Inr a)
      else case v_bignum_mul a tmp2 of
             Inl e \<Rightarrow> Some (Inl e)
           | Inr a1 \<Rightarrow> exp_loop a1 tmp tmp2 (v_bignum_sub False b tmp))"

definition signextend :: "u8 \<Rightarrow> vbig \<Rightarrow> vbig" where
  "signextend byte b =
     (if byte < 31 then
        let t = 8 * byte + 7
        in fold (\<lambda>i tmp. if v_bignum_bit_test b (ucast t) then v_bignum_bit_set tmp (of_nat i)
                         else v_bignum_bit_clear tmp (of_nat i)) [unat t + 1..<256] b
      else b)"

definition div_on :: "vbig \<Rightarrow> vbig \<Rightarrow> machine \<Rightarrow> (vbig \<times> machine) run" where
  "div_on a b m =
     rbind (v_bignum_div a b (Some big256) (bigheap m)) (\<lambda>(a', _, h). Inr (a', m \<lparr> bigheap := h \<rparr>))"

definition mod_on :: "vbig \<Rightarrow> vbig \<Rightarrow> machine \<Rightarrow> (vbig \<times> machine) run" where
  "mod_on a b m = rbind (v_bignum_mod a b (bigheap m)) (\<lambda>(a', h). Inr (a', m \<lparr> bigheap := h \<rparr>))"

text \<open>
  The two \<^verbatim>\<open>switch\<close> statements of \<^verbatim>\<open>DoArithm\<close>: \<open>arith_args\<close> reads the arguments and gives the index of
  the result, \<open>arith_op\<close> computes. \<open>arg1\<close> is the first cell of the first argument.
\<close>

definition arith_args :: "nat \<Rightarrow> machine \<Rightarrow> (int \<times> vbig \<times> vbig \<times> vbig \<times> machine) run" where
  "arith_args op m =
     (let s = int32 (sp (env m)) in
      if op \<in> {1, 2, 3, 4, 5, 6, 7, 10, 11} then
        rbind (reg_arg (s - 3) m) (\<lambda>(a, m1).
        rbind (reg_arg (s - 7) m1) (\<lambda>(b, m2). Inr (s - (2 * 4 - 1), a, b, big256, m2)))
      else if op \<in> {8, 9} then
        rbind (reg_arg (s - 3) m) (\<lambda>(a, m1).
        rbind (reg_arg (s - 7) m1) (\<lambda>(b, m2).
        rbind (reg_arg (s - 11) m2) (\<lambda>(c, m3). Inr (s - (3 * 4 - 1), a, b, c, m3))))
      else Inr (s, big256, big256, big256, m))"

definition arith_op :: "nat \<Rightarrow> vbig \<Rightarrow> vbig \<Rightarrow> vbig \<Rightarrow> u64 \<Rightarrow> machine \<Rightarrow> (vbig \<times> machine) run" where
  "arith_op op a b c arg1 m =
     (if op = 1 then rbind (UseGas STEPGAS2 m) (\<lambda>m. Inr (v_bignum_add a b, m))
      else if op = 2 then rbind (UseGas STEPGAS3 m) (\<lambda>m. rbind (v_bignum_mul a b) (\<lambda>a1. Inr (a1, m)))
      else if op = 3 then rbind (UseGas STEPGAS2 m) (\<lambda>m. Inr (v_bignum_sub False a b, m))
      else if op = 4 \<or> op = 5 then rbind (UseGas STEPGAS3 m) (div_on a b)
      else if op = 6 then rbind (UseGas STEPGAS3 m) (mod_on a b)
      else if op = 7 then rbind (UseGas STEPGAS3 m) (\<lambda>m.
        let tmp = (if v_bignum_bit_test a 255
                   then v_bignum_sub False (v_bignum_set_zero big256) (v_bignum_set_one big256)
                   else v_bignum_set_one (v_bignum_set_zero big256))
        in rbind (mod_on a b m) (\<lambda>(a1, m). rbind (v_bignum_mul a1 tmp) (\<lambda>a2. Inr (a2, m))))
      else if op = 8 then rbind (UseGas STEPGAS4 m) (mod_on (v_bignum_add a b) c)
      else if op = 9 then rbind (UseGas STEPGAS4 m) (\<lambda>m. rbind (v_bignum_mul a b) (\<lambda>a1. mod_on a1 c m))
      else if op = 10 then rbind (UseGas STEPGAS5 m) (\<lambda>m.
        if v_bignum_eq_zero b then Inr (v_bignum_set_one a, m)
        else case exp_loop a (v_bignum_set_one big256) (v_bignum_set_bignum big256 a) b of
               None \<Rightarrow> Inl Diverges
             | Some r \<Rightarrow> rbind r (\<lambda>a1. Inr (a1, m)))
      else if op = 11 then rbind (UseGas STEPGAS3 m) (\<lambda>m.
        Inr (v_bignum_set_bignum a
               (signextend (ucast (drop_bit (7 * 8) arg1 AND 0xFF)) (v_bignum_set_bignum big256 b)), m))
      else Inr (a, m))"

definition DoArithm :: "u32 \<Rightarrow> machine \<Rightarrow> machine run" where
  "DoArithm opcode m =
     (let op = unat opcode;
          arg1 = stack_arr (env m) (nat (int32 (sp (env m)) - 3))
      in rbind (arith_args op m) (\<lambda>(s, a, b, c, m1).
         rbind (arith_op op a b c arg1 (set_sp (s + 3) m1)) (\<lambda>(r, m2).
         rbind (v_bignum_bignum_to_reg r) (\<lambda>cs. put_reg s cs m2))))"

section \<open>The operations on words\<close>

text \<open>
  \<open>evm_mod\<close> is the remainder the code delivers: zero for a zero divisor, and without its top bit when the dividend has bit 255
  and is smaller than the divisor. Division is unsigned for both codes 4 and 5; code 7 negates the unsigned remainder when
  the dividend has bit 255; codes 8 and 9 reduce a sum and product that have already wrapped around.
\<close>

definition evm_mod :: "u256 \<Rightarrow> u256 \<Rightarrow> u256" where
  "evm_mod x y = (if y = 0 then 0 else of_nat (div_rem 16 (unat x) (unat y)))"

definition sign_extend :: "nat \<Rightarrow> u256 \<Rightarrow> u256" where
  "sign_extend k y = (if k < 31 then signed_take_bit (8 * k + 7) y else y)"

definition arith2 :: "nat \<Rightarrow> u256 \<Rightarrow> u256 \<Rightarrow> u256" where
  "arith2 op x y =
     (if op = 1 then x + y else if op = 2 then x * y else if op = 3 then x - y
      else if op = 4 \<or> op = 5 then x div y else if op = 6 then evm_mod x y
      else if op = 7 then (if bit x 255 then - evm_mod x y else evm_mod x y)
      else if op = 10 then x ^ unat y else sign_extend (unat x mod 256) y)"

definition arith3 :: "nat \<Rightarrow> u256 \<Rightarrow> u256 \<Rightarrow> u256 \<Rightarrow> u256" where
  "arith3 op x y z = (if op = 8 then evm_mod (x + y) z else evm_mod (x * y) z)"

definition arith_gas :: "nat \<Rightarrow> nat" where
  "arith_gas op = (if op = 1 \<or> op = 3 then 3 else if op = 8 \<or> op = 9 then 8 else if op = 10 then 10 else 5)"

definition binary_ops :: "nat set" where
  "binary_ops = {1, 2, 3, 4, 5, 6, 7, 10, 11}"


section \<open>Loops of the arithmetic\<close>

lemma exp_loop_val:
  assumes "num a x" and "num one 1" and "num base z" and "num b (of_nat (Suc n))" and "Suc n < 2 ^ 256"
  shows "\<exists>r. exp_loop a one base b = Some (Inr r) \<and> num r (x * z ^ n)"
  using assms(1,4,5)
proof (induction n arbitrary: a x b)
  case 0
  then show ?case by (subst exp_loop.simps) (simp add: num_eq_one)
next
  case (Suc n)
  have "of_nat (Suc (Suc n)) \<noteq> (1 :: u256)"
  proof
    assume "of_nat (Suc (Suc n)) = (1 :: u256)"
    then have "unat (of_nat (Suc (Suc n)) :: u256) = 1" by (simp only: unat_1)
    then show False using Suc.prems(3) by (simp only: unat_of_nat) simp
  qed
  then have ne: "\<not> v_bignum_eq_one b" using num_eq_one [OF Suc.prems(2)] by blast
  have b: "num (v_bignum_sub False b one) (of_nat (Suc n))"
    using num_sub [OF Suc.prems(2) assms(2)] by simp
  obtain a1 where a: "v_bignum_mul a base = Inr a1" "num a1 (x * z)" using num_mul [OF Suc.prems(1) assms(3)] by blast
  have "Suc n < 2 ^ 256" using Suc.prems(3) by linarith
  from Suc.IH [OF a(2) b this] show ?case
    by (subst exp_loop.simps) (simp add: ne a(1) mult.assoc)
qed

lemma unat_set_bit:
  fixes w :: u256
  assumes "i < 256"
  shows "unat (set_bit i w) = set_bit i (unat w)" "unat (unset_bit i w) = unset_bit i (unat w)"
  using assms by (auto intro!: bit_eqI simp: bit_simps bit_unsigned_iff dest: bit_imp_le_length)

lemma num_fold_bits:
  assumes "num a y" and "\<forall>i \<in> set ks. i < 256"
  shows "num (fold (\<lambda>i tmp. if t then v_bignum_bit_set tmp (of_nat i) else v_bignum_bit_clear tmp (of_nat i)) ks a)
    (fold (\<lambda>i w. if t then set_bit i w else unset_bit i w) ks y)"
  using assms
proof (induction ks arbitrary: a y)
  case (Cons i ks)
  have u: "unat (of_nat i :: u32) = i" using Cons.prems(2) by (simp add: unat_of_nat)
  have "num (if t then v_bignum_bit_set a (of_nat i) else v_bignum_bit_clear a (of_nat i)) (if t then set_bit i y else unset_bit i y)"
    using Cons.prems u by (auto simp: num_def v_bignum_bit_set_val v_bignum_bit_clear_val unat_set_bit)
  then show ?case using Cons by simp
qed simp

lemma bit_fold_bits:
  fixes y :: u256
  shows "bit (fold (\<lambda>i w. if t then set_bit i w else unset_bit i w) ks y) n
    = (if n < 256 \<and> n \<in> set ks then t else bit y n)"
  by (induction ks arbitrary: y) (auto simp: bit_simps dest: bit_imp_le_length)

lemma signextend_val:
  assumes "num b y"
  shows "num (signextend k b) (sign_extend (unat k) y)"
proof (cases "k < 31")
  case True
  then have k: "unat k < 31" by (simp add: word_less_nat_alt)
  define t where "t = 8 * unat k + 7"
  have "unat (8 * k + 7 :: u8) = t" using k by (simp add: t_def unat_word_ariths)
  then have u: "unat (ucast (8 * k + 7 :: u8) :: u32) = t" "unat (8 * k + 7 :: u8) = t"
    by (simp_all add: unat_ucast_le)
  have "signextend k b = fold (\<lambda>i tmp. if bit y t then v_bignum_bit_set tmp (of_nat i)
      else v_bignum_bit_clear tmp (of_nat i)) [t + 1..<256] b"
    unfolding signextend_def Let_def u num_bit [OF assms] using True by simp
  moreover have "num (fold (\<lambda>i tmp. if bit y t then v_bignum_bit_set tmp (of_nat i)
      else v_bignum_bit_clear tmp (of_nat i)) [t + 1..<256] b)
      (fold (\<lambda>i w. if bit y t then set_bit i w else unset_bit i w) [t + 1..<256] y)"
    using num_fold_bits [OF assms] by simp
  moreover have "fold (\<lambda>i w. if bit y t then set_bit i w else unset_bit i w) [t + 1..<256] y = signed_take_bit t y"
  proof (rule bit_eqI)
    fix n
    assume "possible_bit TYPE(u256) n"
    then have n: "n < 256" by simp
    show "bit (fold (\<lambda>i w. if bit y t then set_bit i w else unset_bit i w) [t + 1..<256] y) n = bit (signed_take_bit t y) n"
    proof (cases "t \<le> n")
      case True
      then have "n \<in> set [t + 1..<256] \<or> n = t" using n by auto
      then show ?thesis unfolding bit_fold_bits bit_signed_take_bit_iff using n True by (auto simp: min_def)
    qed (auto simp: bit_fold_bits bit_signed_take_bit_iff min_def n)
  qed
  ultimately show ?thesis using k by (simp add: sign_extend_def t_def)
next
  case False
  then show ?thesis using assms by (simp add: signextend_def sign_extend_def word_less_nat_alt)
qed

section \<open>Operations after the arguments are read\<close>

lemma div_on_val:
  assumes "num a x" and "num b y" and "room 34 m"
  obtains r m' where "div_on a b m = Inr (r, m')" "num r (x div y)" "stepped 0 0 m m'" "same_stack m m'"
proof (cases "y = 0")
  case True
  then have "div_on a b m = Inr (v_bignum_set_zero a, m)"
    using assms(2) v_bignum_div_zero [of b a] by (simp add: div_on_def num_def)
  moreover have "num (v_bignum_set_zero a) (x div y)" using True num_zero [OF num_len [OF assms(1)]] by simp
  ultimately show ?thesis using that stepped_refl by (simp add: same_stack_def)
next
  case False
  then have "bval b \<noteq> 0" using assms(2) by (simp add: num_def unat_eq_zero)
  with v_bignum_div_val [of b a "bigheap m" "Some big256"] assms obtain r work h where
    d: "v_bignum_div a b (Some big256) (bigheap m) = Inr (r, Some work, h)" "length r = 16" "bval r = bval a div bval b"
      "same_outside (heap_pos (bigheap m)) 34 (bigheap m) h"
    by (auto simp: num_def room_def)
  have "num r (x div y)" using d(2,3) assms(1,2) by (simp add: num_def unat_div)
  then show ?thesis using that d(1) same_outside_stepped [OF d(4)] same_stack_heap by (simp add: div_on_def)
qed

lemma mod_on_val:
  assumes "num a x" and "num b y" and "room 51 m" and "clean 0 m"
  obtains r m' where "mod_on a b m = Inr (r, m')" "num r (evm_mod x y)" "stepped 0 0 m m'" "same_stack m m'"
proof (cases "y = 0")
  case True
  then have "bval b = 0" using assms(2) by (simp add: num_def)
  with v_bignum_mod_zero [of b a "bigheap m"] assms obtain h where
    d: "v_bignum_mod a b (bigheap m) = Inr (heap_number (heap_pos (bigheap m)) 16 (bigheap m), h)"
      "same_outside (heap_pos (bigheap m)) 17 (bigheap m) h"
    by (auto simp: num_def room_def)
  have "heap_number (heap_pos (bigheap m)) 16 (bigheap m) = replicate 16 0"
    using assms(4) by (intro nth_equalityI) (simp_all add: heap_number_def clean_def)
  then have "num (heap_number (heap_pos (bigheap m)) 16 (bigheap m)) (evm_mod x y)"
    using True by (simp add: num_def evm_mod_def)
  then show ?thesis using that d(1) same_outside_stepped [OF d(2)] same_stack_heap by (simp add: mod_on_def)
next
  case False
  then have "bval b \<noteq> 0" using assms(2) by (simp add: num_def unat_eq_zero)
  with v_bignum_mod_val [of b a "bigheap m"] assms obtain r h where
    d: "v_bignum_mod a b (bigheap m) = Inr (r, h)" "length r = 16" "bval r = div_rem 16 (bval a) (bval b)"
      "same_outside (heap_pos (bigheap m)) 51 (bigheap m) h"
    by (auto simp: num_def room_def)
  have "num r (evm_mod x y)" using d(2,3) assms(1,2) False num_of_nat [of r] by (simp add: num_def evm_mod_def)
  then show ?thesis using that d(1) same_outside_stepped [OF d(4)] same_stack_heap by (simp add: mod_on_def)
qed

lemma num_ones:
  "num (v_bignum_set_one big256) 1" "num (v_bignum_set_one (v_bignum_set_zero big256)) 1"
  "num (v_bignum_sub False (v_bignum_set_zero big256) (v_bignum_set_one big256)) (- 1)"
  using num_sub [OF num_zero num_one, of big256 big256] by (simp_all add: big256_def num_one)

lemma num_copy256: "num a x \<Longrightarrow> num (v_bignum_set_bignum big256 a) x"
  by (rule num_copy) (simp_all add: big256_def)

lemma exp_val:
  assumes "num a x" and "num b y" and "y \<noteq> 0"
  obtains w where "exp_loop a (v_bignum_set_one big256) (v_bignum_set_bignum big256 a) b = Some (Inr w)" "num w (x ^ unat y)"
proof -
  from assms(3) obtain n where n: "unat y = Suc n" by (metis not0_implies_Suc unat_eq_zero)
  then have "num b (of_nat (Suc n))" "Suc n < 2 ^ 256"
    using assms(2) unsigned_less [of y, where 'a = nat] by (simp_all add: num_def flip: n)
  then show ?thesis using that n exp_loop_val [OF assms(1) num_ones(1) num_copy256 [OF assms(1)], of b n] by auto
qed

lemma smod_val:
  assumes "num a x" and "num r (evm_mod x y)"
  shows "\<exists>w. v_bignum_mul r (if v_bignum_bit_test a 255
      then v_bignum_sub False (v_bignum_set_zero big256) (v_bignum_set_one big256)
      else v_bignum_set_one (v_bignum_set_zero big256)) = Inr w \<and> num w (arith2 7 x y)"
  using num_mul [OF assms(2) num_ones(2)] num_mul [OF assms(2) num_ones(3)] num_bit [OF assms(1), of 255]
  by (simp add: arith2_def)

text \<open>One operation on two arguments, after the gas has been charged.\<close>

lemma arith_op_charged:
  assumes op: "op \<in> binary_ops" and a: "num a x" and b: "num b y"
    and arg: "unat (ucast (drop_bit (7 * 8) arg1 AND 0xFF) :: u8) = unat x mod 256"
    and g: "UseGas (of_nat (arith_gas op)) m = Inr m1" and room: "room 51 m1" and clean: "clean 0 m1"
  shows "\<exists>w m2. arith_op op a b c arg1 m = Inr (w, m2) \<and> num w (arith2 op x y) \<and> stepped 0 0 m1 m2 \<and> same_stack m1 m2"
proof -
  note gas = STEPGAS2_def STEPGAS3_def STEPGAS5_def
  have room34: "room 34 m1" using room by (simp add: room_def)
  have ret: "stepped 0 0 m1 m1" "same_stack m1 m1" by (simp_all add: stepped_refl same_stack_def)
  consider "op = 1" | "op = 2" | "op = 3" | "op = 4 \<or> op = 5" | "op = 6 \<or> op = 7" | "op = 10" | "op = 11"
    using op by (auto simp: binary_ops_def)
  then show ?thesis
  proof cases
    case 1
    with g num_add [OF a b] ret show ?thesis by (auto simp: arith_op_def arith_gas_def gas arith2_def)
  next
    case 2
    with g num_mul [OF a b] ret show ?thesis by (auto simp: arith_op_def arith_gas_def gas arith2_def)
  next
    case 3
    with g num_sub [OF a b] ret show ?thesis by (auto simp: arith_op_def arith_gas_def gas arith2_def)
  next
    case 4
    obtain q m2 where "div_on a b m1 = Inr (q, m2)" "num q (x div y)" "stepped 0 0 m1 m2" "same_stack m1 m2"
      using div_on_val [OF a b room34] by blast
    with 4 g show ?thesis by (auto simp: arith_op_def arith_gas_def gas arith2_def)
  next
    case 5
    obtain r m2 where r: "mod_on a b m1 = Inr (r, m2)" "num r (evm_mod x y)" "stepped 0 0 m1 m2" "same_stack m1 m2"
      using mod_on_val [OF a b room clean] by blast
    with 5 g smod_val [OF a r(2)] show ?thesis by (auto simp: arith_op_def arith_gas_def gas arith2_def)
  next
    case 6
    show ?thesis
    proof (cases "y = 0")
      case True
      with 6 g ret num_eq_zero [OF b] num_one [OF num_len [OF a]] show ?thesis
        by (auto simp: arith_op_def arith_gas_def gas arith2_def)
    next
      case False
      obtain w where "exp_loop a (v_bignum_set_one big256) (v_bignum_set_bignum big256 a) b = Some (Inr w)" "num w (x ^ unat y)"
        using exp_val [OF a b False] by blast
      with 6 g ret num_eq_zero [OF b] False show ?thesis
        by (auto simp: arith_op_def arith_gas_def gas arith2_def)
    qed
  next
    case 7
    have "num (v_bignum_set_bignum a (signextend (ucast (drop_bit (7 * 8) arg1 AND 0xFF)) (v_bignum_set_bignum big256 b)))
        (sign_extend (unat x mod 256) y)"
      using num_copy [OF signextend_val [OF num_copy256 [OF b]] num_len [OF a]] unfolding arg [symmetric] .
    with 7 g ret show ?thesis by (auto simp: arith_op_def arith_gas_def gas arith2_def)
  qed
qed

lemma arith_op_binary:
  assumes "op \<in> binary_ops" and "num a x" and "num b y"
    and "unat (ucast (drop_bit (7 * 8) arg1 AND 0xFF) :: u8) = unat x mod 256"
    and "room 116 m" and "clean 51 m"
  obtains r m' where "arith_op op a b c arg1 m = Inr (r, m')" "num r (arith2 op x y)"
    "stepped (arith_gas op) 65 m m'" "same_stack m m'"
proof -
  have "room 65 m" using assms(5) by (simp add: room_def)
  moreover have "unat (of_nat (arith_gas op) :: u64) = arith_gas op" by (simp add: arith_gas_def)
  ultimately obtain m1 where g: "UseGas (of_nat (arith_gas op)) m = Inr m1" "stepped (arith_gas op) 65 m m1"
      "same_stack m m1" "clean 0 m1"
    using UseGas_stepped [of m "of_nat (arith_gas op)"] assms(6) by metis
  have "room 51 m1" using room_stepped [OF g(2)] assms(5) by simp
  from arith_op_charged [OF assms(1-4) g(1) this g(4), of c] show ?thesis
    using that stepped_charge [OF g(2)] same_stack_trans [OF g(3)] by blast
qed

lemma arith_op_ternary:
  assumes "op = 8 \<or> op = 9" and "num a x" and "num b y" and "num c z" and "room 116 m" and "clean 51 m"
  obtains r m' where "arith_op op a b c arg1 m = Inr (r, m')" "num r (arith3 op x y z)"
    "stepped 8 65 m m'" "same_stack m m'"
proof -
  have "room 65 m" using assms(5) by (simp add: room_def)
  then obtain m1 where g: "UseGas STEPGAS4 m = Inr m1" "stepped 8 65 m m1" "same_stack m m1" "clean 0 m1"
    using UseGas_stepped [of m STEPGAS4] assms(6) by (auto simp: STEPGAS4_def)
  have room: "room 51 m1" using room_stepped [OF g(2)] assms(5) by simp
  obtain p where p: "v_bignum_mul a b = Inr p" "num p (x * y)" using num_mul [OF assms(2,3)] by blast
  define s where "s = (if op = 8 then v_bignum_add a b else p)"
  have "num s (if op = 8 then x + y else x * y)" by (simp add: s_def num_add p assms)
  then obtain r m2 where r: "mod_on s c m1 = Inr (r, m2)" "num r (arith3 op x y z)" "stepped 0 0 m1 m2" "same_stack m1 m2"
    using mod_on_val [OF _ assms(4) room g(4), of s] assms(1) by (auto simp: arith3_def split: if_splits)
  then have "arith_op op a b c arg1 m = Inr (r, m2)" using g(1) assms(1) by (auto simp: arith_op_def s_def p)
  then show ?thesis using that r stepped_charge [OF g(2)] same_stack_trans [OF g(3)] by blast
qed

text \<open>The remainder of the code, over words: it is the one of division unless the divisor is zero or the top bit is lost.\<close>

lemma evm_mod_word:
  fixes s z :: u256
  shows "evm_mod s z = (if z = 0 then 0 else if 2 ^ 255 \<le> s \<and> s < z then s - 2 ^ 255 else s mod z)"
proof -
  define H :: u256 where "H = 2 ^ 255"
  have "unat H = 2 ^ 255" by (simp add: H_def)
  then have d: "div_rem 16 X Y = (if unat H \<le> X \<and> X < Y then X - unat H else X mod Y)" for X Y by (simp add: div_rem_def)
  have "of_nat (unat s - unat H) = s - H" if "unat H \<le> unat s"
    using that by (simp add: word_le_nat_alt flip: unat_sub)
  moreover have "of_nat (unat s mod unat z) = s mod z" by (simp flip: unat_mod)
  ultimately have "evm_mod s z = (if z = 0 then 0 else if H \<le> s \<and> s < z then s - H else s mod z)"
    by (simp add: evm_mod_def d word_less_nat_alt word_le_nat_alt)
  then show ?thesis unfolding H_def .
qed

section \<open>The whole routine\<close>

lemma DoArithm_binary:
  assumes op: "unat opcode \<in> binary_ops" and h: "holds m (x # y # st)" and room: "room 246 m" and clean: "clean 51 m"
  obtains m' where "DoArithm opcode m = Inr m'" "holds m' (arith2 (unat opcode) x y # st)"
    "stepped (arith_gas (unat opcode)) 195 m m'"
proof -
  define s where "s = int32 (sp (env m))"
  have d: "depth m (Suc (Suc (length st)))" "elem m (Suc (length st)) = x" "stack_list m (length st) = st"
    using h by (simp_all add: holds_Cons stack_list_Suc)
  have s: "s - 7 = 4 * int (length st)" "s - 3 = 4 * int (Suc (length st))" "length st < 512"
    using depth_int32 [OF d(1)] d(1) by (simp_all add: s_def depth_def)
  obtain a b m1 m2 where t: "reg_arg (s - 3) m = Inr (a, m1)" "reg_arg (s - 7) m1 = Inr (b, m2)"
      "num a x" "num b y" "stepped 0 130 m m2" "same_stack m m2"
    unfolding s_def by (rule two_args [OF h room_less [OF room]]) simp_all
  have args: "arith_args (unat opcode) m = Inr (s - 7, a, b, big256, m2)"
    using op t(1,2) by (auto simp: arith_args_def binary_ops_def Let_def simp flip: s_def)
  define m2' where "m2' = set_sp (s - 7 + 3) m2"
  have st: "stepped 0 130 m m2'" using stepped_charge [OF t(5) stepped_set_sp] by (simp add: m2'_def)
  have rc: "room 116 m2'" "clean 51 m2'" using room_stepped [OF st, of 116] room clean_after [OF st clean] by simp_all
  have arg: "unat (ucast (drop_bit (7 * 8) (stack_arr (env m) (nat (s - 3))) AND 0xFF) :: u8) = unat x mod 256"
    unfolding s(2) nat_4_int using low_byte [of m "Suc (length st)"] d(2) by (simp add: elem_reg_def)
  obtain r m3 where r: "arith_op (unat opcode) a b big256 (stack_arr (env m) (nat (s - 3))) m2' = Inr (r, m3)"
      "num r (arith2 (unat opcode) x y)" "stepped (arith_gas (unat opcode)) 65 m2' m3" "same_stack m2' m3"
    by (rule arith_op_binary [OF op t(3,4) arg rc])
  obtain m' where f: "rbind (v_bignum_bignum_to_reg r) (\<lambda>cs. put_reg (4 * int (length st)) cs m3) = Inr m'"
      "stepped 0 0 m3 m'" "holds m' (arith2 (unat opcode) x y # st)"
    using finish_op [OF t(6) _ r(2) s(3) d(3), of m3] r(4) s(1) by (auto simp: m2'_def)
  have "DoArithm opcode m = Inr m'"
    using args r(1) f(1) s(1) by (simp add: DoArithm_def Let_def m2'_def flip: s_def)
  then show ?thesis using that f stepped_charge [OF stepped_trans [OF st r(3)] f(2)] by simp
qed

lemma DoArithm_ternary:
  assumes op: "unat opcode = 8 \<or> unat opcode = 9" and h: "holds m (x # y # z # st)" and room: "room 311 m" and clean: "clean 51 m"
  obtains m' where "DoArithm opcode m = Inr m'" "holds m' (arith3 (unat opcode) x y z # st)" "stepped 8 260 m m'"
proof -
  define s where "s = int32 (sp (env m))"
  have d: "depth m (Suc (Suc (Suc (length st))))" "stack_list m (length st) = st"
    using h by (simp_all add: holds_Cons stack_list_Suc)
  have s: "s - 11 = 4 * int (length st)" "length st < 512"
    using depth_int32 [OF d(1)] d(1) by (simp_all add: s_def depth_def)
  obtain a b c m1 m2 m3 where t: "reg_arg (s - 3) m = Inr (a, m1)" "reg_arg (s - 7) m1 = Inr (b, m2)"
      "reg_arg (s - 11) m2 = Inr (c, m3)" "num a x" "num b y" "num c z" "stepped 0 195 m m3" "same_stack m m3"
    unfolding s_def by (rule three_args [OF h room_less [OF room]]) simp_all
  have args: "arith_args (unat opcode) m = Inr (s - 11, a, b, c, m3)"
    using op t(1-3) by (auto simp: arith_args_def Let_def simp flip: s_def)
  define m3' where "m3' = set_sp (s - 11 + 3) m3"
  have st: "stepped 0 195 m m3'" using stepped_charge [OF t(7) stepped_set_sp] by (simp add: m3'_def)
  have rc: "room 116 m3'" "clean 51 m3'" using room_stepped [OF st, of 116] room clean_after [OF st clean] by simp_all
  obtain r m4 where r: "arith_op (unat opcode) a b c (stack_arr (env m) (nat (s - 3))) m3' = Inr (r, m4)"
      "num r (arith3 (unat opcode) x y z)" "stepped 8 65 m3' m4" "same_stack m3' m4"
    by (rule arith_op_ternary [OF op t(4-6) rc])
  obtain m' where f: "rbind (v_bignum_bignum_to_reg r) (\<lambda>cs. put_reg (4 * int (length st)) cs m4) = Inr m'"
      "stepped 0 0 m4 m'" "holds m' (arith3 (unat opcode) x y z # st)"
    using finish_op [OF t(8) _ r(2) s(2) d(2), of m4] r(4) s(1) by (auto simp: m3'_def)
  have "DoArithm opcode m = Inr m'"
    using args r(1) f(1) s(1) by (simp add: DoArithm_def Let_def m3'_def flip: s_def)
  then show ?thesis using that f stepped_charge [OF stepped_trans [OF st r(3)] f(2)] by simp
qed

text \<open>An argument that is not there is read below the array; a conversion without heap room returns a null pointer.\<close>

lemma DoArithm_underflow:
  assumes "unat opcode \<in> binary_ops \<union> {8, 9}" and "holds m st" and "length st < 2" and "room 65 m"
  shows "DoArithm opcode m = Inl OutOfBounds"
proof -
  have s: "int32 (sp (env m)) = 4 * int (length st) - 1" using assms(2) depth_int32 by (simp add: holds_def)
  consider "st = []" | x where "st = [x]" using assms(3) by (cases st) auto
  then have "arith_args (unat opcode) m = Inl OutOfBounds"
  proof cases
    case 1
    then show ?thesis using assms(1) s by (auto simp: arith_args_def binary_ops_def reg_arg_underflow)
  next
    case 2
    then have z: "int32 (sp (env m)) - 3 = 4 * int 0" "int32 (sp (env m)) - 7 = - 4" using s by simp_all
    obtain a m1 where "reg_arg (4 * int 0) m = Inr (a, m1)" by (rule reg_arg_stepped [OF assms(4), of 0]) simp_all
    then show ?thesis using assms(1)
      unfolding arith_args_def Let_def z by (auto simp: binary_ops_def reg_arg_underflow)
  qed
  then show ?thesis by (simp add: DoArithm_def Let_def)
qed

lemma DoArithm_heap_full:
  assumes "unat opcode \<in> binary_ops \<union> {8, 9}" and "holds m (x # st)" and "\<not> room 64 m"
  shows "DoArithm opcode m = Inl NullDeref"
proof -
  have d: "depth m (Suc (length st))" using assms(2) by (simp add: holds_Cons)
  then have s: "int32 (sp (env m)) - 3 = 4 * int (length st)" "length st < 512"
    using depth_int32 [OF d] d by (simp_all add: depth_def)
  have "arith_args (unat opcode) m = Inl NullDeref"
    using assms(1) unfolding arith_args_def Let_def s(1) reg_arg_full [OF assms(3) s(2)] by (auto simp: binary_ops_def)
  then show ?thesis by (simp add: DoArithm_def Let_def)
qed

section \<open>Properties\<close>

text \<open>C4: an arithmetic instruction on two arguments replaces the two top elements of the stack by the value of the
  word operation, charges the gas of its code (printing a message when there is not enough), takes 195 cells
  of the big-number heap for good and changes nothing else. Division by zero gives zero, exponentiation
  terminates for every exponent.\<close>

theorem arith_binary_refines:
  assumes "unat opcode \<in> {1, 2, 3, 4, 5, 6, 7, 10, 11}" and "holds m (x # y # st)" and "room 246 m" and "clean 51 m"
  shows "\<exists>m'. DoArithm opcode m = Inr m' \<and> holds m' (arith2 (unat opcode) x y # st)
    \<and> stepped (arith_gas (unat opcode)) 195 m m'"
  using DoArithm_binary [OF assms(1) [folded binary_ops_def] assms(2-)] by metis

theorem arith_binary_refines_witness:
  "\<exists>m'. DoArithm 3 (loaded 100 [7, 9]) = Inr m' \<and> holds m' [- 2] \<and> gas_left m' = 97"
proof -
  have "unat (3 :: u32) \<in> {1, 2, 3, 4, 5, 6, 7, 10, 11}" by simp
  from arith_binary_refines [OF this holds_loaded [of "[7, 9]" 100]] show ?thesis
    by (auto simp: arith2_def arith_gas_def stepped_def)
qed

text \<open>C19: the instructions on three arguments take the sum or product of the first two in 256 bits, so that a carry is lost, and
  replace the arguments by its remainder by the third, with two exceptions: a third argument of zero gives zero, and a sum or
  product with the top bit set that is below the third argument, where the remainder would be the number itself, loses that bit.\<close>

theorem arith_ternary_refines:
  assumes "unat opcode = 8 \<or> unat opcode = 9" and "holds m (x # y # z # st)" and "room 311 m" and "clean 51 m"
    and "s = (if unat opcode = 8 then x + y else x * y)"
  shows "\<exists>m'. DoArithm opcode m = Inr m' \<and> stepped 8 260 m m'
    \<and> holds m' ((if z = 0 then 0 else if 2 ^ 255 \<le> s \<and> s < z then s - 2 ^ 255 else s mod z) # st)"
proof -
  have "arith3 (unat opcode) x y z = (if z = 0 then 0 else if 2 ^ 255 \<le> s \<and> s < z then s - 2 ^ 255 else s mod z)"
    unfolding evm_mod_word [symmetric] by (simp add: arith3_def assms(5))
  moreover obtain m' where "DoArithm opcode m = Inr m'" "holds m' (arith3 (unat opcode) x y z # st)" "stepped 8 260 m m'"
    by (rule DoArithm_ternary [OF assms(1-4)])
  ultimately show ?thesis by (intro exI [of _ m'] conjI) simp_all
qed

theorem arith_ternary_refines_witness:
  "\<exists>m'. DoArithm 8 (loaded 100 [7, 9, 5, 1]) = Inr m' \<and> holds m' [1, 1]"
proof -
  have "unat (8 :: u32) = 8 \<or> unat (8 :: u32) = 9" by simp
  from arith_ternary_refines [OF this holds_loaded [of "[7, 9, 5, 1]" 100] _ _ refl] show ?thesis by auto
qed

text \<open>C21: with fewer than two elements on the stack the routine reads below the array; when the big-number heap
  is used up it dereferences a null pointer, whatever the stack holds.\<close>

theorem arith_errors:
  assumes "unat opcode \<in> {1, 2, 3, 4, 5, 6, 7, 8, 9, 10, 11}" and "holds m st"
  shows "(length st < 2 \<and> room 65 m \<longrightarrow> DoArithm opcode m = Inl OutOfBounds)
    \<and> (st \<noteq> [] \<and> \<not> room 64 m \<longrightarrow> DoArithm opcode m = Inl NullDeref)"
proof -
  have o: "unat opcode \<in> binary_ops \<union> {8, 9}" using assms(1) by (auto simp: binary_ops_def)
  have "DoArithm opcode m = Inl NullDeref" if "st \<noteq> []" "\<not> room 64 m"
    using that assms(2) DoArithm_heap_full [OF o, of m] by (cases st) auto
  then show ?thesis using DoArithm_underflow [OF o assms(2)] by blast
qed

theorem arith_errors_witness:
  "DoArithm 1 (loaded 100 [5]) = Inl OutOfBounds
   \<and> DoArithm 1 (loaded 100 [5] \<lparr> bigheap := \<lparr> heap_cells = (\<lambda>_. 0), heap_pos = 2080 \<rparr> \<rparr>) = Inl NullDeref"
proof -
  have o: "unat (1 :: u32) \<in> {1, 2, 3, 4, 5, 6, 7, 8, 9, 10, 11}" by simp
  have p: "heap_pos (bigheap (loaded 100 [5])) = 0" by (simp add: loaded_def boot_def empty_heap_def)
  have h: "holds (loaded 100 [5]) [5]" by (rule holds_loaded) simp
  then have "holds (loaded 100 [5] \<lparr> bigheap := h \<rparr>) [5]" for h
    by (simp add: holds_Cons depth_def elem_def elem_reg_def stack_list_def)
  from arith_errors [OF o h] arith_errors [OF o this, of "\<lparr> heap_cells = (\<lambda>_. 0), heap_pos = 2080 \<rparr>"] show ?thesis
    by (simp add: room_def HEAP_SIZE_def p)
qed





end
