(* ===== verification/Evm_Compare.thy ===== *)
theory Evm_Compare
  imports Evm_Gas
begin

unbundle bit_operations_syntax

text \<open>
  Comparison and bitwise logic on the evaluation stack: \<^verbatim>\<open>DoCompare\<close> of \<^verbatim>\<open>target-ppdl/functions.c\<close>, related
  to operations on 256-bit words in the way of \<open>Evm_Arith\<close>.
\<close>

section \<open>Comparison and logic\<close>

definition compare_args :: "nat \<Rightarrow> machine \<Rightarrow> (int \<times> vbig \<times> vbig \<times> machine) run" where
  "compare_args op m =
     (let s = int32 (sp (env m)) in
      if op \<in> {5, 9} then
        rbind (reg_arg (s - 3) m) (\<lambda>(a, m1). Inr (s - (1 * 4 - 1), a, big256, m1))
      else if op \<in> {0, 1, 2, 3, 4, 6, 7, 8, 10} then
        rbind (reg_arg (s - 3) m) (\<lambda>(a, m1).
        rbind (reg_arg (s - 7) m1) (\<lambda>(b, m2). Inr (s - (2 * 4 - 1), a, b, m2)))
      else Inr (s, big256, big256, m))"

definition set_truth :: "bool \<Rightarrow> vbig \<Rightarrow> vbig" where
  "set_truth t a = (if t then v_bignum_set_one a else v_bignum_set_zero a)"

definition compare_op :: "nat \<Rightarrow> vbig \<Rightarrow> vbig \<Rightarrow> u64 \<Rightarrow> vbig" where
  "compare_op op a b arg1 =
     (if op = 0 then set_truth (v_bignum_gt False b a) a
      else if op = 1 then set_truth (v_bignum_gt False a b) a
      else if op = 2 then set_truth (v_bignum_gt False b a) a
      else if op = 3 then set_truth (v_bignum_gt False a b) a
      else if op = 4 then set_truth (v_bignum_eq False a b) a
      else if op = 5 then set_truth (v_bignum_eq_zero a) a
      else if op = 6 then v_bignum_and a b
      else if op = 7 then v_bignum_or a b
      else if op = 8 then v_bignum_xor a b
      else if op = 9 then v_bignum_not a
      else v_bignum_set_bignum_part a (Some b) (ucast (255 - (drop_bit (8 * 7) arg1 AND 0xff) * 8)) 8)"

definition DoCompare :: "u32 \<Rightarrow> machine \<Rightarrow> machine run" where
  "DoCompare opcode m =
     (let op = unat opcode;
          arg1 = stack_arr (env m) (nat (int32 (sp (env m)) - 3))
      in rbind (compare_args op m) (\<lambda>(s, a, b, m1).
         let m2 = set_sp (s + 3) m1 in
         rbind (if op \<le> 10 then rbind (UseGas STEPGAS2 m2) (\<lambda>m3. Inr (compare_op op a b arg1, m3))
                else Inr (a, m2)) (\<lambda>(r, m3).
         rbind (v_bignum_bignum_to_reg r) (\<lambda>cs. put_reg s cs m3))))"

text \<open>
  The operations on words. The codes 2 and 3 compare without sign, exactly as 0 and 1; \<open>byte_at\<close> takes its index from
  the low byte of the first argument only.
\<close>

definition byte_at :: "nat \<Rightarrow> u256 \<Rightarrow> u256" where
  "byte_at k y = (if k < 32 then take_bit 8 (drop_bit (248 - 8 * k) y) else 0)"

definition compare1 :: "nat \<Rightarrow> u256 \<Rightarrow> u256" where
  "compare1 op x = (if op = 5 then (if x = 0 then 1 else 0) else NOT x)"

definition compare2 :: "nat \<Rightarrow> u256 \<Rightarrow> u256 \<Rightarrow> u256" where
  "compare2 op x y =
     (if op = 0 \<or> op = 2 then (if x < y then 1 else 0) else if op = 1 \<or> op = 3 then (if x > y then 1 else 0)
      else if op = 4 then (if x = y then 1 else 0) else if op = 6 then x AND y else if op = 7 then x OR y
      else if op = 8 then x XOR y else byte_at (unat x mod 256) y)"

definition compare_binary_ops :: "nat set" where
  "compare_binary_ops = {0, 1, 2, 3, 4, 6, 7, 8, 10}"

section \<open>Lemmas\<close>

lemma num_truth: "length a = 16 \<Longrightarrow> num (set_truth t a) (if t then 1 else 0)"
  by (simp add: set_truth_def num_one num_zero)

lemma byte_index:
  assumes "unat (ucast (drop_bit (8 * 7) (arg1 :: u64) AND 0xff) :: u8) = k"
  shows "k < 32 \<Longrightarrow> unat (ucast (255 - (drop_bit (8 * 7) arg1 AND 0xff) * 8) :: u32) = 255 - 8 * k"
    and "\<not> k < 32 \<Longrightarrow> unat (ucast (255 - (drop_bit (8 * 7) arg1 AND 0xff) * 8) :: u32) > 256"
proof -
  define w :: u64 where "w = drop_bit (8 * 7) arg1 AND 0xff"
  have lt: "unat w < 256" unfolding w_def and_255 unsigned_take_bit_eq
    using take_bit_nat_less_exp [of 8 "unat (drop_bit (8 * 7) arg1)"] by simp
  then have k: "unat w = k" using assms unfolding w_def [symmetric] by (simp add: unat_ucast_mod)
  then have w: "w = of_nat k" by auto
  have eq: "(ucast (255 - w * 8) :: u32) = of_int (255 - 8 * int k)"
  proof -
    have "255 - w * 8 = of_int (255 - 8 * int k)" by (simp add: w)
    then show ?thesis
      by (simp only: unsigned_ucast_eq word_eq_iff_unsigned [where 'a = int] take_bit_of_int uint_word_of_int_eq) simp
  qed
  have u: "unat (ucast (255 - w * 8) :: u32) = nat ((255 - 8 * int k) mod 4294967296)"
    unfolding eq unat_eq_nat_uint uint_word_of_int_eq take_bit_eq_mod by simp
  show "unat (ucast (255 - w * 8) :: u32) = 255 - 8 * k" if "k < 32" unfolding u using that by simp
  have "(255 - 8 * int k) mod 4294967296 = 255 - 8 * int k + 4294967296" if "\<not> k < 32"
  proof -
    have "(255 - 8 * int k) mod 4294967296 = (255 - 8 * int k + 4294967296) mod 4294967296" by (rule mod_add_self2 [symmetric])
    then show ?thesis using that lt k by (simp add: mod_pos_pos_trivial)
  qed
  then show "unat (ucast (255 - w * 8) :: u32) > 256" if "\<not> k < 32" unfolding u using that lt k by simp
qed

lemma byte_val:
  assumes "num a x" and "num b y" and "unat (ucast (drop_bit (8 * 7) (arg1 :: u64) AND 0xff) :: u8) = k"
  shows "num (v_bignum_set_bignum_part a (Some b) (ucast (255 - (drop_bit (8 * 7) arg1 AND 0xff) * 8)) 8) (byte_at k y)"
proof (cases "k < 32")
  case True
  define msb :: u32 where "msb = ucast (255 - (drop_bit (8 * 7) arg1 AND 0xff) * 8)"
  have u: "unat msb = 255 - 8 * k" unfolding msb_def by (rule byte_index(1) [OF assms(3) True])
  have "bval (v_bignum_set_bignum_part a (Some b) msb 8) = bval b div 2 ^ (unat msb + 1 - unat (8::u32)) mod 2 ^ unat (8::u32)"
    using True num_len [OF assms(1)] num_len [OF assms(2)] by (intro v_bignum_set_bignum_part_val) (simp_all add: u)
  moreover have "255 - 8 * k + 1 - 8 = 248 - 8 * k" using True by simp
  ultimately have "bval (v_bignum_set_bignum_part a (Some b) msb 8) = unat y div 2 ^ (248 - 8 * k) mod 2 ^ 8"
    using num_bval [OF assms(2)] by (simp add: u)
  also have "\<dots> = unat (byte_at k y)"
    using True by (simp only: byte_at_def if_True unsigned_take_bit_eq unat_drop_bit) (simp only: take_bit_eq_mod)
  finally show ?thesis unfolding msb_def [symmetric] using num_len [OF assms(1)] by (simp add: num_def)
next
  case False
  then show ?thesis
    using byte_index(2) [OF assms(3)] num_len [OF assms(1)] num_len [OF assms(2)] num_zero [of a]
    by (simp add: v_bignum_set_bignum_part_def byte_at_def)
qed

lemma compare_op_unary:
  assumes "op = 5 \<or> op = 9" and "num a x"
  shows "num (compare_op op a b arg1) (compare1 op x)"
  using assms num_truth [OF num_len [OF assms(2)]] num_not [OF assms(2)] num_eq_zero [OF assms(2)]
  by (auto simp: compare_op_def compare1_def)

lemma compare_op_binary:
  assumes op: "op \<in> compare_binary_ops" and a: "num a x" and b: "num b y"
    and arg: "unat (ucast (drop_bit (8 * 7) arg1 AND 0xff) :: u8) = unat x mod 256"
  shows "num (compare_op op a b arg1) (compare2 op x y)"
  using op num_truth [OF num_len [OF a]] num_gt [OF a b] num_gt [OF b a] num_eq [OF a b]
    num_and [OF a b] num_or [OF a b] num_xor [OF a b] byte_val [OF a b arg]
  by (auto simp: compare_op_def compare2_def compare_binary_ops_def)

section \<open>The whole routine\<close>

lemma DoCompare_binary:
  assumes op: "unat opcode \<in> compare_binary_ops" and h: "holds m (x # y # st)" and room: "room 195 m"
  obtains m' where "DoCompare opcode m = Inr m'" "holds m' (compare2 (unat opcode) x y # st)" "stepped 3 195 m m'"
proof -
  define s where "s = int32 (sp (env m))"
  have d: "depth m (Suc (Suc (length st)))" "elem m (Suc (length st)) = x" "stack_list m (length st) = st"
    using h by (simp_all add: holds_Cons stack_list_Suc)
  have s: "s - 7 = 4 * int (length st)" "s - 3 = 4 * int (Suc (length st))" "length st < 512"
    using depth_int32 [OF d(1)] d(1) by (simp_all add: s_def depth_def)
  obtain a b m1 m2 where t: "reg_arg (s - 3) m = Inr (a, m1)" "reg_arg (s - 7) m1 = Inr (b, m2)"
      "num a x" "num b y" "stepped 0 130 m m2" "same_stack m m2"
    unfolding s_def by (rule two_args [OF h room_less [OF room]]) simp_all
  have args: "compare_args (unat opcode) m = Inr (s - 7, a, b, m2)"
    using op t(1,2) by (auto simp: compare_args_def compare_binary_ops_def Let_def simp flip: s_def)
  define m2' where "m2' = set_sp (s - 7 + 3) m2"
  have st: "stepped 0 130 m m2'" using stepped_charge [OF t(5) stepped_set_sp] by (simp add: m2'_def)
  have arg: "unat (ucast (drop_bit (8 * 7) (stack_arr (env m) (nat (s - 3))) AND 0xff) :: u8) = unat x mod 256"
    unfolding s(2) nat_4_int using low_byte [of m "Suc (length st)"] d(2) by (simp add: elem_reg_def)
  have r65: "room 65 m2'" using room_stepped [OF st, of 65] room by simp
  obtain m3 where g: "UseGas STEPGAS2 m2' = Inr m3" "stepped (unat STEPGAS2) 65 m2' m3" "same_stack m2' m3"
    by (rule UseGas_stepped [OF r65])
  have g3: "stepped 3 65 m2' m3" using g(2) by (simp add: STEPGAS2_def)
  note res = compare_op_binary [OF op t(3,4) arg]
  obtain m' where f: "rbind (v_bignum_bignum_to_reg (compare_op (unat opcode) a b (stack_arr (env m) (nat (s - 3)))))
      (\<lambda>cs. put_reg (4 * int (length st)) cs m3) = Inr m'" "stepped 0 0 m3 m'" "holds m' (compare2 (unat opcode) x y # st)"
    using finish_op [OF t(6) _ res s(3) d(3), of m3] g(3) s(1) by (auto simp: m2'_def)
  have "unat opcode \<le> 10" using op by (auto simp: compare_binary_ops_def)
  then have "DoCompare opcode m = Inr m'"
    using args g(1) f(1) s(1) by (simp add: DoCompare_def Let_def m2'_def flip: s_def)
  then show ?thesis using that f stepped_charge [OF stepped_trans [OF st g3] f(2)] by simp
qed

lemma DoCompare_unary:
  assumes op: "unat opcode = 5 \<or> unat opcode = 9" and h: "holds m (x # st)" and room: "room 130 m"
  obtains m' where "DoCompare opcode m = Inr m'" "holds m' (compare1 (unat opcode) x # st)" "stepped 3 130 m m'"
proof -
  define s where "s = int32 (sp (env m))"
  have d: "depth m (Suc (length st))" "elem m (length st) = x" "stack_list m (length st) = st"
    using h by (simp_all add: holds_Cons)
  have s: "s - 3 = 4 * int (length st)" "length st < 512"
    using depth_int32 [OF d(1)] d(1) by (simp_all add: s_def depth_def)
  have r: "room 65 m" using room by (simp add: room_def)
  obtain a m1 where t: "reg_arg (4 * int (length st)) m = Inr (a, m1)" "num a (elem m (length st))" "stepped 0 65 m m1" "same_stack m m1"
    by (rule reg_arg_stepped [OF r s(2)])
  have args: "compare_args (unat opcode) m = Inr (s - 3, a, big256, m1)"
    using op t(1) s(1) by (auto simp: compare_args_def Let_def simp flip: s_def)
  define m1' where "m1' = set_sp (s - 3 + 3) m1"
  have st: "stepped 0 65 m m1'" using stepped_charge [OF t(3) stepped_set_sp] by (simp add: m1'_def)
  have r65: "room 65 m1'" using room_stepped [OF st, of 65] room by simp
  obtain m3 where g: "UseGas STEPGAS2 m1' = Inr m3" "stepped (unat STEPGAS2) 65 m1' m3" "same_stack m1' m3"
    by (rule UseGas_stepped [OF r65])
  have g3: "stepped 3 65 m1' m3" using g(2) by (simp add: STEPGAS2_def)
  note res = compare_op_unary [OF op t(2) [unfolded d(2)]]
  obtain m' where f: "rbind (v_bignum_bignum_to_reg (compare_op (unat opcode) a big256 (stack_arr (env m) (nat (s - 3)))))
      (\<lambda>cs. put_reg (4 * int (length st)) cs m3) = Inr m'" "stepped 0 0 m3 m'" "holds m' (compare1 (unat opcode) x # st)"
    using finish_op [OF t(4) _ res s(2) d(3), of m3] g(3) s(1) by (auto simp: m1'_def)
  have "unat opcode \<le> 10" using op by auto
  then have "DoCompare opcode m = Inr m'"
    using args g(1) f(1) s(1) by (simp add: DoCompare_def Let_def m1'_def flip: s_def)
  then show ?thesis using that f stepped_charge [OF stepped_trans [OF st g3] f(2)] by simp
qed

section \<open>Properties\<close>

text \<open>C9: a comparison or bitwise instruction on two arguments replaces them by the value of the word operation, with truth
  values one and zero, charges three units of gas and changes nothing else. The signed comparisons compare
  without sign.\<close>

theorem compare_binary_refines:
  assumes "unat opcode \<in> {0, 1, 2, 3, 4, 6, 7, 8, 10}" and "holds m (x # y # st)" and "room 195 m"
  shows "\<exists>m'. DoCompare opcode m = Inr m' \<and> holds m' (compare2 (unat opcode) x y # st) \<and> stepped 3 195 m m'"
  using DoCompare_binary [OF assms(1) [folded compare_binary_ops_def] assms(2-)] by metis

theorem compare_binary_refines_witness:
  "\<exists>m'. DoCompare 2 (loaded 2 [5, - 1]) = Inr m' \<and> holds m' [1] \<and> gas_left m' = 0 \<and> out m' = out_of_gas"
proof -
  have "unat (2 :: u32) \<in> {0, 1, 2, 3, 4, 6, 7, 8, 10}" by simp
  from compare_binary_refines [OF this holds_loaded [of "[5, - 1]" 2]] show ?thesis
    by (auto simp: compare2_def stepped_def)
qed

text \<open>C27: the tests for zero and the complement replace the top element.\<close>

theorem compare_unary_refines:
  assumes "unat opcode = 5 \<or> unat opcode = 9" and "holds m (x # st)" and "room 130 m"
  shows "\<exists>m'. DoCompare opcode m = Inr m' \<and> holds m' (compare1 (unat opcode) x # st) \<and> stepped 3 130 m m'"
  using DoCompare_unary [OF assms] by metis

theorem compare_unary_refines_witness:
  "\<exists>m'. DoCompare 5 (loaded 100 [0, 4]) = Inr m' \<and> holds m' [1, 4]"
proof -
  have "unat (5 :: u32) = 5 \<or> unat (5 :: u32) = 9" by simp
  from compare_unary_refines [OF this holds_loaded [of "[0, 4]" 100]] show ?thesis by (auto simp: compare1_def)
qed

end
