(* ===== verification/Keccak.thy ===== *)
theory Keccak
  imports Prelude
begin

unbundle bit_operations_syntax

text \<open>
  The hash of \<^verbatim>\<open>target-ppdl/Keccak.c\<close> with the byte-order helpers of \<^verbatim>\<open>SHA_Endian.h\<close> and the
  rotations of \<^verbatim>\<open>Rotation.h\<close>. The host is little-endian, as the conversions assume: a 64-bit word
  in memory is its eight bytes, least significant first.

  The model follows the code: the permutation works on the 25 lanes by index assignments in the
  order of the source, the sponge buffers bytes up to the block length. The second part states the
  permutation and the sponge as the Keccak specification does (lanes by coordinates, rotation offsets
  and round constants by their generating recurrences, padding of the whole message) and shows that
  the code computes them.
\<close>

section \<open>Byte order\<close>

definition littleEndian :: bool where
  "littleEndian = (let tn = 0xff00 :: u16; test = ucast tn :: u8 in test = 0)"

definition swapEndian16 :: "u16 \<Rightarrow> u16" where
  "swapEndian16 w =
     (let b0 = ucast (drop_bit 8 w) :: u8; b1 = ucast w :: u8;
          out0 = push_bit 8 (ucast b1 AND 0x00FF); out1 = ucast b0 AND 0x00FF
      in out0 OR out1)"

definition swapEndian32 :: "u32 \<Rightarrow> u32" where
  "swapEndian32 w =
     (let b0 = swapEndian16 (ucast (drop_bit 16 w)); b1 = swapEndian16 (ucast w);
          out0 = push_bit 16 (ucast b1 AND 0x0000FFFF); out1 = ucast b0 AND 0x0000FFFF
      in out0 OR out1)"

definition swapEndian64 :: "u64 \<Rightarrow> u64" where
  "swapEndian64 w =
     (let b0 = swapEndian32 (ucast (drop_bit 32 w)); b1 = swapEndian32 (ucast w);
          out0 = push_bit 32 (ucast b1 AND 0x00000000FFFFFFFF); out1 = ucast b0 AND 0x00000000FFFFFFFF
      in out0 OR out1)"

definition NativeToLittle64 :: "u64 \<Rightarrow> u64" where
  "NativeToLittle64 w = (if littleEndian then w else swapEndian64 w)"

definition LittleToNative64 :: "u64 \<Rightarrow> u64" where
  "LittleToNative64 w = (if littleEndian then w else swapEndian64 w)"

definition NativeToBig64 :: "u64 \<Rightarrow> u64" where
  "NativeToBig64 w = (if littleEndian then swapEndian64 w else w)"

definition BigToNative64 :: "u64 \<Rightarrow> u64" where
  "BigToNative64 w = (if littleEndian then swapEndian64 w else w)"

definition word_bytes :: "u64 \<Rightarrow> u8 list" where
  "word_bytes w = map (\<lambda>k. ucast (drop_bit (8 * k) w)) [0..<8]"

definition bytes_word :: "u8 list \<Rightarrow> u64" where
  "bytes_word bs = foldr (\<lambda>b w. push_bit 8 w OR ucast b) bs 0"

section \<open>Rotations\<close>

definition rotateLeft :: "u64 \<Rightarrow> u32 \<Rightarrow> u64" where
  "rotateLeft x n =
     (let bits = 8 * 8 - 1; n = n AND bits
      in push_bit (unat n) x OR drop_bit (unat ((- n) AND bits)) x)"

definition rotateRight :: "u64 \<Rightarrow> u32 \<Rightarrow> u64" where
  "rotateRight x n =
     (let bits = 8 * 8 - 1; n = n AND bits
      in drop_bit (unat n) x OR push_bit (unat ((- n) AND bits)) x)"

section \<open>The permutation\<close>

definition RC :: "u64 list" where
  "RC = [0x0000000000000001, 0x0000000000008082, 0x800000000000808a,
         0x8000000080008000, 0x000000000000808b, 0x0000000080000001,
         0x8000000080008081, 0x8000000000008009, 0x000000000000008a,
         0x0000000000000088, 0x0000000080008009, 0x000000008000000a,
         0x000000008000808b, 0x800000000000008b, 0x8000000000008089,
         0x8000000000008003, 0x8000000000008002, 0x8000000000000080,
         0x000000000000800a, 0x800000008000000a, 0x8000000080008081,
         0x8000000000008080, 0x0000000080000001, 0x8000000080008008]"

definition R :: "u32 list" where
  "R = [0, 1, 62, 28, 27, 36, 44, 6, 55, 20, 3, 10, 43,
        25, 39, 41, 45, 15, 21, 8, 18, 2, 61, 56, 14]"

function index1 :: "int \<Rightarrow> int" where
  "index1 x = (if x < 0 then index1 (x + 5) else x mod 5)"
  by pat_completeness auto
termination
  by (relation "measure (\<lambda>x. nat (- x))") auto

declare index1.simps [simp del]

definition index2 :: "int \<Rightarrow> int \<Rightarrow> nat" where
  "index2 x y = nat (index1 x + 5 * index1 y)"

text \<open>The unrolled assignments run through the coordinates with \<open>x\<close> outside and \<open>y\<close> inside.\<close>

definition coords :: "(int \<times> int) list" where
  "coords = [(0,0), (0,1), (0,2), (0,3), (0,4), (1,0), (1,1), (1,2), (1,3), (1,4),
             (2,0), (2,1), (2,2), (2,3), (2,4), (3,0), (3,1), (3,2), (3,3), (3,4),
             (4,0), (4,1), (4,2), (4,3), (4,4)]"

definition theta_C :: "u64 list \<Rightarrow> u64 list" where
  "theta_C A = map (\<lambda>x. A ! index2 x 0 XOR A ! index2 x 1 XOR A ! index2 x 2 XOR A ! index2 x 3 XOR A ! index2 x 4)
                [0, 1, 2, 3, 4]"

definition theta_D :: "u64 list \<Rightarrow> int \<Rightarrow> u64" where
  "theta_D C x = C ! nat (index1 (x - 1)) XOR rotateLeft (C ! nat (index1 (x + 1))) 1"

definition keccak_theta :: "u64 list \<Rightarrow> u64 list" where
  "keccak_theta A =
     (let C = theta_C A
      in fold (\<lambda>(x, y) A. A[index2 x y := A ! index2 x y XOR theta_D C x]) coords A)"

definition keccak_rho_pi :: "u64 list \<Rightarrow> u64 list \<Rightarrow> u64 list" where
  "keccak_rho_pi A B =
     fold (\<lambda>(x, y) B. let i = index2 x y in B[index2 y (x * 2 + 3 * y) := rotateLeft (A ! i) (R ! i)]) coords B"

definition keccak_chi :: "u64 list \<Rightarrow> u64 list \<Rightarrow> u64 list" where
  "keccak_chi B A =
     fold (\<lambda>(x, y) A. let i = index2 x y
        in A[i := B ! i XOR (NOT (B ! index2 (x + 1) y) AND B ! index2 (x + 2) y)]) coords A"

text \<open>One round; \<open>B\<close> is the local array, whose previous contents do not matter.\<close>

definition keccak_round :: "nat \<Rightarrow> u64 list \<times> u64 list \<Rightarrow> u64 list \<times> u64 list" where
  "keccak_round n = (\<lambda>(A, B).
     let A1 = keccak_theta A; B1 = keccak_rho_pi A1 B; A2 = keccak_chi B1 A1
     in (A2[0 := A2 ! 0 XOR RC ! n], B1))"

definition keccakf :: "u64 list \<Rightarrow> u64 list" where
  "keccakf A = fst (fold keccak_round [0..<24] (A, replicate 25 0))"

section \<open>The sponge\<close>

record keccakState =
  kA :: "u64 list"
  blockLen :: nat
  kbuffer :: "u8 list"
  bufferLen :: nat
  klength :: nat

definition keccakCreate :: "nat \<Rightarrow> keccakState" where
  "keccakCreate len =
     \<lparr> kA = replicate 25 0, blockLen = 200 - 2 * (len div 8),
       kbuffer = replicate (200 - 2 * (len div 8)) 0, bufferLen = 0, klength = len \<rparr>"

definition keccakReset :: "keccakState \<Rightarrow> keccakState" where
  "keccakReset st = st \<lparr> kA := replicate 25 0, bufferLen := 0 \<rparr>"

definition keccakProcessBuffer :: "keccakState \<Rightarrow> keccakState" where
  "keccakProcessBuffer st =
     (let A = fold (\<lambda>i A. A[i := A ! i XOR LittleToNative64 (bytes_word (take 8 (drop (8 * i) (kbuffer st))))])
                [0..<blockLen st div 8] (kA st)
      in st \<lparr> kA := keccakf A, bufferLen := 0 \<rparr>)"

definition buffer_copy :: "u8 list \<Rightarrow> nat \<Rightarrow> u8 list \<Rightarrow> u8 list" where
  "buffer_copy buf pos bs = take pos buf @ bs @ drop (pos + length bs) buf"

text \<open>
  The loop of \<^verbatim>\<open>keccakUpdate\<close> on the bytes still to copy. With a zero block length it would run
  forever, which is the value \<open>None\<close>.
\<close>

partial_function (option) keccak_update_loop :: "u8 list \<Rightarrow> keccakState \<Rightarrow> keccakState option" where
  "keccak_update_loop data st =
     (if data = [] then Some st
      else
        let room = blockLen st - bufferLen st;
            cpLen = (if room > length data then length data else room);
            st1 = st \<lparr> kbuffer := buffer_copy (kbuffer st) (bufferLen st) (take cpLen data),
                       bufferLen := bufferLen st + cpLen \<rparr>;
            st2 = (if bufferLen st1 = blockLen st1 then keccakProcessBuffer st1 else st1)
        in keccak_update_loop (drop cpLen data) st2)"

definition keccakUpdate :: "u8 list \<Rightarrow> nat \<Rightarrow> nat \<Rightarrow> keccakState \<Rightarrow> keccakState run" where
  "keccakUpdate input off len st =
     (if off + len > length input then Inl OutOfBounds
      else case keccak_update_loop (take len (drop off input)) st of
             None \<Rightarrow> Inl Diverges
           | Some st' \<Rightarrow> Inr st')"

definition keccakAddPadding :: "keccakState \<Rightarrow> keccakState" where
  "keccakAddPadding st =
     (if bufferLen st + 1 = blockLen st then st \<lparr> kbuffer := (kbuffer st)[bufferLen st := 0x81] \<rparr>
      else let b1 = (kbuffer st)[bufferLen st := 0x01];
               b2 = fold (\<lambda>i b. b[i := 0]) [bufferLen st + 1..<blockLen st - 1] b1
           in st \<lparr> kbuffer := b2[blockLen st - 1 := 0x80] \<rparr>)"

text \<open>
  \<^verbatim>\<open>keccakDigest\<close> copies \<open>length / 8\<close> lanes, which for a length of 256 is seven more than the 25
  there are: \<open>beyond\<close> stands for the memory after the array.
\<close>

definition keccakDigest :: "(nat \<Rightarrow> u64) \<Rightarrow> keccakState \<Rightarrow> u64 list \<times> keccakState" where
  "keccakDigest beyond st =
     (let st1 = keccakProcessBuffer (keccakAddPadding st);
          lane = (\<lambda>i. if i < length (kA st1) then kA st1 ! i else beyond (i - length (kA st1)));
          tmp = map (\<lambda>i. NativeToLittle64 (lane i)) [0..<(klength st1 + 7) div 8]
      in (tmp, keccakReset st1))"

section \<open>The permutation of the specification\<close>

type_synonym lanes = "nat \<times> nat \<Rightarrow> u64"

definition lanes_of :: "u64 list \<Rightarrow> lanes" where
  "lanes_of A = (\<lambda>(x, y). A ! (x mod 5 + 5 * (y mod 5)))"

definition column :: "lanes \<Rightarrow> nat \<Rightarrow> u64" where
  "column a x = a (x, 0) XOR a (x, 1) XOR a (x, 2) XOR a (x, 3) XOR a (x, 4)"

definition theta :: "lanes \<Rightarrow> lanes" where
  "theta a = (\<lambda>(x, y). a (x, y) XOR column a (x + 4) XOR word_rotl 1 (column a (x + 1)))"

primrec rho_walk :: "nat \<Rightarrow> nat \<times> nat \<Rightarrow> nat \<Rightarrow> ((nat \<times> nat) \<times> nat) list" where
  "rho_walk 0 xy t = []"
| "rho_walk (Suc n) xy t =
     (xy, ((t + 1) * (t + 2) div 2) mod 64) # rho_walk n (snd xy, (2 * fst xy + 3 * snd xy) mod 5) (t + 1)"

definition rho_offset :: "nat \<times> nat \<Rightarrow> nat" where
  "rho_offset xy = (case map_of (rho_walk 24 (1, 0) 0) xy of None \<Rightarrow> 0 | Some n \<Rightarrow> n)"

definition rho :: "lanes \<Rightarrow> lanes" where
  "rho a = (\<lambda>(x, y). word_rotl (rho_offset (x mod 5, y mod 5)) (a (x, y)))"

definition pi_step :: "lanes \<Rightarrow> lanes" where
  "pi_step a = (\<lambda>(x, y). a (x + 3 * y, x))"

definition chi :: "lanes \<Rightarrow> lanes" where
  "chi a = (\<lambda>(x, y). a (x, y) XOR (NOT (a (x + 1, y)) AND a (x + 2, y)))"

fun lfsr_step :: "bool list \<Rightarrow> bool list" where
  "lfsr_step [r0, r1, r2, r3, r4, r5, r6, r7] = [r7, r0, r1, r2, r3 \<noteq> r7, r4 \<noteq> r7, r5 \<noteq> r7, r6]"
| "lfsr_step r = r"

primrec lfsr_bits :: "nat \<Rightarrow> bool list \<Rightarrow> bool list" where
  "lfsr_bits 0 r = []"
| "lfsr_bits (Suc n) r = hd r # lfsr_bits n (lfsr_step r)"

definition rc_bits :: "bool list" where
  "rc_bits = lfsr_bits 168 [True, False, False, False, False, False, False, False]"

definition round_constant :: "nat \<Rightarrow> u64" where
  "round_constant n = sum_list (map (\<lambda>j. of_bool (rc_bits ! (j + 7 * n)) * 2 ^ (2 ^ j - 1)) [0..<7])"

definition iota :: "nat \<Rightarrow> lanes \<Rightarrow> lanes" where
  "iota n a = (\<lambda>(x, y). if x mod 5 = 0 \<and> y mod 5 = 0 then a (x, y) XOR round_constant n else a (x, y))"

definition keccak_p :: "lanes \<Rightarrow> lanes" where
  "keccak_p a = fold (\<lambda>n a. iota n (chi (pi_step (rho (theta a))))) [0..<24] a"

lemma RC_generated: "RC = map round_constant [0..<24]"
  unfolding RC_def round_constant_def rc_bits_def by code_simp


lemma R_generated: "\<forall>x \<in> set [0..<5]. \<forall>y \<in> set [0..<5]. unat (R ! (x + 5 * y)) = rho_offset (x, y)"
  by code_simp

lemma index1_mod [simp]: "index1 x = x mod 5"
proof (induction x rule: index1.induct)
  case (1 x)
  then show ?case by (subst index1.simps) simp
qed

lemma index2_nat: "index2 (int x) (int y) = x mod 5 + 5 * (y mod 5)"
  by (simp add: index2_def nat_add_distrib nat_mult_distrib nat_mod_distrib)

lemma coords_set: "set coords = {(int x, int y) | x y. x < 5 \<and> y < 5}"
proof -
  have c: "coords = map (\<lambda>(x, y). (int x, int y)) (List.product [0..<5] [0..<5])" by code_simp
  show ?thesis unfolding c by auto
qed

lemma coords_distinct: "distinct (map (\<lambda>p. index2 (fst p) (snd p)) coords)"
  "distinct (map (\<lambda>p. index2 (snd p) (fst p * 2 + 3 * snd p)) coords)"
  by (simp_all add: coords_def index2_def)

lemma fold_update_len: "length (fold (\<lambda>p A. A[idx p := f p (A ! idx p)]) ps A) = length A"
  by (induction ps arbitrary: A) simp_all

lemma fold_update_other:
  "i \<notin> idx ` set ps \<Longrightarrow> fold (\<lambda>p A. A[idx p := f p (A ! idx p)]) ps A ! i = A ! i"
  by (induction ps arbitrary: A) auto

lemma fold_update_nth:
  "distinct (map idx ps) \<Longrightarrow> p \<in> set ps \<Longrightarrow> idx p < length A \<Longrightarrow>
   fold (\<lambda>p A. A[idx p := f p (A ! idx p)]) ps A ! idx p = f p (A ! idx p)"
proof (induction ps arbitrary: A)
  case (Cons q ps)
  show ?case
  proof (cases "p = q")
    case True
    then have "idx q \<notin> idx ` set ps" using Cons.prems(1) by auto
    then show ?thesis using True Cons.prems(3) by (simp add: fold_update_other)
  next
    case False
    then have p: "p \<in> set ps" using Cons.prems(2) by simp
    then have "idx p \<noteq> idx q" using Cons.prems(1) by (metis distinct.simps(2) image_eqI list.simps(9) set_map)
    then show ?thesis using Cons p by simp
  qed
qed simp

text \<open>A lane at any coordinates is the lane at the coordinates modulo five, which the loop visits.\<close>

lemma lane_index: obtains p where "p \<in> set coords" "p = (int (x mod 5), int (y mod 5))"
  "index2 (fst p) (snd p) = x mod 5 + 5 * (y mod 5)" "index2 (fst p) (snd p) < 25"
proof -
  have "(int (x mod 5), int (y mod 5)) \<in> set coords" unfolding coords_set by fastforce
  moreover have "x mod 5 + 5 * (y mod 5) < 25"
    using mod_less_divisor [of 5 x] mod_less_divisor [of 5 y] by linarith
  ultimately show ?thesis using that [of "(int (x mod 5), int (y mod 5))"] by (simp add: index2_nat)
qed

lemma and_63: "unat (n AND 63 :: u32) = unat n mod 64"
proof -
  have "n AND 63 = take_bit 6 n" by (simp add: take_bit_eq_mask mask_eq_decr_exp)
  then have "unat (n AND 63) = take_bit 6 (unat n)" by (simp only: unsigned_take_bit_eq)
  then show ?thesis by (simp add: take_bit_eq_mod)
qed

lemma neg_and_63:
  assumes "unat m = k" and "k < 64"
  shows "unat ((- m) AND 63 :: u32) = (64 - k) mod 64"
proof (cases "k = 0")
  case True
  then have "m = 0" using assms(1) by (simp add: unat_eq_zero)
  then show ?thesis using True by simp
next
  case False
  have "- m = of_nat (4294967296 - k)" using assms by (simp flip: assms(1))
  then have "unat (- m) = 4294967296 - k" using False by (simp add: unat_of_nat del: of_nat_diff)
  then have "unat ((- m) AND 63) = (4294967296 - k) mod 64" by (simp only: and_63)
  also have "4294967296 - k = 64 * 67108863 + (64 - k)" using assms(2) by simp
  finally show ?thesis by (simp only: mod_mult_self4)
qed

lemma rotateLeft_rotl: "rotateLeft w n = word_rotl (unat n) w"
proof (rule bit_eqI)
  fix i assume "possible_bit TYPE(u64) i"
  then have i: "i < 64" by simp
  define k where "k = unat n mod 64"
  have k: "k < 64" by (simp add: k_def)
  have m: "unat (n AND 63) = k" unfolding and_63 k_def ..
  have r: "rotateLeft w n = push_bit k w OR drop_bit ((64 - k) mod 64) w"
    unfolding rotateLeft_def Let_def using neg_and_63 [OF m k] m by simp
  show "bit (rotateLeft w n) i = bit (word_rotl (unat n) w) i"
  proof (cases "k \<le> i")
    case True
    then have "(i + (64 - k)) mod 64 = i - k" using i k by (simp add: mod_if)
    moreover have "bit (drop_bit ((64 - k) mod 64) w) i \<longleftrightarrow> k = 0 \<and> bit w i"
      using True i k by (cases "k = 0") (auto simp: bit_drop_bit_eq dest: bit_imp_le_length)
    ultimately show ?thesis using True i
      by (auto simp: r bit_or_iff bit_push_bit_iff bit_word_rotl_iff k_def [symmetric])
  next
    case False
    then have e: "(i + (64 - k)) mod 64 = i + (64 - k)" "(64 - k) mod 64 = 64 - k" using i k by simp_all
    have "bit (rotateLeft w n) i = bit w ((64 - k) + i)"
      unfolding r e bit_or_iff bit_push_bit_iff bit_drop_bit_eq comp_apply using False by simp
    moreover have "bit (word_rotl (unat n) w) i = bit w (i + (64 - k))"
      using i e(1) by (simp add: bit_word_rotl_iff k_def [symmetric])
    ultimately show ?thesis by (simp only: add.commute)
  qed
qed

lemma less_5_cases: "(k::nat) < 5 \<Longrightarrow> k = 0 \<or> k = 1 \<or> k = 2 \<or> k = 3 \<or> k = 4"
  by linarith

lemma neighbours: "nat ((int (x mod 5) - 1) mod 5) = (x + 4) mod 5" "nat ((int (x mod 5) + 1) mod 5) = (x + 1) mod 5"
proof -
  define k where "k = x mod 5"
  have "k < 5" by (simp add: k_def)
  then have "nat ((int k - 1) mod 5) = (k + 4) mod 5" "nat ((int k + 1) mod 5) = (k + 1) mod 5"
    using less_5_cases [of k] by auto
  then show "nat ((int (x mod 5) - 1) mod 5) = (x + 4) mod 5" "nat ((int (x mod 5) + 1) mod 5) = (x + 1) mod 5"
    by (simp_all add: k_def mod_simps)
qed

lemma theta_C_column: "theta_C A ! (x mod 5) = column (lanes_of A) x"
proof -
  have "map (\<lambda>x. A ! index2 x 0 XOR A ! index2 x 1 XOR A ! index2 x 2 XOR A ! index2 x 3 XOR A ! index2 x 4)
      [0, 1, 2, 3, 4] ! k = column (lanes_of A) k" if "k < 5" for k
    using less_5_cases [OF that]
    by (elim disjE) (simp_all add: index2_def column_def lanes_of_def numeral_2_eq_2)
  then show ?thesis by (simp add: theta_C_def column_def lanes_of_def)
qed

lemma keccak_theta_lanes:
  assumes "length A = 25"
  shows "lanes_of (keccak_theta A) = theta (lanes_of A)" "length (keccak_theta A) = 25"
proof -
  define C where "C = theta_C A"
  have f: "keccak_theta A = fold (\<lambda>p B. B[index2 (fst p) (snd p) := B ! index2 (fst p) (snd p) XOR theta_D C (fst p)]) coords A"
    by (simp add: keccak_theta_def Let_def C_def split_beta')
  show "length (keccak_theta A) = 25"
    unfolding f using fold_update_len [of "\<lambda>p. index2 (fst p) (snd p)" "\<lambda>p a. a XOR theta_D C (fst p)"] assms by simp
  show "lanes_of (keccak_theta A) = theta (lanes_of A)"
  proof (rule ext, clarify)
    fix x y
    obtain p where p: "p \<in> set coords" "p = (int (x mod 5), int (y mod 5))"
      "index2 (fst p) (snd p) = x mod 5 + 5 * (y mod 5)" "index2 (fst p) (snd p) < 25"
      by (rule lane_index)
    have n: "nat ((int (x mod 5) - 1) mod 5) = (x + 4) mod 5" "nat ((int (x mod 5) + 1) mod 5) = (x + 1) mod 5"
      by (rule neighbours)+
    have D: "theta_D C (int (x mod 5)) = column (lanes_of A) (x + 4) XOR word_rotl 1 (column (lanes_of A) (x + 1))"
      unfolding theta_D_def index1_mod n C_def theta_C_column by (simp add: rotateLeft_rotl)
    have "keccak_theta A ! (x mod 5 + 5 * (y mod 5)) = A ! (x mod 5 + 5 * (y mod 5)) XOR theta_D C (int (x mod 5))"
      using fold_update_nth [OF coords_distinct(1) p(1), of A "\<lambda>p a. a XOR theta_D C (fst p)"] p assms
      unfolding f by simp
    then show "lanes_of (keccak_theta A) (x, y) = theta (lanes_of A) (x, y)"
      by (simp add: lanes_of_def theta_def D [unfolded lanes_of_def] xor.assoc)
  qed
qed


lemma keccak_rho_pi_lanes:
  assumes "length A = 25" "length B = 25"
  shows "lanes_of (keccak_rho_pi A B) = pi_step (rho (lanes_of A))" "length (keccak_rho_pi A B) = 25"
proof -
  define idx :: "int \<times> int \<Rightarrow> nat" where "idx = (\<lambda>p. index2 (snd p) (fst p * 2 + 3 * snd p))"
  define g where "g = (\<lambda>p (b :: u64). rotateLeft (A ! index2 (fst p) (snd p)) (R ! index2 (fst p) (snd p)))"
  have f: "keccak_rho_pi A B = fold (\<lambda>p B. B[idx p := g p (B ! idx p)]) coords B"
    by (simp add: keccak_rho_pi_def Let_def idx_def g_def split_beta')
  show "length (keccak_rho_pi A B) = 25" unfolding f fold_update_len by (rule assms)
  show "lanes_of (keccak_rho_pi A B) = pi_step (rho (lanes_of A))"
  proof (rule ext, clarify)
    fix x y
    obtain p where p: "p \<in> set coords" "p = (int ((x + 3 * y) mod 5), int (x mod 5))"
      "index2 (fst p) (snd p) = (x + 3 * y) mod 5 + 5 * (x mod 5)" "index2 (fst p) (snd p) < 25"
      by (rule lane_index)
    have i: "idx p = x mod 5 + 5 * (y mod 5)"
    proof -
      have "idx p = index2 (int (x mod 5)) (int ((x + 3 * y) mod 5 * 2 + 3 * (x mod 5)))"
        by (simp add: idx_def p(2))
      also have "\<dots> = x mod 5 + 5 * (((x + 3 * y) mod 5 * 2 + 3 * (x mod 5)) mod 5)"
        unfolding index2_nat by simp
      also have "((x + 3 * y) mod 5 * 2 + 3 * (x mod 5)) mod 5 = ((x + 3 * y) * 2 + 3 * x) mod 5"
        by (intro mod_add_cong mod_mult_cong) simp_all
      also have "(x + 3 * y) * 2 + 3 * x = y + 5 * (x + y)" by simp
      also have "(y + 5 * (x + y)) mod 5 = y mod 5" by (rule mod_mult_self2)
      finally show ?thesis .
    qed
    have lt: "idx p < length B"
      unfolding i assms using mod_less_divisor [of 5 x] mod_less_divisor [of 5 y] by linarith
    have "keccak_rho_pi A B ! (x mod 5 + 5 * (y mod 5)) = g p (B ! idx p)"
      unfolding f i [symmetric]
      by (rule fold_update_nth [where idx = idx]) (use p(1) lt coords_distinct(2) in \<open>simp_all add: idx_def\<close>)
    moreover have "unat (R ! ((x + 3 * y) mod 5 + 5 * (x mod 5))) = rho_offset ((x + 3 * y) mod 5, x mod 5)"
      using R_generated by simp
    ultimately show "lanes_of (keccak_rho_pi A B) (x, y) = pi_step (rho (lanes_of A)) (x, y)"
      by (simp add: lanes_of_def pi_step_def rho_def g_def p(3) rotateLeft_rotl)
  qed
qed

lemma keccak_chi_lanes:
  assumes "length B = 25" "length A = 25"
  shows "lanes_of (keccak_chi B A) = chi (lanes_of B)" "length (keccak_chi B A) = 25"
proof -
  define idx :: "int \<times> int \<Rightarrow> nat" where "idx = (\<lambda>p. index2 (fst p) (snd p))"
  define g where "g = (\<lambda>p (a :: u64). B ! idx p XOR (NOT (B ! index2 (fst p + 1) (snd p)) AND B ! index2 (fst p + 2) (snd p)))"
  have f: "keccak_chi B A = fold (\<lambda>p A. A[idx p := g p (A ! idx p)]) coords A"
    by (simp add: keccak_chi_def Let_def idx_def g_def split_beta')
  show "length (keccak_chi B A) = 25" unfolding f fold_update_len by (rule assms)
  show "lanes_of (keccak_chi B A) = chi (lanes_of B)"
  proof (rule ext, clarify)
    fix x y
    obtain p where p: "p \<in> set coords" "p = (int (x mod 5), int (y mod 5))"
      "index2 (fst p) (snd p) = x mod 5 + 5 * (y mod 5)" "index2 (fst p) (snd p) < 25"
      by (rule lane_index)
    have n: "index2 (fst p + int k) (snd p) = (x + k) mod 5 + 5 * (y mod 5)" for k
      using index2_nat [of "x mod 5 + k" "y mod 5"] by (simp add: p(2) mod_simps)
    have "keccak_chi B A ! idx p = g p (A ! idx p)"
      unfolding f
      by (rule fold_update_nth [where idx = idx]) (use p(1,4) coords_distinct(1) assms in \<open>simp_all add: idx_def\<close>)
    then show "lanes_of (keccak_chi B A) (x, y) = chi (lanes_of B) (x, y)"
      using n [of 1] n [of 2] by (simp add: lanes_of_def chi_def g_def idx_def p(3))
  qed
qed

lemma keccak_round_lanes:
  assumes "length A = 25" "length B = 25" "n < 24"
  shows "case keccak_round n (A, B) of (A', B') \<Rightarrow> length A' = 25 \<and> length B' = 25
     \<and> lanes_of A' = iota n (chi (pi_step (rho (theta (lanes_of A)))))"
proof -
  define A1 B1 A2 where "A1 = keccak_theta A" and "B1 = keccak_rho_pi A1 B" and "A2 = keccak_chi B1 A1"
  note l = keccak_theta_lanes [OF assms(1), folded A1_def]
  note b = keccak_rho_pi_lanes [OF l(2) assms(2), folded B1_def]
  note c = keccak_chi_lanes [OF b(2) l(2), folded A2_def]
  have r: "RC ! n = round_constant n" using assms(3) by (simp add: RC_generated)
  have "lanes_of (A2[0 := A2 ! 0 XOR RC ! n]) = iota n (lanes_of A2)"
    using c(2) by (intro ext) (auto simp: lanes_of_def iota_def r nth_list_update)
  then show ?thesis
    using l b c by (simp add: keccak_round_def Let_def A1_def B1_def A2_def)
qed

lemma keccakf_lanes:
  assumes "length A = 25"
  shows "lanes_of (keccakf A) = keccak_p (lanes_of A)" "length (keccakf A) = 25"
proof -
  have "n \<le> 24 \<Longrightarrow> (case fold keccak_round [0..<n] (A, replicate 25 0) of (A', B') \<Rightarrow>
      length A' = 25 \<and> length B' = 25
      \<and> lanes_of A' = fold (\<lambda>n a. iota n (chi (pi_step (rho (theta a))))) [0..<n] (lanes_of A))" for n
  proof (induction n)
    case (Suc n)
    then obtain A' B' where e: "fold keccak_round [0..<n] (A, replicate 25 0) = (A', B')"
      "length A' = 25" "length B' = 25"
      "lanes_of A' = fold (\<lambda>n a. iota n (chi (pi_step (rho (theta a))))) [0..<n] (lanes_of A)"
      by (auto split: prod.splits)
    from keccak_round_lanes [OF e(2,3), of n] Suc.prems show ?case by (simp add: e(1,4))
  qed (use assms in simp)
  from this [of 24] show "lanes_of (keccakf A) = keccak_p (lanes_of A)" "length (keccakf A) = 25"
    by (auto simp: keccakf_def keccak_p_def split: prod.splits)
qed

section \<open>The sponge of the specification\<close>

text \<open>
  The sponge of the specification: the message is padded to a multiple of the block length \<open>r\<close>, each
  block is added to the first lanes and the permutation is applied.
\<close>

definition add_block :: "u64 list \<Rightarrow> u8 list \<Rightarrow> u64 list" where
  "add_block A blk = map (\<lambda>i. if i < length blk div 8 then A ! i XOR bytes_word (take 8 (drop (8 * i) blk)) else A ! i)
     [0..<length A]"

function absorb :: "nat \<Rightarrow> u64 list \<Rightarrow> u8 list \<Rightarrow> u64 list" where
  "absorb r A msg = (if r = 0 \<or> length msg < r then A
     else absorb r (keccakf (add_block A (take r msg))) (drop r msg))"
  by pat_completeness auto
termination
  by (relation "measure (\<lambda>(r, A, msg). length msg)") auto

declare absorb.simps [simp del]

definition pad :: "nat \<Rightarrow> nat \<Rightarrow> u8 list" where
  "pad r len = (let q = r - len mod r in if q = 1 then [0x81] else 0x01 # replicate (q - 2) 0 @ [0x80])"

definition keccak_hash :: "nat \<Rightarrow> u8 list \<Rightarrow> u64 list" where
  "keccak_hash r msg = absorb r (replicate 25 0) (msg @ pad r (length msg))"

definition keccak_feed :: "u8 list list \<Rightarrow> keccakState \<Rightarrow> keccakState run" where
  "keccak_feed chunks st = foldl (\<lambda>r c. rbind r (keccakUpdate c 0 (length c))) (Inr st) chunks"

text \<open>The state after feeding a message, and what the hash object holds of it.\<close>

definition absorbed :: "keccakState \<Rightarrow> u8 list \<Rightarrow> bool" where
  "absorbed st msg \<longleftrightarrow> 0 < blockLen st \<and> blockLen st \<le> 200 \<and> blockLen st mod 8 = 0
     \<and> length (kbuffer st) = blockLen st \<and> bufferLen st = length msg mod blockLen st
     \<and> take (bufferLen st) (kbuffer st) = drop (length msg - bufferLen st) msg
     \<and> kA st = absorb (blockLen st) (replicate 25 0) msg \<and> length (kA st) = 25"

lemma le_native [simp]: "LittleToNative64 w = w" "NativeToLittle64 w = w"
  by (simp_all add: LittleToNative64_def NativeToLittle64_def littleEndian_def)

lemma add_block_len [simp]: "length (add_block A blk) = length A"
  by (simp add: add_block_def)

lemma process_add_block:
  assumes "length (kbuffer st) = blockLen st" "blockLen st div 8 \<le> length (kA st)"
  shows "keccakProcessBuffer st = st \<lparr> kA := keccakf (add_block (kA st) (kbuffer st)), bufferLen := 0 \<rparr>"
proof -
  define g where "g = (\<lambda>i (a :: u64). a XOR bytes_word (take 8 (drop (8 * i) (kbuffer st))))"
  have "fold (\<lambda>i A. A[i := g i (A ! i)]) [0..<blockLen st div 8] (kA st) = add_block (kA st) (kbuffer st)"
  proof (rule nth_equalityI)
    fix i assume "i < length (fold (\<lambda>i A. A[i := g i (A ! i)]) [0..<blockLen st div 8] (kA st))"
    then have i: "i < length (kA st)" using fold_update_len [of id g] by simp
    show "fold (\<lambda>i A. A[i := g i (A ! i)]) [0..<blockLen st div 8] (kA st) ! i = add_block (kA st) (kbuffer st) ! i"
    proof (cases "i < blockLen st div 8")
      case True
      then show ?thesis
        using fold_update_nth [of id "[0..<blockLen st div 8]" i "kA st" g] i assms(1)
        by (simp add: add_block_def g_def)
    next
      case False
      then show ?thesis
        using fold_update_other [of i id "[0..<blockLen st div 8]" g "kA st"] i assms(1)
        by (simp add: add_block_def)
    qed
  qed (use fold_update_len [of id g] in \<open>simp add: add_block_def\<close>)
  then show ?thesis by (simp add: keccakProcessBuffer_def Let_def g_def)
qed

lemma absorb_short: "length msg < r \<Longrightarrow> absorb r A msg = A"
  by (subst absorb.simps) simp

lemma absorb_step:
  "0 < r \<Longrightarrow> \<not> length msg < r \<Longrightarrow> absorb r A msg = absorb r (keccakf (add_block A (take r msg))) (drop r msg)"
  by (subst absorb.simps) simp

lemma absorb_append:
  "0 < r \<Longrightarrow> length msg mod r = 0 \<Longrightarrow> absorb r A (msg @ n) = absorb r (absorb r A msg) n"
proof (induction r A msg rule: absorb.induct)
  case (1 r A msg)
  show ?case
  proof (cases "length msg < r")
    case True
    then have "msg = []" using "1.prems" by simp
    then show ?thesis using "1.prems" by (simp add: absorb_short)
  next
    case False
    have "length (drop r msg) mod r = 0" using False "1.prems" by (simp add: mod_if [of "length msg"])
    then have "absorb r (keccakf (add_block A (take r msg))) (drop r msg @ n)
        = absorb r (absorb r (keccakf (add_block A (take r msg))) (drop r msg)) n"
      using "1.IH" False "1.prems" by simp
    then show ?thesis
      using absorb_step [of r "msg @ n" A] absorb_step [of r msg A] False "1.prems" by simp
  qed
qed

lemma absorb_one: "0 < r \<Longrightarrow> length blk = r \<Longrightarrow> absorb r A blk = keccakf (add_block A blk)"
  by (subst absorb.simps) (simp add: absorb_short)

text \<open>Splitting a message at the last full block.\<close>

lemma absorb_full:
  fixes msg :: "u8 list" and r :: nat
  assumes "0 < r"
  defines "k \<equiv> length msg - length msg mod r"
  shows "length (take k msg) mod r = 0" "length (drop k msg) = length msg mod r"
    "absorb r A msg = absorb r A (take k msg)"
proof -
  have k: "k = r * (length msg div r)" by (simp add: k_def minus_mod_eq_mult_div)
  have "k \<le> length msg" by (simp add: k_def)
  then have "length (take k msg) = k" by simp
  then show l: "length (take k msg) mod r = 0" by (simp add: k)
  show l2: "length (drop k msg) = length msg mod r" by (simp add: k_def)
  have "absorb r A (take k msg @ drop k msg) = absorb r (absorb r A (take k msg)) (drop k msg)"
    by (rule absorb_append [OF assms(1) l])
  also have "\<dots> = absorb r A (take k msg)" using l2 assms(1) by (intro absorb_short) simp
  finally show "absorb r A msg = absorb r A (take k msg)" by simp
qed

lemma absorb_tail:
  assumes "0 < r" "length msg mod r + length t < r"
  shows "absorb r A (msg @ t) = absorb r A msg"
proof -
  define k where "k = length msg - length msg mod r"
  note f = absorb_full [OF assms(1), where msg = msg, folded k_def]
  have "msg @ t = take k msg @ (drop k msg @ t)" by simp
  then have "absorb r A (msg @ t) = absorb r (absorb r A (take k msg)) (drop k msg @ t)"
    using absorb_append [OF assms(1) f(1)] by metis
  also have "\<dots> = absorb r A (take k msg)" using f(2) assms(2) by (intro absorb_short) simp
  finally show ?thesis by (simp only: f(3))
qed

lemma absorb_block:
  assumes "0 < r" "length msg mod r + length t = r"
  shows "absorb r A (msg @ t) = keccakf (add_block (absorb r A msg) (drop (length msg - length msg mod r) msg @ t))"
proof -
  define k where "k = length msg - length msg mod r"
  note f = absorb_full [OF assms(1), where msg = msg, folded k_def]
  have "msg @ t = take k msg @ (drop k msg @ t)" by simp
  then have "absorb r A (msg @ t) = absorb r (absorb r A (take k msg)) (drop k msg @ t)"
    using absorb_append [OF assms(1) f(1)] by metis
  also have "\<dots> = keccakf (add_block (absorb r A (take k msg)) (drop k msg @ t))"
    using f(2) assms by (intro absorb_one) simp_all
  finally show ?thesis by (simp only: f(3) k_def)
qed

section \<open>Feeding and finishing\<close>

lemma absorb_len: "length A = 25 \<Longrightarrow> length (absorb r A msg) = 25"
proof (induction r A msg rule: absorb.induct)
  case (1 r A msg)
  then show ?case by (subst absorb.simps) (simp add: keccakf_lanes(2))
qed

lemma buffer_copy_len:
  "pos + length bs \<le> length buf \<Longrightarrow> length (buffer_copy buf pos bs) = length buf"
  by (simp add: buffer_copy_def)

lemma buffer_copy_take:
  "pos + length bs \<le> length buf \<Longrightarrow> take (pos + length bs) (buffer_copy buf pos bs) = take pos buf @ bs"
  by (simp add: buffer_copy_def)

lemma absorbed_create: "8 dvd len \<Longrightarrow> len div 8 < 100 \<Longrightarrow> (200 - 2 * (len div 8)) mod 8 = 0 \<Longrightarrow> absorbed (keccakCreate len) []"
  by (simp add: absorbed_def keccakCreate_def absorb_short)

lemma absorbed_partial:
  assumes "absorbed st msg" "bufferLen st + length data < blockLen st"
  shows "absorbed (st \<lparr> kbuffer := buffer_copy (kbuffer st) (bufferLen st) data,
      bufferLen := bufferLen st + length data \<rparr>) (msg @ data)"
proof -
  define r b where "r = blockLen st" and "b = bufferLen st"
  have a: "0 < r" "r \<le> 200" "r mod 8 = 0" "length (kbuffer st) = r" "b = length msg mod r"
      "take b (kbuffer st) = drop (length msg - b) msg" "kA st = absorb r (replicate 25 0) msg" "length (kA st) = 25"
    using assms(1) by (auto simp: absorbed_def r_def b_def)
  have "(length msg + length data) mod r = (length msg mod r + length data) mod r" by (simp add: mod_simps)
  also have "\<dots> = b + length data" using assms(2) a(5) by (simp add: r_def b_def)
  finally have m: "(length msg + length data) mod r = b + length data" .
  have "b \<le> length msg" using a(5) by simp
  then have d: "drop (length msg - b) (msg @ data) = take b (kbuffer st) @ data" by (simp add: a(6))
  have t: "absorb r (replicate 25 0) (msg @ data) = absorb r (replicate 25 0) msg"
    using assms(2) a(1,5) by (intro absorb_tail) (simp_all add: r_def b_def)
  have c: "take (b + length data) (buffer_copy (kbuffer st) b data) = take b (kbuffer st) @ data"
    using assms(2) a(4) by (intro buffer_copy_take) (simp add: r_def b_def)
  have l: "length (buffer_copy (kbuffer st) b data) = r"
    using assms(2) a(4) by (subst buffer_copy_len) (simp_all add: r_def b_def)
  show ?thesis
    unfolding absorbed_def using a m d t c l by (simp add: r_def [symmetric] b_def [symmetric])
qed

lemma absorbed_full:
  assumes "absorbed st msg" "bufferLen st + length data = blockLen st"
  shows "absorbed (keccakProcessBuffer (st \<lparr> kbuffer := buffer_copy (kbuffer st) (bufferLen st) data,
      bufferLen := bufferLen st + length data \<rparr>)) (msg @ data)"
proof -
  define r b where "r = blockLen st" and "b = bufferLen st"
  have a: "0 < r" "r \<le> 200" "r mod 8 = 0" "length (kbuffer st) = r" "b = length msg mod r"
      "take b (kbuffer st) = drop (length msg - b) msg" "kA st = absorb r (replicate 25 0) msg" "length (kA st) = 25"
    using assms(1) by (auto simp: absorbed_def r_def b_def)
  have bl: "b + length data = r" using assms(2) by (simp add: r_def b_def)
  have "(length msg + length data) mod r = (length msg mod r + length data) mod r" by (simp add: mod_simps)
  then have m: "(length msg + length data) mod r = 0" using bl a(5) by simp
  have "take (b + length data) (buffer_copy (kbuffer st) b data) = take b (kbuffer st) @ data"
    using bl a(4) by (intro buffer_copy_take) simp
  moreover have l: "length (buffer_copy (kbuffer st) b data) = r"
    using bl a(4) by (subst buffer_copy_len) simp_all
  ultimately have c: "buffer_copy (kbuffer st) b data = drop (length msg - b) msg @ data"
    using bl a(6) by simp
  have t: "absorb r (replicate 25 0) (msg @ data) = keccakf (add_block (kA st) (buffer_copy (kbuffer st) b data))"
    unfolding c a(7) unfolding a(5) using bl a(1,5) by (intro absorb_block) simp_all
  have p: "keccakProcessBuffer (st \<lparr> kbuffer := buffer_copy (kbuffer st) b data, bufferLen := b + length data \<rparr>)
      = st \<lparr> kbuffer := buffer_copy (kbuffer st) b data, bufferLen := 0,
            kA := keccakf (add_block (kA st) (buffer_copy (kbuffer st) b data)) \<rparr>"
    using l a(2,8) by (subst process_add_block) (simp_all add: r_def)
  have k: "length (keccakf (add_block (kA st) (buffer_copy (kbuffer st) b data))) = 25"
    using a(8) by (simp add: keccakf_lanes(2))
  show ?thesis
    unfolding b_def [symmetric] p absorbed_def using a(1-3) m t l k by (simp add: r_def [symmetric])
qed

lemma keccak_update_loop_absorbs:
  "absorbed st msg \<Longrightarrow> \<exists>st'. keccak_update_loop data st = Some st' \<and> absorbed st' (msg @ data)
     \<and> klength st' = klength st \<and> blockLen st' = blockLen st"
proof (induction "length data" arbitrary: data st msg rule: less_induct)
  case less
  show ?case
  proof (cases "data = []")
    case True
    then show ?thesis using less.prems by (subst keccak_update_loop.simps) simp
  next
    case False
    define room where "room = blockLen st - bufferLen st"
    have r: "0 < room" "bufferLen st + room = blockLen st"
      using less.prems by (auto simp: absorbed_def room_def)
    show ?thesis
    proof (cases "room > length data")
      case True
      define st1 where "st1 = st \<lparr> kbuffer := buffer_copy (kbuffer st) (bufferLen st) data,
          bufferLen := bufferLen st + length data \<rparr>"
      have "keccak_update_loop data st = keccak_update_loop [] st1"
        using True False r by (subst keccak_update_loop.simps) (simp add: Let_def room_def [symmetric] st1_def)
      then have "keccak_update_loop data st = Some st1" by (simp add: keccak_update_loop.simps)
      moreover have "absorbed st1 (msg @ data)"
        unfolding st1_def using less.prems True r by (intro absorbed_partial) simp_all
      ultimately show ?thesis by (simp add: st1_def)
    next
      case F: False
      define bs where "bs = take room data"
      define st2 where "st2 = keccakProcessBuffer (st \<lparr> kbuffer := buffer_copy (kbuffer st) (bufferLen st) bs,
          bufferLen := bufferLen st + length bs \<rparr>)"
      have b: "length bs = room" using F by (simp add: bs_def)
      have u: "keccak_update_loop data st = keccak_update_loop (drop room data) st2"
        using F False r b by (subst keccak_update_loop.simps) (simp add: Let_def room_def [symmetric] st2_def bs_def)
      have "absorbed st2 (msg @ bs)" unfolding st2_def using less.prems r b by (intro absorbed_full) simp_all
      from less.hyps [OF _ this, of "drop room data"] F r False obtain st' where
        "keccak_update_loop (drop room data) st2 = Some st'" "absorbed st' ((msg @ bs) @ drop room data)"
        "klength st' = klength st2" "blockLen st' = blockLen st2" by auto
      then show ?thesis by (simp add: u bs_def st2_def keccakProcessBuffer_def Let_def)
    qed
  qed
qed


lemma fold_zero_nth:
  "i < length b \<Longrightarrow> fold (\<lambda>i b. b[i := (0 :: u8)]) ps b ! i = (if i \<in> set ps then 0 else b ! i)
     \<and> length (fold (\<lambda>i b. b[i := (0 :: u8)]) ps b) = length b"
  by (induction ps arbitrary: b) (auto simp: nth_list_update)

lemma fold_zero_len: "length (fold (\<lambda>i b. b[i := (0 :: u8)]) ps b) = length b"
  by (induction ps arbitrary: b) simp_all

lemma padding_buffer:
  assumes "absorbed st msg"
  shows "kbuffer (keccakAddPadding st) = drop (length msg - bufferLen st) msg @ pad (blockLen st) (length msg)"
proof -
  define r b where "r = blockLen st" and "b = bufferLen st"
  have a: "0 < r" "length (kbuffer st) = r" "b = length msg mod r" "take b (kbuffer st) = drop (length msg - b) msg"
    using assms by (auto simp: absorbed_def r_def b_def)
  have b: "b < r" using a(1,3) by simp
  have q: "pad r (length msg) = (if r - b = 1 then [0x81] else 0x01 # replicate (r - b - 2) 0 @ [0x80])"
    by (simp add: pad_def a(3))
  have "kbuffer (keccakAddPadding st) = take b (kbuffer st) @ pad r (length msg)"
  proof (cases "b + 1 = r")
    case True
    then have "(kbuffer st)[b := 0x81] = take b (kbuffer st) @ [0x81]"
      using a(2) by (simp add: upd_conv_take_nth_drop)
    moreover have "r - b = 1" using True by simp
    ultimately show ?thesis using True
      by (simp add: keccakAddPadding_def q [unfolded r_def b_def] r_def b_def)
  next
    case False
    define z where "z = fold (\<lambda>i c. c[i := 0]) [b + 1..<r - 1] ((kbuffer st)[b := 0x01])"
    have zl: "length z = r" by (simp add: z_def fold_zero_len a(2))
    have zn: "z ! i = (if i \<in> set [b + 1..<r - 1] then 0 else (kbuffer st)[b := 0x01] ! i)" if "i < r" for i
      using fold_zero_nth [of i "(kbuffer st)[b := 0x01]" "[b + 1..<r - 1]"] that a(2) by (simp add: z_def)
    have "z[r - 1 := 0x80] = take b (kbuffer st) @ 0x01 # replicate (r - b - 2) 0 @ [0x80]"
    proof (rule nth_equalityI)
      show "length (z[r - 1 := 0x80]) = length (take b (kbuffer st) @ 0x01 # replicate (r - b - 2) 0 @ [0x80])"
        using b False by (simp add: zl a(2))
      fix i assume "i < length (z[r - 1 := 0x80])"
      then have i: "i < r" by (simp add: zl)
      consider "i < b" | "i = b" | "b < i" "i < r - 1" | "i = r - 1" using i by linarith
      then show "z[r - 1 := 0x80] ! i = (take b (kbuffer st) @ 0x01 # replicate (r - b - 2) 0 @ [0x80]) ! i"
        using i b False by cases (auto simp: zl zn a(2) nth_append nth_Cons nth_list_update split: nat.splits)
    qed
    then show ?thesis using False b
      by (simp add: keccakAddPadding_def Let_def z_def q [unfolded r_def b_def] r_def b_def)
  qed
  then show ?thesis unfolding a(4) by (simp add: r_def b_def)
qed

lemma keccak_digest_hash:
  assumes "absorbed st msg"
  shows "kA (keccakProcessBuffer (keccakAddPadding st)) = keccak_hash (blockLen st) msg"
proof -
  define r b where "r = blockLen st" and "b = bufferLen st"
  have a: "0 < r" "r \<le> 200" "length (kbuffer st) = r" "b = length msg mod r"
      "kA st = absorb r (replicate 25 0) msg" "length (kA st) = 25"
    using assms by (auto simp: absorbed_def r_def b_def)
  have b: "b < r" using a(1,4) by simp
  have pl: "length msg mod r + length (pad r (length msg)) = r" using b a(4) by (auto simp: pad_def Let_def)
  have k: "kbuffer (keccakAddPadding st) = drop (length msg - b) msg @ pad r (length msg)"
    using padding_buffer [OF assms] by (simp add: r_def b_def)
  have f: "blockLen (keccakAddPadding st) = r" "kA (keccakAddPadding st) = kA st"
    by (simp_all add: keccakAddPadding_def Let_def r_def)
  have "length (kbuffer (keccakAddPadding st)) = r"
    by (simp add: keccakAddPadding_def Let_def fold_zero_len a(3))
  then have "kA (keccakProcessBuffer (keccakAddPadding st)) = keccakf (add_block (kA st) (drop (length msg - b) msg @ pad r (length msg)))"
    using f a(2,6) k by (subst process_add_block) simp_all
  also have "\<dots> = absorb r (replicate 25 0) (msg @ pad r (length msg))"
    unfolding a(5) unfolding a(4) by (rule absorb_block [OF a(1) pl, symmetric])
  finally show ?thesis by (simp add: keccak_hash_def r_def)
qed


lemma keccak_feed_absorbs:
  "absorbed st msg \<Longrightarrow> \<exists>st'. keccak_feed chunks st = Inr st' \<and> absorbed st' (msg @ concat chunks)
     \<and> klength st' = klength st \<and> blockLen st' = blockLen st"
proof (induction chunks arbitrary: st msg)
  case (Cons c chunks)
  from keccak_update_loop_absorbs [OF Cons.prems, of c] obtain st1 where
    s: "keccak_update_loop c st = Some st1" "absorbed st1 (msg @ c)" "klength st1 = klength st" "blockLen st1 = blockLen st"
    by blast
  from Cons.IH [OF s(2)] s show ?case by (auto simp: keccak_feed_def keccakUpdate_def)
qed (simp add: keccak_feed_def)

lemma keccak_feed_hash:
  "\<exists>st'. keccak_feed chunks (keccakCreate 256) = Inr st'
     \<and> take 25 (fst (keccakDigest beyond st')) = keccak_hash 136 (concat chunks)"
proof -
  have "absorbed (keccakCreate 256) []" by (rule absorbed_create) simp_all
  from keccak_feed_absorbs [OF this, of chunks] obtain st' where
    s: "keccak_feed chunks (keccakCreate 256) = Inr st'" "absorbed st' (concat chunks)"
      "klength st' = 256" "blockLen st' = 136"
    by (auto simp: keccakCreate_def)
  have k: "kA (keccakProcessBuffer (keccakAddPadding st')) = keccak_hash 136 (concat chunks)"
    using keccak_digest_hash [OF s(2)] s(4) by simp
  have l: "length (keccak_hash 136 (concat chunks)) = 25" by (simp add: keccak_hash_def absorb_len)
  have "klength (keccakProcessBuffer (keccakAddPadding st')) = 256"
    by (simp add: keccakProcessBuffer_def keccakAddPadding_def Let_def s(3))
  then have "take 25 (fst (keccakDigest beyond st')) = keccak_hash 136 (concat chunks)"
    using k l by (intro nth_equalityI) (simp_all add: keccakDigest_def Let_def)
  with s(1) show ?thesis by blast
qed

section \<open>Properties\<close>

text \<open>C13: the unrolled permutation of the code is the permutation of the specification on the lanes
  addressed by coordinates, for every state of 25 lanes.\<close>

theorem keccakf_is_keccak_p:
  assumes "length A = 25"
  shows "lanes_of (keccakf A) = keccak_p (lanes_of A) \<and> length (keccakf A) = 25"
  using keccakf_lanes [OF assms] by simp

theorem keccakf_is_keccak_p_witness:
  "lanes_of (keccakf (replicate 25 0)) = keccak_p (lanes_of (replicate 25 0))"
  using keccakf_is_keccak_p [of "replicate 25 0"] by simp

text \<open>C6: hashing a message in any division into chunks terminates and gives the sponge value of the whole
  message; the memory read behind the lane array does not influence the 25 lanes that exist.\<close>

theorem keccak_chunks_hash:
  "\<exists>st'. keccak_feed chunks (keccakCreate 256) = Inr st'
     \<and> take 25 (fst (keccakDigest beyond st')) = keccak_hash 136 (concat chunks)"
  by (rule keccak_feed_hash)

end
