(* ===== verification/Evm_Ops.thy ===== *)
theory Evm_Ops
  imports Evm_Arith Evm_Compare Keccak
begin

unbundle bit_operations_syntax

text \<open>
  The remaining operations of \<^verbatim>\<open>target-ppdl/functions.c\<close>: hashing of data memory (\<^verbatim>\<open>KeccakAlg\<close>), the
  final report (\<^verbatim>\<open>result_message\<close>) and the program size (\<^verbatim>\<open>GetElfSize\<close>).
\<close>

section \<open>Hashing\<close>

text \<open>
  The input is copied to a buffer of 255 bytes; \<open>beyond\<close> is the memory that \<^verbatim>\<open>keccakDigest\<close> reads
  behind the lanes.
\<close>

fun bus_bytes :: "nat \<Rightarrow> u32 \<Rightarrow> u32 \<Rightarrow> nat \<Rightarrow> machine \<Rightarrow> u8 list run" where
  "bus_bytes 0 offs i buflen m = Inr []"
| "bus_bytes (Suc n) offs i buflen m =
     rbind (rd BUS_LEN (data_bus (env m)) (ucast (offs + i))) (\<lambda>b.
       if buflen = 0 then Inl OutOfBounds
       else rbind (bus_bytes n offs (i + 1) (buflen - 1) m) (\<lambda>bs. Inr (ucast b # bs)))"

definition KeccakAlg :: "(nat \<Rightarrow> u64) \<Rightarrow> u32 \<Rightarrow> u32 \<Rightarrow> machine \<Rightarrow> machine run" where
  "KeccakAlg beyond offs sz m =
     (let s = int32 (sp (env m)) in
      rbind (bus_bytes (unat sz) offs 0 255 m) (\<lambda>buf.
      rbind (keccakUpdate buf 0 (unat sz) (keccakCreate 256)) (\<lambda>st.
        let op = concat (map word_bytes (fst (keccakDigest beyond st)));
            res_reg = fold (\<lambda>i r. r[i div 8 := r ! (i div 8) OR push_bit (8 * (i mod 8)) (ucast (op ! i))])
                        [0..<256 div 8] [0, 0, 0, 0 :: u64]
        in rbind (put_reg (s + 1) (map (\<lambda>i. res_reg ! (3 - i)) [0..<4]) m) (\<lambda>m1.
             Inr (set_sp (s + 4) m1)))))"

definition be_val :: "u8 list \<Rightarrow> nat" where
  "be_val bs = foldl (\<lambda>a b. 256 * a + unat b) 0 bs"

text \<open>The 256-bit hash of a message, its bytes read as one big-endian number.\<close>

definition keccak256 :: "u8 list \<Rightarrow> u256" where
  "keccak256 msg = of_nat (be_val (take 32 (concat (map word_bytes (keccak_hash 136 msg)))))"

definition bus_slice :: "machine \<Rightarrow> nat \<Rightarrow> nat \<Rightarrow> u8 list" where
  "bus_slice m a n = map (\<lambda>k. ucast (data_bus (env m) (a + k))) [0..<n]"

section \<open>The end of a run\<close>

definition fmt_02X :: "u8 \<Rightarrow> string" where
  "fmt_02X b = [HEX_char (unat b div 16), HEX_char (unat b mod 16)]"

fun result_bytes :: "nat \<Rightarrow> u64 \<Rightarrow> machine \<Rightarrow> string run" where
  "result_bytes 0 a m = Inr []"
| "result_bytes (Suc n) a m =
     rbind (rd BUS_LEN (data_bus (env m)) a) (\<lambda>b.
     rbind (result_bytes n (a + 1) m) (\<lambda>t. Inr (fmt_02X (ucast b) @ t)))"

definition result_message :: "machine \<Rightarrow> machine run" where
  "result_message m =
     (let m = finalize m; nl = [char_of (10::nat)] in
      if gas_available (env m) 0 = 0 then Inl (Exited (- 1) (out m @ nl @ ''gas limit error'' @ nl))
      else
        rbind (cell_get (sp (env m) - 3) m) (\<lambda>o_cell.
        rbind (cell_get (sp (env m) - 7) m) (\<lambda>s_cell.
        let m = m \<lparr> env := (env m) \<lparr> sp := sp (env m) - 8 \<rparr> \<rparr> in
        rbind (result_bytes (unat (bswap64 s_cell)) (bswap64 o_cell) m) (\<lambda>t.
          Inl (Exited 0 (out m @ ''0x'' @ t @ nl))))))"

definition GetElfSize :: "machine \<Rightarrow> u64" where
  "GetElfSize m = elfSize (env m)"

section \<open>Hashing lemmas\<close>

lemma be_val_append: "be_val (xs @ ys) = be_val xs * 256 ^ length ys + be_val ys"
proof (induction ys rule: rev_induct)
  case (snoc y ys)
  then show ?case unfolding append_assoc [symmetric] by (simp add: be_val_def algebra_simps)
qed (simp add: be_val_def)

lemma bswap64_bytes: "unat (bswap64 w) = be_val (word_bytes w)"
proof -
  have "be_val (map (\<lambda>k. ucast (drop_bit (8 * k) w)) [0..<i]) = hex_val (concat (map (\<lambda>j. fmt_02x (byte_of w j)) [0..<i]))" for i
  proof (induction i)
    case (Suc i)
    have "unat (ucast (drop_bit (8 * i) w) :: u8) = byte_of w i"
      by (simp add: byte_of_val unat_ucast_mod power_mult)
    with Suc show ?case using fmt_02x_props(3) [of "byte_of w i"]
      by (simp add: be_val_append hex_val_append fmt_02x_props) (simp add: be_val_def)
  qed (simp add: be_val_def hex_val_def)
  from this [of 8] show ?thesis using bswap64_loop_val [of 8 w] by (simp add: bswap64_def word_bytes_def)
qed

lemma res_reg_bit:
  assumes "n \<le> 32" and "length r0 = 4" and "j < 4" and "b < 64"
  shows "bit (fold (\<lambda>i r. r[i div 8 := r ! (i div 8) OR push_bit (8 * (i mod 8)) (ucast (op ! i :: u8))]) [0..<n] r0 ! j :: u64) b
    \<longleftrightarrow> bit (r0 ! j) b \<or> (8 * j + b div 8 < n \<and> bit (op ! (8 * j + b div 8) :: u8) (b mod 8))"
  using assms(1)
proof (induction n)
  case (Suc n)
  define r where "r = fold (\<lambda>i r. r[i div 8 := r ! (i div 8) OR push_bit (8 * (i mod 8)) (ucast (op ! i :: u8))]) [0..<n] r0"
  have l: "length r = 4" unfolding r_def using assms(2) by (induction n) simp_all
  have IH: "bit (r ! j) b \<longleftrightarrow> bit (r0 ! j) b \<or> (8 * j + b div 8 < n \<and> bit (op ! (8 * j + b div 8)) (b mod 8))"
    using Suc by (simp add: r_def)
  show ?case
  proof (cases "n div 8 = j")
    case True
    have key: "8 * (n mod 8) \<le> b \<and> bit (op ! n) (b - 8 * (n mod 8)) \<longleftrightarrow> n = 8 * j + b div 8 \<and> bit (op ! n) (b mod 8)"
    proof -
      define q where "q = n mod 8"
      have n: "n = 8 * j + b div 8 \<longleftrightarrow> b div 8 = q"
        unfolding q_def using mult_div_mod_eq [of 8 n] True by linarith
      have d: "8 * q \<le> b \<and> b - 8 * q < 8 \<longleftrightarrow> b div 8 = q"
        using div_nat_eqI [of 8 q b] minus_mult_div_eq_mod [of b 8] by auto
      have e: "b div 8 = q \<Longrightarrow> b - 8 * q = b mod 8" using minus_mult_div_eq_mod [of b 8] by simp
      have "bit (op ! n) k \<Longrightarrow> k < 8" for k using bit_imp_le_length by fastforce
      then show ?thesis unfolding n q_def [symmetric] using d e by metis
    qed
    have "fold (\<lambda>i r. r[i div 8 := r ! (i div 8) OR push_bit (8 * (i mod 8)) (ucast (op ! i :: u8))]) [0..<Suc n] r0
        = r[j := r ! j OR push_bit (8 * (n mod 8)) (ucast (op ! n))]"
      using True by (simp flip: r_def)
    moreover have "bit (r[j := r ! j OR push_bit (8 * (n mod 8)) (ucast (op ! n))] ! j) b
        \<longleftrightarrow> bit (r ! j) b \<or> (8 * (n mod 8) \<le> b \<and> bit (op ! n) (b - 8 * (n mod 8)))"
      using l assms(3,4) by (auto simp: bit_simps)
    ultimately show ?thesis unfolding key IH less_Suc_eq by auto
  next
    case False
    have "b div 8 < 8" using assms(4) by simp
    then have "(8 * j + b div 8) div 8 = j" by simp
    then have "n \<noteq> 8 * j + b div 8" using False by blast
    then show ?thesis using False IH by (auto simp flip: r_def)
  qed
qed simp

lemma bus_bytes_val:
  assumes "unat offs + unat i + n \<le> BUS_LEN" and "n \<le> len"
  shows "bus_bytes n offs i len m = Inr (map (\<lambda>k. ucast (data_bus (env m) (unat offs + unat i + k))) [0..<n])"
  using assms
proof (induction n arbitrary: i len)
  case (Suc n)
  have "unat (offs + i) = unat offs + unat i" "unat (i + 1) = unat i + 1"
    using Suc.prems(1) by (simp_all add: BUS_LEN_def unat_word_ariths)
  then show ?case using Suc
    by (auto simp: unat_ucast_le map_upt_Suc simp del: upt_Suc)
qed simp

lemma keccak_hash_len: "length (keccak_hash r msg) = 25"
  by (simp add: keccak_hash_def absorb_len)

lemma word_bytes_nth: "k < 8 \<Longrightarrow> word_bytes w ! k = ucast (drop_bit (8 * k) w)"
  by (simp add: word_bytes_def)

lemma concat_bytes_nth:
  "j < length ws \<Longrightarrow> k < 8 \<Longrightarrow> concat (map word_bytes ws) ! (8 * j + k) = word_bytes (ws ! j) ! k"
proof (induction ws arbitrary: j)
  case (Cons w ws)
  have l: "length (word_bytes w) = 8" by (simp add: word_bytes_def)
  show ?case
  proof (cases j)
    case 0
    then show ?thesis using Cons.prems by (simp add: nth_append l)
  next
    case (Suc i)
    then show ?thesis using Cons by (simp add: nth_append l)
  qed
qed simp

text \<open>The loop that gathers the digest bytes into words gives back the first four lanes.\<close>

lemma res_reg_lanes:
  assumes "4 \<le> length ws"
  shows "fold (\<lambda>i r. r[i div 8 := r ! (i div 8) OR push_bit (8 * (i mod 8)) (ucast (concat (map word_bytes ws) ! i))])
    [0..<256 div 8] [0, 0, 0, 0 :: u64] = take 4 ws"
  (is "?r = _")
proof (rule nth_equalityI)
  have e: "256 div 8 = (32 :: nat)" by simp
  have "length (fold (\<lambda>i r. r[i div 8 := f i r]) ks r) = length r" for f and ks and r :: "u64 list"
    by (induction ks arbitrary: r) simp_all
  then show l: "length ?r = length (take 4 ws)" using assms by simp
  fix j assume "j < length ?r"
  then have j: "j < 4" using l assms by simp
  show "?r ! j = take 4 ws ! j"
  proof (rule bit_eqI)
    fix b assume "possible_bit TYPE(u64) b"
    then have b: "b < 64" by simp
    have d: "b div 8 < 8" "b mod 8 < 8" "8 * (b div 8) + b mod 8 = b" using b by simp_all
    then have lt: "8 * j + b div 8 < 32" using j by linarith
    have "\<not> bit ([0, 0, 0, 0 :: u64] ! j) b" using j by (simp add: nth_Cons')
    then have "bit (?r ! j) b = bit (concat (map word_bytes ws) ! (8 * j + b div 8)) (b mod 8)"
      unfolding e using res_reg_bit [of 32 "[0, 0, 0, 0]" j b "concat (map word_bytes ws)"] lt j b by (simp only: list.size) blast
    also have "\<dots> = bit (take 4 ws ! j) b"
      using d j assms by (simp add: concat_bytes_nth word_bytes_nth bit_simps)
    finally show "bit (?r ! j) b = bit (take 4 ws ! j) b" .
  qed
qed

lemma take_bytes: "4 \<le> length ws \<Longrightarrow> take 32 (concat (map word_bytes ws))
    = word_bytes (ws ! 0) @ word_bytes (ws ! 1) @ word_bytes (ws ! 2) @ word_bytes (ws ! 3)"
proof -
  assume "4 \<le> length ws"
  then obtain a b c d tl where "ws = a # b # c # d # tl" by (auto simp: numeral_eq_Suc Suc_le_length_iff)
  then show ?thesis by (simp add: word_bytes_def numeral_2_eq_2 numeral_3_eq_3)
qed

lemma keccak256_reg:
  assumes "\<And>i. i < 4 \<Longrightarrow> r i = keccak_hash 136 msg ! (3 - i)"
  shows "of_nat (reg_val r) = keccak256 msg"
proof -
  define A where "A = keccak_hash 136 msg"
  have "4 \<le> length A" by (simp add: A_def keccak_hash_len)
  have l: "length (word_bytes w) = 8" for w by (simp add: word_bytes_def)
  have "be_val (take 32 (concat (map word_bytes A))) = reg_val r"
    unfolding take_bytes [OF \<open>4 \<le> length A\<close>] be_val_append reg_val_def sum_upto_4
    using assms by (simp add: A_def l bswap64_bytes)
  then show ?thesis by (simp add: keccak256_def A_def)
qed

lemma keccakUpdate_hash:
  "\<exists>st. keccakUpdate buf 0 (length buf) (keccakCreate 256) = Inr st
     \<and> take 25 (fst (keccakDigest beyond st)) = keccak_hash 136 buf"
  using keccak_feed_hash [of "[buf]" beyond] by (simp add: keccak_feed_def)

lemma elem_set_sp [simp]: "elem (set_sp i m) = elem m"
  by (rule ext) (simp add: elem_def elem_reg_def set_sp_def)

lemma KeccakAlg_val:
  assumes "holds m st" and "length st < 512" and "unat offs + unat sz \<le> BUS_LEN" and "unat sz \<le> 255"
  obtains m' where "KeccakAlg beyond offs sz m = Inr m'"
    "holds m' (keccak256 (bus_slice m (unat offs) (unat sz)) # st)" "stepped 0 0 m m'"
proof -
  define buf where "buf = bus_slice m (unat offs) (unat sz)"
  define n where "n = length st"
  have b: "bus_bytes (unat sz) offs 0 255 m = Inr buf" "length buf = unat sz"
    using bus_bytes_val [of offs 0 "unat sz" 255 m] assms(3,4) by (simp_all add: buf_def bus_slice_def)
  obtain ks where k: "keccakUpdate buf 0 (unat sz) (keccakCreate 256) = Inr ks"
      "take 25 (fst (keccakDigest beyond ks)) = keccak_hash 136 buf"
    using keccakUpdate_hash [of buf beyond] b(2) by auto
  define A where "A = keccak_hash 136 buf"
  have "25 \<le> length (fst (keccakDigest beyond ks))"
    using arg_cong [OF k(2), of length] by (simp add: keccak_hash_len)
  then have A: "take 4 (fst (keccakDigest beyond ks)) = take 4 A" "4 \<le> length (fst (keccakDigest beyond ks))"
    using arg_cong [OF k(2), of "take 4"] by (simp_all add: A_def)
  have s: "int32 (sp (env m)) = 4 * int n - 1" "n < 512" "depth m n"
    using depth_int32 assms(1,2) by (auto simp: holds_def n_def)
  obtain m1 where p: "put_reg (4 * int n) (map (\<lambda>i. take 4 A ! (3 - i)) [0..<4]) m = Inr m1"
      "elem_reg m1 n 0 = A ! 3" "elem_reg m1 n 1 = A ! 2" "elem_reg m1 n 2 = A ! 1" "elem_reg m1 n 3 = A ! 0"
      "\<And>j. j \<noteq> n \<Longrightarrow> elem m1 j = elem m j"
    using put_reg_elem [OF s(2), of "map (\<lambda>i. take 4 A ! (3 - i)) [0..<4]" m] by (auto simp: numeral_2_eq_2 numeral_3_eq_3)
  have "elem m1 n = keccak256 buf" unfolding elem_def
    by (rule keccak256_reg) (use p(2-5) in \<open>auto simp: A_def less_Suc_eq numeral_eq_Suc\<close>)
  moreover have "stack_list m1 n = st" using assms(1) stack_list_cong [of n m1 m] p(6) by (simp add: holds_def n_def)
  ultimately have h: "holds (set_sp (4 * int n - 1 + 4) m1) (keccak256 buf # st)"
    using s(2) unfolding holds_Cons n_def [symmetric]
    by (simp add: stack_list_def) (simp add: depth_def set_sp_def algebra_simps)
  have "KeccakAlg beyond offs sz m = Inr (set_sp (4 * int n - 1 + 4) m1)"
    unfolding KeccakAlg_def Let_def s(1) b(1) using k(1) p(1) res_reg_lanes [OF A(2)] A(1) by simp
  then show ?thesis using that h stepped_charge [OF stepped_put [OF p(1)] stepped_set_sp] by (simp add: buf_def)
qed

lemma bus_bytes_overflow:
  assumes "len < n" and "unat offs + unat i + n \<le> BUS_LEN"
  shows "bus_bytes n offs i len m = Inl OutOfBounds"
  using assms
proof (induction n arbitrary: i len)
  case (Suc n)
  have u: "unat (offs + i) = unat offs + unat i" "unat (i + 1) = unat i + 1"
    using Suc.prems(2) by (simp_all add: BUS_LEN_def unat_word_ariths)
  show ?case
  proof (cases len)
    case (Suc l)
    then show ?thesis using Suc.IH [of l "i + 1"] Suc.prems u by (simp add: unat_ucast_le)
  qed (use Suc.prems u in \<open>simp add: unat_ucast_le\<close>)
qed simp

lemma low_limb: "unat (bswap64 (r 0)) = reg_val r mod 2 ^ 64"
proof -
  define K where "K = unat (bswap64 (r 1)) + 2 ^ 64 * unat (bswap64 (r 2)) + 2 ^ 128 * unat (bswap64 (r 3))"
  have "reg_val r = unat (bswap64 (r 0)) + 2 ^ 64 * K"
    by (simp add: reg_val_def sum_upto_4 K_def)
  then show ?thesis using unat_lt64 [of "bswap64 (r 0)"] by simp
qed

lemma bswap64_eq_0: "bswap64 w = 0 \<longleftrightarrow> w = 0"
proof
  have "bswap64 0 = 0" by (rule bit_eqI) (simp add: bit_bswap64)
  then show "bswap64 w = 0 \<Longrightarrow> w = 0" "w = 0 \<Longrightarrow> bswap64 w = 0" using bswap64_bswap64 [of w] by simp_all
qed

lemma gas_low_limb: "gas_available (env m) 0 = 0 \<longleftrightarrow> gas_left m mod 2 ^ 64 = 0"
proof -
  have "gas_available (env m) 0 = 0 \<longleftrightarrow> unat (bswap64 (gas_available (env m) 0)) = 0"
    by (simp only: unat_eq_zero bswap64_eq_0)
  then show ?thesis by (simp only: low_limb gas_left_def)
qed

lemma cell_get_low:
  "depth m (Suc n) \<Longrightarrow> cell_get (sp (env m) - 3) m = Inr (elem_reg m n 0)"
  "depth m (Suc (Suc n)) \<Longrightarrow> cell_get (sp (env m) - 7) m = Inr (elem_reg m n 0)"
proof -
  have u: "unat (of_nat (4 * n) :: u64) = 4 * n" if "n < 512"
    unfolding unat_of_nat by (rule mod_less) (use that in simp)
  have e: "depth m (Suc n) \<Longrightarrow> sp (env m) - 3 = of_nat (4 * n)"
      "depth m (Suc (Suc n)) \<Longrightarrow> sp (env m) - 7 = of_nat (4 * n)"
    by (simp_all add: depth_def)
  show "depth m (Suc n) \<Longrightarrow> cell_get (sp (env m) - 3) m = Inr (elem_reg m n 0)"
    and "depth m (Suc (Suc n)) \<Longrightarrow> cell_get (sp (env m) - 7) m = Inr (elem_reg m n 0)"
    unfolding cell_get_def using u e by (simp_all add: depth_def STACK_LEN_def elem_reg_def)
qed

lemma finalize_fields [simp]:
  "env (finalize m) = env m" "out (finalize m) = out m" "cell_get i (finalize m) = cell_get i m"
  by (simp_all add: finalize_def cell_get_def)

lemma result_bytes_val:
  "unat a + n \<le> BUS_LEN \<Longrightarrow> result_bytes n a m = Inr (concat (map fmt_02X (bus_slice m (unat a) n)))"
proof (induction n arbitrary: a)
  case (Suc n)
  then have "unat (a + 1) = unat a + 1" by (simp add: BUS_LEN_def unat_word_ariths)
  with Suc show ?case by (simp add: bus_slice_def map_upt_Suc del: upt_Suc)
qed (simp add: bus_slice_def)

lemma result_bytes_overflow:
  "0 < n \<Longrightarrow> BUS_LEN < unat a + n \<Longrightarrow> result_bytes n a m = Inl OutOfBounds"
proof (induction n arbitrary: a)
  case (Suc n)
  show ?case
  proof (cases "unat a < BUS_LEN")
    case True
    then have "unat (a + 1) = unat a + 1" by (simp add: BUS_LEN_def unat_word_ariths)
    then have "result_bytes n (a + 1) m = Inl OutOfBounds" using Suc True by (intro Suc.IH) auto
    then show ?thesis by (simp add: rd_def)
  qed (simp add: rd_def)
qed simp

lemma report_range:
  assumes "holds m (x # y # st)" and "gas_available (env m) 0 \<noteq> 0"
  defines "offs \<equiv> unat x mod 2 ^ 64" and "n \<equiv> unat y mod 2 ^ 64"
  shows "result_message m = Inl (if n = 0 \<or> offs + n \<le> BUS_LEN
    then Exited 0 (out m @ ''0x'' @ concat (map fmt_02X (bus_slice m offs n)) @ [char_of (10::nat)]) else OutOfBounds)"
proof -
  define k where "k = length st"
  have d: "depth m (Suc (Suc k))" "elem m (Suc k) = x" "elem m k = y" using assms(1) by (simp_all add: holds_Cons stack_list_Suc k_def)
  have v: "unat (bswap64 (elem_reg m (Suc k) 0)) = offs" "unat (bswap64 (elem_reg m k 0)) = n"
    unfolding offs_def n_def using d(2,3) unat_elem by (metis low_limb)+
  define m1 where "m1 = finalize m \<lparr> env := (env m) \<lparr> sp := sp (env m) - 8 \<rparr> \<rparr>"
  define o1 where "o1 = bswap64 (elem_reg m (Suc k) 0)"
  have "result_bytes n o1 m1 = (if n = 0 \<or> offs + n \<le> BUS_LEN then Inr (concat (map fmt_02X (bus_slice m offs n))) else Inl OutOfBounds)"
  proof (cases "n = 0")
    case False
    have "bus_slice m1 = bus_slice m" by (simp add: bus_slice_def m1_def fun_eq_iff)
    with False show ?thesis using result_bytes_val [of o1 n m1] result_bytes_overflow [of n o1 m1] v(1) by (simp add: o1_def)
  qed (simp add: bus_slice_def)
  then show ?thesis
    using assms(2) cell_get_low(1) [OF d(1)] cell_get_low(2) [OF d(1)] v(2)
    by (simp add: result_message_def Let_def m1_def o1_def)
qed

lemma report_underflow:
  assumes "holds m st" and "length st < 2" and "gas_available (env m) 0 \<noteq> 0"
  shows "result_message m = Inl OutOfBounds"
proof -
  have s: "sp (env m) = of_int (4 * int (length st) - 1)" using assms(1) by (simp add: holds_def depth_def)
  consider "length st = 0" | "length st = 1" using assms(2) by linarith
  then show ?thesis
  proof cases
    case 1
    then have "cell_get (sp (env m) - 3) m = Inl OutOfBounds" using s by (simp add: cell_get_def rd_def STACK_LEN_def)
    then show ?thesis using assms(3) by (simp add: result_message_def Let_def)
  next
    case 2
    then show ?thesis using assms(3) s by (simp add: result_message_def Let_def cell_get_def rd_def STACK_LEN_def)
  qed
qed

section \<open>Properties\<close>

text \<open>C22: the hash instruction pushes the Keccak-256 value of the bytes of data memory it is given, whatever lies in memory
  behind the lanes of the hash state, and changes nothing else; a block of more than 255 bytes overruns
  the local buffer.\<close>

theorem keccak_instruction:
  assumes "holds m st" and "length st < 512" and "unat offs + unat sz \<le> BUS_LEN"
  shows "(unat sz \<le> 255 \<longrightarrow> (\<exists>m'. KeccakAlg beyond offs sz m = Inr m'
      \<and> holds m' (keccak256 (bus_slice m (unat offs) (unat sz)) # st) \<and> stepped 0 0 m m'))
    \<and> (255 < unat sz \<longrightarrow> KeccakAlg beyond offs sz m = Inl OutOfBounds)"
proof -
  have "KeccakAlg beyond offs sz m = Inl OutOfBounds" if "255 < unat sz"
    using bus_bytes_overflow [OF that, of offs 0] assms(3) by (simp add: KeccakAlg_def Let_def)
  then show ?thesis using KeccakAlg_val [OF assms, of beyond] by metis
qed

theorem keccak_instruction_witness:
  "(\<exists>m'. KeccakAlg (\<lambda>_. 0) 4 3 (loaded 0 [1]) = Inr m' \<and> holds m' [keccak256 [0, 0, 0], 1])
   \<and> KeccakAlg (\<lambda>_. 0) 0 300 (loaded 0 [1]) = Inl OutOfBounds"
proof -
  have h: "holds (loaded 0 [1]) [1]" by (rule holds_loaded) simp
  have "bus_slice (loaded 0 [1]) 4 3 = [0, 0, 0]" by (simp add: bus_slice_def loaded_def zero_cpu_def upt_rec)
  with keccak_instruction [OF h, of 4 3 "\<lambda>_. 0"] keccak_instruction [OF h, of 0 300 "\<lambda>_. 0"] show ?thesis
    by (auto simp: BUS_LEN_def)
qed

text \<open>C28: the final report ends the process whatever the stack holds. With an empty low gas limb it reports a gas error and
  status -1. Otherwise it prints, in hexadecimal and with status 0, the bytes of data memory that the low 64 bits of the two
  top elements name as offset and size; a range that leaves data memory and a stack of fewer than two elements are read
  outside the arrays.\<close>

theorem result_message_report:
  assumes "holds m st"
  shows "result_message m = Inl
    (if gas_left m mod 2 ^ 64 = 0 then Exited (- 1) (out m @ [char_of (10::nat)] @ ''gas limit error'' @ [char_of (10::nat)])
     else case st of
         x # y # _ \<Rightarrow>
           (let offs = unat x mod 2 ^ 64; n = unat y mod 2 ^ 64 in
            if n = 0 \<or> offs + n \<le> BUS_LEN
            then Exited 0 (out m @ ''0x'' @ concat (map fmt_02X (bus_slice m offs n)) @ [char_of (10::nat)])
            else OutOfBounds)
       | _ \<Rightarrow> OutOfBounds)"
proof (cases "gas_left m mod 2 ^ 64 = 0")
  case True
  then show ?thesis using gas_low_limb [of m] by (simp add: result_message_def Let_def)
next
  case False
  then have g: "gas_available (env m) 0 \<noteq> 0" using gas_low_limb [of m] by simp
  show ?thesis
  proof (cases "2 \<le> length st")
    case True
    then obtain x y tl where st: "st = x # y # tl" by (cases st rule: list.exhaust; cases "List.tl st" rule: list.exhaust) auto
    show ?thesis using False report_range [OF assms [unfolded st] g] by (simp add: st Let_def)
  next
    case short: False
    then have "result_message m = Inl OutOfBounds" using report_underflow [OF assms _ g] by simp
    then show ?thesis using False short by (auto split: list.split)
  qed
qed

theorem result_message_report_witness:
  "result_message (loaded 5 [2, 3]) = Inl (Exited 0 (''0x000000'' @ [char_of (10::nat)]))"
proof -
  have h: "holds (loaded 5 [2, 3]) [2, 3]" by (rule holds_loaded) simp
  have "bus_slice (loaded 5 [2, 3]) 2 3 = [0, 0, 0]" by (simp add: bus_slice_def loaded_def zero_cpu_def upt_rec)
  moreover have "char_of (48 :: nat) = CHR ''0''" by (simp add: char_of_eq_iff)
  ultimately show ?thesis using result_message_report [OF h] by (simp add: BUS_LEN_def fmt_02X_def HEX_char_def)
qed

end
