(* ===== verification/Mem_Access.thy ===== *)
theory Mem_Access
  imports Cpu_State
begin

unbundle bit_operations_syntax

text \<open>
  Guest memory as the helpers see it: the loads and stores of \<^verbatim>\<open>target-ppdl/semihosting_helper.c\<close> in the system
  emulation build (no \<^verbatim>\<open>TLM\<close>, no user-mode memory) and the memory tracing mask of \<^verbatim>\<open>include/qemu/trace.h\<close>.

  Memory is a function from addresses to bytes; a wider access is little-endian. The board has one region of
  RAM, \<open>ram_size\<close> bytes from address 0 on, a multiple of the page size; an access with a byte outside it ends in
  \<^verbatim>\<open>ppdl_cpu_unassigned_access\<close>, which raises \<^verbatim>\<open>EXCP_DBE\<close>. The address translation is the identity. The lists of
  traced addresses and registers are the entries before their terminator. A C string read past the
  end of its buffer is an access out of bounds.
\<close>

section \<open>Numbers in text\<close>

definition isspace :: "char \<Rightarrow> bool" where
  "isspace c = (code_of c = 32 \<or> (9 \<le> code_of c \<and> code_of c \<le> 13))"

definition isodigit :: "char \<Rightarrow> bool" where
  "isodigit c = (48 \<le> code_of c \<and> code_of c \<le> 55)"

definition oct_val :: "string \<Rightarrow> nat" where
  "oct_val s = foldl (\<lambda>a c. 8 * a + (code_of c - 48)) 0 s"

text \<open>\<^verbatim>\<open>strtol(s, NULL, 0)\<close>: blanks, a sign, the base from the prefix, saturation at the width of \<^verbatim>\<open>long\<close>.\<close>

definition strtol_digits :: "string \<Rightarrow> nat" where
  "strtol_digits s =
     (case s of
        z # x # d # _ \<Rightarrow>
          if z = CHR ''0'' \<and> (x = CHR ''x'' \<or> x = CHR ''X'') \<and> isxdigit d then hex_val (takeWhile isxdigit (drop 2 s))
          else if z = CHR ''0'' then oct_val (takeWhile isodigit s) else dec_val (takeWhile isdigit s)
      | z # _ \<Rightarrow> if z = CHR ''0'' then oct_val (takeWhile isodigit s) else dec_val (takeWhile isdigit s)
      | [] \<Rightarrow> 0)"

definition strtol0 :: "string \<Rightarrow> int" where
  "strtol0 str =
     (let s = dropWhile isspace str;
          v = (case s of
                 c # cs \<Rightarrow> if c = CHR ''-'' then - int (strtol_digits cs)
                           else if c = CHR ''+'' then int (strtol_digits cs) else int (strtol_digits s)
               | [] \<Rightarrow> 0)
      in max (- (2 ^ 63)) (min (2 ^ 63 - 1) v))"

definition as_int :: "int \<Rightarrow> int" where
  "as_int v = sint (of_int v :: u32)"

section \<open>The memory tracing mask\<close>

text \<open>
  \<^verbatim>\<open>addrstring\<close> is a buffer of ten characters that lives through the whole loop. \<^verbatim>\<open>strncpy\<close> copies a part of the
  entry over its beginning and leaves the rest; a text without a terminator in the buffer is read
  past its end.
\<close>

definition nul :: char where "nul = char_of (0 :: nat)"

definition strncpy_buf :: "string \<Rightarrow> string \<Rightarrow> string run" where
  "strncpy_buf buf s = (if length s > length buf then Inl OutOfBounds else Inr (s @ drop (length s) buf))"

definition buf_strtol :: "string \<Rightarrow> int run" where
  "buf_strtol buf = (if nul \<in> set buf then Inr (as_int (strtol0 (takeWhile (\<lambda>c. c \<noteq> nul) buf))) else Inl OutOfBounds)"

fun split_at :: "char \<Rightarrow> string \<Rightarrow> (string \<times> string) option" where
  "split_at c [] = None"
| "split_at c (x # xs) = (if x = c then Some ([], xs) else map_option (\<lambda>(a, b). (x # a, b)) (split_at c xs))"

definition mask_entry :: "string \<Rightarrow> u64 \<Rightarrow> string \<Rightarrow> (bool \<times> string) run" where
  "mask_entry p addr buf =
     (case split_at (CHR ''-'') p of
        Some (low # lows, hi) \<Rightarrow>
          rbind (strncpy_buf buf (low # lows)) (\<lambda>b1.
          rbind (buf_strtol b1) (\<lambda>addr_low.
          rbind (strncpy_buf b1 hi) (\<lambda>b2.
          rbind (buf_strtol b2) (\<lambda>addr_hi. Inr (addr \<ge> of_int addr_low \<and> addr \<le> of_int addr_hi, b2)))))
      | _ \<Rightarrow>
          rbind (strncpy_buf buf p) (\<lambda>b1.
          rbind (buf_strtol b1) (\<lambda>addr_low. Inr (addr = of_int addr_low, b1))))"

fun mem_mask_loop :: "string list \<Rightarrow> u64 \<Rightarrow> string \<Rightarrow> bool run" where
  "mem_mask_loop [] addr buf = Inr False"
| "mem_mask_loop (p # ps) addr buf =
     rbind (mask_entry p addr buf) (\<lambda>(hit, buf'). if hit then Inr True else mem_mask_loop ps addr buf')"

definition qemu_mem_mask :: "string list \<Rightarrow> u64 \<Rightarrow> bool run" where
  "qemu_mem_mask ps addr = mem_mask_loop ps addr (replicate 10 nul)"

section \<open>Loads and stores\<close>

record guest =
  gmem :: "u64 \<Rightarrow> u8"
  ram_size :: nat
  use_memtracer :: bool
  memlist :: "string list"

fun fmt_X :: "nat \<Rightarrow> string" where
  "fmt_X n = (if n < 16 then [HEX_char n] else fmt_X (n div 16) @ [HEX_char (n mod 16)])"

definition ld_le :: "(u64 \<Rightarrow> u8) \<Rightarrow> u64 \<Rightarrow> nat \<Rightarrow> u64" where
  "ld_le mem addr n = foldr (\<lambda>k w. push_bit 8 w OR ucast (mem (addr + of_nat k))) [0..<n] 0"

definition st_le :: "(u64 \<Rightarrow> u8) \<Rightarrow> u64 \<Rightarrow> nat \<Rightarrow> u64 \<Rightarrow> u64 \<Rightarrow> u8" where
  "st_le mem addr n data = fold (\<lambda>k mem. mem(addr + of_nat k := ucast (drop_bit (8 * k) data))) [0..<n] mem"

definition EXCP_DBE :: nat where "EXCP_DBE = 0x11"

definition in_ram :: "guest \<Rightarrow> u64 \<Rightarrow> nat \<Rightarrow> bool" where
  "in_ram g addr n \<longleftrightarrow> unat addr + n \<le> ram_size g"

text \<open>A load or store of \<open>n\<close> bytes as the emulator performs it.\<close>

definition cpu_ld :: "guest \<Rightarrow> u64 \<Rightarrow> nat \<Rightarrow> u64 run" where
  "cpu_ld g addr n = (if in_ram g addr n then Inr (ld_le (gmem g) addr n) else Inl (Raised EXCP_DBE))"

definition cpu_st :: "u64 \<Rightarrow> nat \<Rightarrow> u64 \<Rightarrow> guest \<Rightarrow> guest run" where
  "cpu_st addr n data g =
     (if in_ram g addr n then Inr (g \<lparr> gmem := st_le (gmem g) addr n data \<rparr>) else Inl (Raised EXCP_DBE))"

definition device_addr :: "u64 \<Rightarrow> bool" where
  "device_addr a = (a > 0x10000000 \<and> a < 0x1FFFFFFF)"

definition device_warning :: "u64 \<Rightarrow> string" where
  "device_warning a = ''warning: access to memory of devices: '' @ fmt_X (unat a) @ [char_of (10::nat)]"

definition mem_trace_line :: "guest \<Rightarrow> string \<Rightarrow> u64 \<Rightarrow> u64 \<Rightarrow> string run" where
  "mem_trace_line g what a data =
     rbind (qemu_mem_mask (memlist g) a) (\<lambda>b.
       Inr (if use_memtracer g \<and> b
            then what @ '': addr: '' @ fmt_X (unat a) @ '', data: '' @ fmt_X (unat data) @ [char_of (10::nat)] else []))"

definition mem_ld64 :: "guest \<Rightarrow> u64 \<Rightarrow> (u64 \<times> string) run" where
  "mem_ld64 g addr =
     (let a = drop_bit 2 addr in
      if device_addr a then Inr (0, device_warning a)
      else rbind (cpu_ld g addr 8) (\<lambda>data.
           rbind (mem_trace_line g ''mem load 64'' a data) (\<lambda>t. Inr (data, t))))"

definition mem_ld32 :: "guest \<Rightarrow> u64 \<Rightarrow> (u64 \<times> string) run" where
  "mem_ld32 g addr =
     (let a = drop_bit 2 addr in
      if device_addr a then Inr (0, device_warning a)
      else rbind (cpu_ld g addr 4) (\<lambda>data.
           rbind (mem_trace_line g ''mem load 32'' a data) (\<lambda>t. Inr (data, t))))"

definition mem_st64 :: "u64 \<Rightarrow> u64 \<Rightarrow> guest \<Rightarrow> (guest \<times> string) run" where
  "mem_st64 addr data g =
     (let a = drop_bit 2 addr in
      rbind (mem_trace_line g ''mem store 64'' a data) (\<lambda>t.
        if device_addr a then Inr (g, t @ device_warning a)
        else rbind (cpu_st addr 8 data g) (\<lambda>g1. Inr (g1, t))))"

definition mem_st32 :: "u64 \<Rightarrow> u64 \<Rightarrow> guest \<Rightarrow> (guest \<times> string) run" where
  "mem_st32 addr data g =
     (let a = drop_bit 2 addr in
      rbind (mem_trace_line g ''mem store 32'' a data) (\<lambda>t.
        if device_addr a then Inr (g, t @ device_warning a)
        else rbind (cpu_st addr 4 data g) (\<lambda>g1. Inr (g1, t))))"

definition mem_ld8 :: "guest \<Rightarrow> u64 \<Rightarrow> (u64 \<times> string) run" where
  "mem_ld8 g addr =
     rbind (cpu_ld g addr 1) (\<lambda>byte.
       let data = scast (ucast byte :: u8)
       in rbind (mem_trace_line g ''mem load 8'' addr data) (\<lambda>t. Inr (data, t)))"

text \<open>
  What the loop reads for a list of entries without a range: every entry is copied over the beginning of the text that the buffer
  holds from the entries before it.
\<close>

fun texts_read :: "string \<Rightarrow> string list \<Rightarrow> string list" where
  "texts_read q [] = []"
| "texts_read q (p # ps) = (p @ drop (length p) q) # texts_read (p @ drop (length p) q) ps"

definition plain_text :: "string \<Rightarrow> bool" where
  "plain_text p \<longleftrightarrow> CHR ''-'' \<notin> set p \<and> nul \<notin> set p"

section \<open>Bytes of a stored number\<close>

lemma st_le_byte:
  assumes "k < n" and "n \<le> 8"
  shows "st_le mem addr n data (addr + of_nat k) = ucast (drop_bit (8 * k) data)"
  using assms
proof (induction n)
  case (Suc n)
  have "of_nat k = (of_nat n :: u64) \<longleftrightarrow> k = n" using Suc.prems by (simp add: word_unat_eq_iff unat_of_nat)
  with Suc show ?case by (cases "k = n") (simp_all add: st_le_def)
qed simp

lemma st_le_other:
  assumes "\<And>k. k < n \<Longrightarrow> a \<noteq> addr + of_nat k"
  shows "st_le mem addr n data a = mem a"
  using assms by (induction n) (simp_all add: st_le_def)

lemma ld_le_Suc:
  "ld_le mem addr (Suc n) = push_bit 8 (ld_le mem (addr + 1) n) OR ucast (mem addr)"
proof -
  have "foldr f (map Suc ks) z = foldr (\<lambda>k. f (Suc k)) ks z" for f :: "nat \<Rightarrow> u64 \<Rightarrow> u64" and ks z
    by (induction ks) simp_all
  then show ?thesis
    by (simp add: ld_le_def upt_conv_Cons map_Suc_upt [symmetric] add.commute add.left_commute del: upt_Suc)
qed

lemma bit_ld_le: "n \<le> 8 \<Longrightarrow> bit (ld_le mem addr n) i \<longleftrightarrow> i < 8 * n \<and> bit (mem (addr + of_nat (i div 8))) (i mod 8)"
proof (induction n arbitrary: addr i)
  case 0
  then show ?case by (simp add: ld_le_def)
next
  case (Suc n)
  show ?case
  proof (cases "i < 8")
    case True
    then show ?thesis by (simp add: ld_le_Suc bit_simps)
  next
    case False
    then obtain j where j: "i = j + 8" by (metis add.commute le_add_diff_inverse not_less)
    have "\<not> bit (mem addr) i" using False bit_imp_le_length [of "mem addr" i] by auto
    moreover have "(j + 8) div 8 = Suc (j div 8)" by simp
    then have "addr + of_nat ((j + 8) div 8) = addr + 1 + of_nat (j div 8)" by (simp only: of_nat_Suc add.assoc)
    ultimately show ?thesis using Suc j by (auto simp: ld_le_Suc bit_simps add.assoc)
  qed
qed

lemma ld_st_le: "n \<le> 8 \<Longrightarrow> ld_le (st_le mem addr n data) addr n = take_bit (8 * n) data"
  by (rule bit_word_eqI) (auto simp: bit_ld_le bit_simps st_le_byte)

lemma ld_st_le_8: "ld_le (st_le mem addr 8 data) addr 8 = data"
  using ld_st_le [of 8 mem addr data] by (simp add: take_bit_word_eq_self)

lemma trace_line_runs:
  assumes "qemu_mem_mask (memlist g) a = Inr hit"
  shows "\<exists>t. mem_trace_line g what a d = Inr t"
  using assms by (simp add: mem_trace_line_def)

text \<open>One width of the accesses; \<open>what\<close> stands for the text of the trace line.\<close>

lemma store_then_load:
  assumes "qemu_mem_mask (memlist g) a = Inr hit" and "in_ram g addr n" and "n \<le> 8"
  shows "\<exists>g1 t. rbind (mem_trace_line g what a data) (\<lambda>t. rbind (cpu_st addr n data g) (\<lambda>g1. Inr (g1, t))) = Inr (g1, t)
    \<and> (\<exists>t. rbind (cpu_ld g1 addr n) (\<lambda>d. rbind (mem_trace_line g1 what' a d) (\<lambda>t. Inr (d, t))) = Inr (take_bit (8 * n) data, t))
    \<and> (\<forall>b. (\<forall>k < n. b \<noteq> addr + of_nat k) \<longrightarrow> gmem g1 b = gmem g b)"
proof -
  define g1 where "g1 = g \<lparr> gmem := st_le (gmem g) addr n data \<rparr>"
  have "qemu_mem_mask (memlist g1) a = Inr hit" "in_ram g1 addr n" using assms by (simp_all add: g1_def in_ram_def)
  then have "cpu_ld g1 addr n = Inr (take_bit (8 * n) data)" "\<exists>t. mem_trace_line g1 what' a (take_bit (8 * n) data) = Inr t"
    using ld_st_le [OF assms(3)] trace_line_runs by (simp_all add: cpu_ld_def g1_def)
  moreover have "cpu_st addr n data g = Inr g1" using assms(2) by (simp add: cpu_st_def g1_def)
  moreover obtain t where "mem_trace_line g what a data = Inr t" using trace_line_runs [OF assms(1)] by blast
  moreover have "gmem g1 b = gmem g b" if "\<forall>k < n. b \<noteq> addr + of_nat k" for b
    using st_le_other [of n b addr] that by (simp add: g1_def)
  ultimately show ?thesis by (intro exI [of _ g1] exI [of _ t]) auto
qed

text \<open>C33: when the list of traced addresses can be read, the accesses to guest memory do the following. Strictly inside the window of
  the devices a store changes nothing, a load gives zero, and both print a warning; the first and the last address of the window
  are ordinary memory. Elsewhere an access with a byte outside RAM raises the bus exception; inside RAM a load gives the
  number stored last at its address, cut to its width, and a store changes no byte outside the cell.\<close>

theorem mem_store_load:
  assumes "qemu_mem_mask (memlist g) (drop_bit 2 addr) = Inr hit"
    and "window \<longleftrightarrow> 0x10000000 < drop_bit 2 addr \<and> drop_bit 2 addr < 0x1FFFFFFF"
  shows "(window \<longrightarrow> (\<exists>t. mem_st64 addr data g = Inr (g, t @ device_warning (drop_bit 2 addr)))
      \<and> (\<exists>t. mem_st32 addr data g = Inr (g, t @ device_warning (drop_bit 2 addr)))
      \<and> mem_ld64 g addr = Inr (0, device_warning (drop_bit 2 addr)) \<and> mem_ld32 g addr = Inr (0, device_warning (drop_bit 2 addr)))
    \<and> (\<not> window \<and> ram_size g < unat addr + 8 \<longrightarrow>
      mem_st64 addr data g = Inl (Raised EXCP_DBE) \<and> mem_ld64 g addr = Inl (Raised EXCP_DBE))
    \<and> (\<not> window \<and> ram_size g < unat addr + 4 \<longrightarrow>
      mem_st32 addr data g = Inl (Raised EXCP_DBE) \<and> mem_ld32 g addr = Inl (Raised EXCP_DBE))
    \<and> (\<not> window \<and> unat addr + 8 \<le> ram_size g \<longrightarrow>
      (\<exists>g1 t1. mem_st64 addr data g = Inr (g1, t1) \<and> (\<exists>t. mem_ld64 g1 addr = Inr (data, t))
        \<and> (\<forall>a. (\<forall>k < 8. a \<noteq> addr + of_nat k) \<longrightarrow> gmem g1 a = gmem g a)))
    \<and> (\<not> window \<and> unat addr + 4 \<le> ram_size g \<longrightarrow>
      (\<exists>g2 t2. mem_st32 addr data g = Inr (g2, t2) \<and> (\<exists>t. mem_ld32 g2 addr = Inr (take_bit 32 data, t))
        \<and> (\<forall>a. (\<forall>k < 4. a \<noteq> addr + of_nat k) \<longrightarrow> gmem g2 a = gmem g a)))"
proof -
  note tr = trace_line_runs [OF assms(1)]
  have w: "device_addr (drop_bit 2 addr) = window" using assms(2) by (simp add: device_addr_def)
  note defs = mem_st64_def mem_st32_def mem_ld64_def mem_ld32_def Let_def w
  have 1: "window \<longrightarrow> (\<exists>t. mem_st64 addr data g = Inr (g, t @ device_warning (drop_bit 2 addr)))
      \<and> (\<exists>t. mem_st32 addr data g = Inr (g, t @ device_warning (drop_bit 2 addr)))
      \<and> mem_ld64 g addr = Inr (0, device_warning (drop_bit 2 addr)) \<and> mem_ld32 g addr = Inr (0, device_warning (drop_bit 2 addr))"
    using tr [of "''mem store 64''" data] tr [of "''mem store 32''" data] by (auto simp: defs)
  have 2: "\<not> window \<and> ram_size g < unat addr + 8 \<longrightarrow>
      mem_st64 addr data g = Inl (Raised EXCP_DBE) \<and> mem_ld64 g addr = Inl (Raised EXCP_DBE)"
    using tr [of "''mem store 64''" data] by (auto simp: defs cpu_ld_def cpu_st_def in_ram_def)
  have 3: "\<not> window \<and> ram_size g < unat addr + 4 \<longrightarrow>
      mem_st32 addr data g = Inl (Raised EXCP_DBE) \<and> mem_ld32 g addr = Inl (Raised EXCP_DBE)"
    using tr [of "''mem store 32''" data] by (auto simp: defs cpu_ld_def cpu_st_def in_ram_def)
  show ?thesis
    using 1 2 3 store_then_load [OF assms(1), of addr 8 "''mem store 64''" data "''mem load 64''"]
      store_then_load [OF assms(1), of addr 4 "''mem store 32''" data "''mem load 32''"]
    by (simp add: defs in_ram_def take_bit_word_eq_self)
qed

theorem mem_store_load_witness:
  "(\<exists>g1 t1 t. mem_st64 64 0x1122334455667788 \<lparr> gmem = (\<lambda>_. 0), ram_size = 0x8000000, use_memtracer = False, memlist = [] \<rparr> = Inr (g1, t1)
     \<and> mem_ld64 g1 64 = Inr (0x1122334455667788, t))
   \<and> mem_ld64 \<lparr> gmem = (\<lambda>_. 0), ram_size = 0x8000000, use_memtracer = False, memlist = [] \<rparr> 0x40000000 = Inl (Raised EXCP_DBE)"
proof -
  define g where "g = \<lparr> gmem = (\<lambda>_. 0), ram_size = 0x8000000, use_memtracer = False, memlist = [] \<rparr>"
  have m: "qemu_mem_mask (memlist g) a = Inr False" "ram_size g = 0x8000000" for a by (simp_all add: g_def qemu_mem_mask_def)
  from mem_store_load [where addr = "64" and data = "0x1122334455667788", OF m(1) refl] mem_store_load [where addr = "0x40000000", OF m(1) refl] show ?thesis
    unfolding g_def [symmetric] by (simp add: m(2)) blast
qed

section \<open>Traced addresses\<close>

lemma nul_printable: "nul = c \<longleftrightarrow> code_of c = (0 :: nat)"
  by (metis (no_types, lifting) char_of_char nul_def of_char_of mod_0)

lemma split_at_none: "c \<notin> set p \<Longrightarrow> split_at c p = None"
  by (induction p) auto

lemma plain_entry:
  assumes "plain_text p" and "nul \<notin> set q" and "length p \<le> 9" and "length q \<le> 9" and "t = p @ drop (length p) q"
  shows "mask_entry p addr (q @ replicate (10 - length q) nul) =
    Inr (addr = of_int (as_int (strtol0 t)), t @ replicate (10 - length t) nul)"
proof -
  have b: "p @ drop (length p) (q @ replicate (10 - length q) nul) = t @ replicate (10 - length t) nul"
    using assms(3-5) by (simp add: max_def)
  have t: "nul \<notin> set t" "length t \<le> 9" using assms by (auto simp: plain_text_def dest: in_set_dropD)
  then have "takeWhile (\<lambda>c. c \<noteq> nul) (t @ replicate (10 - length t) nul) = t" by (subst takeWhile_append2) auto
  moreover have "nul \<in> set (t @ replicate (10 - length t) nul)" using t(2) by simp
  ultimately have "buf_strtol (t @ replicate (10 - length t) nul) = Inr (as_int (strtol0 t))" by (simp only: buf_strtol_def if_True)
  moreover have "strncpy_buf (q @ replicate (10 - length q) nul) p = Inr (t @ replicate (10 - length t) nul)"
    unfolding strncpy_buf_def b using assms(3,4) by simp
  ultimately show ?thesis using assms(1) by (simp add: mask_entry_def plain_text_def split_at_none)
qed

lemma plain_entries:
  assumes "\<forall>p\<in>set ps. plain_text p \<and> length p \<le> 9" and "nul \<notin> set q" and "length q \<le> 9"
  shows "\<exists>t. nul \<notin> set t \<and> length t \<le> 9 \<and> mem_mask_loop (ps @ qs) addr (q @ replicate (10 - length q) nul) =
    (if \<exists>t\<in>set (texts_read q ps). addr = of_int (as_int (strtol0 t)) then Inr True
     else mem_mask_loop qs addr (t @ replicate (10 - length t) nul))"
  using assms
proof (induction ps arbitrary: q)
  case Nil
  then show ?case by (intro exI [of _ q]) simp
next
  case (Cons p ps)
  define t where "t = p @ drop (length p) q"
  have t: "nul \<notin> set t" "length t \<le> 9" using Cons.prems by (auto simp: plain_text_def t_def dest: in_set_dropD)
  have "mask_entry p addr (q @ replicate (10 - length q) nul) = Inr (addr = of_int (as_int (strtol0 t)), t @ replicate (10 - length t) nul)"
    using Cons.prems by (intro plain_entry) (simp_all add: t_def)
  with Cons.IH [OF _ t] Cons.prems(1) t show ?case by (auto simp flip: t_def)
qed

lemma long_entry:
  assumes "plain_text p" and "10 \<le> length p" and "length buf = 10"
  shows "mask_entry p addr buf = Inl OutOfBounds"
  using assms by (simp add: mask_entry_def plain_text_def split_at_none strncpy_buf_def buf_strtol_def)

lemma texts_read_sorted: "sorted (map length (q # ps)) \<Longrightarrow> texts_read q ps = ps"
  by (induction ps arbitrary: q) auto

lemma strtol0_examples: "as_int (strtol0 ''0x1'') = 1" "as_int (strtol0 ''0x12345'') = 0x12345"
proof -
  have "hex_val ''1'' = 1" "hex_val ''12345'' = 0x12345"
    by (simp_all add: hex_val_def hex_digit_def tolower_def Let_def)
  then show "as_int (strtol0 ''0x1'') = 1" "as_int (strtol0 ''0x12345'') = 0x12345"
    by (simp_all add: strtol0_def strtol_digits_def as_int_def isspace_def isxdigit_def isdigit_def)
qed

text \<open>C34: what a list of single addresses traces. Every text of at most nine characters is copied over the beginning of the text
  read before it, and what the buffer then holds is the address that is traced; if the texts never get shorter these are the
  addresses of the list, and otherwise a shorter one is read with the tail of a longer one. A text of ten or more
  characters, as every address of the documented second memory has, is read past the end of the buffer when the loop reaches it.\<close>

theorem mem_mask_plain:
  assumes "\<forall>p\<in>set ps. plain_text p \<and> length p \<le> 9" and "plain_text p" and "10 \<le> length p"
    and "traced \<longleftrightarrow> (\<exists>t\<in>set (texts_read [] ps). addr = of_int (as_int (strtol0 t)))"
  shows "qemu_mem_mask ps addr = Inr traced
    \<and> (sorted (map length ps) \<longrightarrow> texts_read [] ps = ps)
    \<and> qemu_mem_mask (ps @ p # qs) addr = (if traced then Inr True else Inl OutOfBounds)"
proof -
  have l: "\<exists>t. length t \<le> 9 \<and> qemu_mem_mask (ps @ rs) addr =
      (if traced then Inr True else mem_mask_loop rs addr (t @ replicate (10 - length t) nul))" for rs
    using plain_entries [OF assms(1), of "[]" rs addr] by (auto simp: qemu_mem_mask_def assms(4))
  have "qemu_mem_mask ps addr = Inr traced" using l [of "[]"] by auto
  moreover have "qemu_mem_mask (ps @ p # qs) addr = (if traced then Inr True else Inl OutOfBounds)"
    using l [of "p # qs"] long_entry [OF assms(2,3)] by auto
  ultimately show ?thesis using texts_read_sorted [of "[]" ps] by simp
qed

theorem mem_mask_plain_witness:
  "qemu_mem_mask [''0x1'', ''0x12345''] 1 = Inr True \<and> qemu_mem_mask [''0x12345'', ''0x1''] 1 = Inr False
   \<and> qemu_mem_mask [''0x12345'', ''0x20000000''] 1 = Inl OutOfBounds"
proof -
  have p: "plain_text ''0x1''" "plain_text ''0x12345''" "plain_text ''0x20000000''" by (simp_all add: plain_text_def nul_printable)
  have "\<forall>p\<in>set [''0x1'', ''0x12345'']. plain_text p \<and> length p \<le> 9" "\<forall>p\<in>set [''0x12345'', ''0x1'']. plain_text p \<and> length p \<le> 9"
    "\<forall>p\<in>set [''0x12345'']. plain_text p \<and> length p \<le> 9" using p by simp_all
  from this [THEN mem_mask_plain, OF p(3) _ refl, of 1 "[]"] show ?thesis by (simp add: strtol0_examples)
qed

end
