(* ===== verification/Helpers.thy ===== *)
theory Helpers
  imports Evm_Ops Mem_Access
begin

unbundle bit_operations_syntax

text \<open>
  The helper functions the generated code calls: \<^verbatim>\<open>target-ppdl/func_helper.c\<close> (the \<^verbatim>\<open>HELPER\<close> versions),
  \<^verbatim>\<open>func_shared.c\<close> (the same functions for calls from C) and the dispatch lists of \<^verbatim>\<open>arglist_helper.c\<close>.

  The helpers index the stack with the unsigned 64-bit register \<^verbatim>\<open>sp\<close> itself; on the empty stack it holds
  \<open>-1\<close>, and \<open>sp + 1\<close> wraps to the first cell. Return values that the translator discards are not modelled.
  \<^verbatim>\<open>helper_error_message\<close> has an empty body.
\<close>

section \<open>Loops over machine steps\<close>

fun rfold :: "('a \<Rightarrow> 's \<Rightarrow> 's run) \<Rightarrow> 'a list \<Rightarrow> 's \<Rightarrow> 's run" where
  "rfold f [] s = Inr s"
| "rfold f (x # xs) s = rbind (f x s) (rfold f xs)"

definition sp_add :: "u64 \<Rightarrow> machine \<Rightarrow> machine" where
  "sp_add k m = m \<lparr> env := (env m) \<lparr> sp := sp (env m) + k \<rparr> \<rparr>"

definition bus_set :: "u64 \<Rightarrow> u64 \<Rightarrow> machine \<Rightarrow> machine run" where
  "bus_set i v m = rbind (wr BUS_LEN (data_bus (env m)) i v) (\<lambda>a. Inr (m \<lparr> env := (env m) \<lparr> data_bus := a \<rparr> \<rparr>))"

definition bus_get :: "u64 \<Rightarrow> machine \<Rightarrow> u64 run" where
  "bus_get i m = rd BUS_LEN (data_bus (env m)) i"

text \<open>The byte reversal as the generated code writes it, with the range-checked shifts.\<close>

definition pd_swap :: "u64 \<Rightarrow> u64" where
  "pd_swap d = fold (\<lambda>i a. a OR pd_lsh (pd_rsh d (8 * i) AND 0xFF) (8 * (7 - i))) [0, 1, 2, 3, 4, 5, 6, 7] 0"

text \<open>The bytes of an element read back into a number: the shift is by \<open>i\<close> bits, not by \<open>i\<close> bytes.\<close>

definition pd_gather :: "u64 \<Rightarrow> u64" where
  "pd_gather d = fold (\<lambda>i a. a OR pd_lsh (pd_rsh d (8 * (7 - i)) AND 0xFF) i) [0, 1, 2, 3, 4, 5, 6, 7] 0"

section \<open>Shared functions\<close>

definition USEGAS :: "u64 \<Rightarrow> machine \<Rightarrow> machine run" where
  "USEGAS v m = UseGas v m"

definition push_word :: "u64 \<Rightarrow> machine \<Rightarrow> machine run" where
  "push_word data_val m =
     (let m1 = sp_add 1 m in
      rbind (rfold (\<lambda>i. cell_set (sp (env m1) + of_nat i) ([data_val, 0, 0, 0] ! i)) [0, 1, 2, 3] m1) (\<lambda>m2.
        Inr (sp_add 3 m2)))"

definition PushSingleBlockToStack :: "u64 \<Rightarrow> machine \<Rightarrow> machine run" where
  "PushSingleBlockToStack data_tmp m = push_word (pd_swap data_tmp) m"

definition GetSingleBlockFromStack :: "machine \<Rightarrow> (u64 \<times> machine) run" where
  "GetSingleBlockFromStack m =
     rbind (cell_get (sp (env m) - 3) m) (\<lambda>data_tmp. Inr (pd_gather data_tmp, sp_add (- 4) m))"

definition GetElfSizeStub :: "machine \<Rightarrow> u64" where
  "GetElfSizeStub m = GetElfSize m"

definition Pop :: "machine \<Rightarrow> machine run" where
  "Pop m = Inr (sp_add (- 4) m)"

definition StopExec :: "machine \<Rightarrow> machine run" where
  "StopExec m = rbind (result_message m) (\<lambda>m1. Inl (Exited 0 (out m1)))"

definition MakeCall :: "machine \<Rightarrow> machine run" where "MakeCall m = USEGAS 0x28 m"
definition GetInputData :: "machine \<Rightarrow> machine run" where "GetInputData m = USEGAS 0x3 m"
definition CallDataCopy :: "machine \<Rightarrow> machine run" where "CallDataCopy m = USEGAS 0x3 m"
definition DelegateCall :: "machine \<Rightarrow> machine run" where "DelegateCall m = USEGAS 0x28 m"
definition Return :: "machine \<Rightarrow> machine run" where "Return m = rbind (USEGAS 0 m) StopExec"

definition GetOrigin :: "machine \<Rightarrow> machine run" where
  "GetOrigin m = (let oa = origin_addr (env m) in rbind (USEGAS 0x2 m) (PushSingleBlockToStack oa))"

definition GetGasPrice :: "machine \<Rightarrow> machine run" where
  "GetGasPrice m = (let gp = gas_price (env m) in rbind (USEGAS 0x2 m) (PushSingleBlockToStack gp))"

definition CallValue :: "machine \<Rightarrow> machine run" where "CallValue m = USEGAS 0x2 m"

definition GetGasLimit :: "machine \<Rightarrow> machine run" where
  "GetGasLimit m = rbind (USEGAS 0x2 m) (\<lambda>m. PushSingleBlockToStack (GasLimit (env m)) m)"

definition GetTimeStamp :: "machine \<Rightarrow> machine run" where
  "GetTimeStamp m = rbind (USEGAS 0x2 m) (\<lambda>m. PushSingleBlockToStack (TimeStamp (env m)) m)"

definition CodeCopy :: "machine \<Rightarrow> machine run" where "CodeCopy m = USEGAS 0x3 m"

definition BlockChainHash :: "machine \<Rightarrow> machine run" where
  "BlockChainHash m = rbind (USEGAS 0x14 m) (PushSingleBlockToStack 0)"

definition GetCaller :: "machine \<Rightarrow> machine run" where
  "GetCaller m = (let ca = caller_addr (env m) in rbind (USEGAS 0x2 m) (PushSingleBlockToStack ca))"

definition CreateAccount :: "machine \<Rightarrow> machine run" where "CreateAccount m = USEGAS 0x7D00 m"
definition ExtCodeCopy :: "machine \<Rightarrow> machine run" where "ExtCodeCopy m = USEGAS 0x14 m"

definition GetNumber :: "machine \<Rightarrow> machine run" where
  "GetNumber m = rbind (USEGAS 0x2 m) (\<lambda>m. PushSingleBlockToStack (Number (env m)) m)"

definition GetBalance :: "machine \<Rightarrow> machine run" where "GetBalance m = USEGAS 0x14 m"

definition GetDifficulty :: "machine \<Rightarrow> machine run" where
  "GetDifficulty m = rbind (USEGAS 0x2 m) (\<lambda>m. PushSingleBlockToStack (Difficulty (env m)) m)"

definition GetAddress :: "machine \<Rightarrow> machine run" where
  "GetAddress m = (let ca = cur_addr (env m) in rbind (USEGAS 0x2 m) (PushSingleBlockToStack ca))"

definition MakeCallCode :: "machine \<Rightarrow> machine run" where "MakeCallCode m = USEGAS 0x28 m"

definition GetCodeSize :: "machine \<Rightarrow> machine run" where
  "GetCodeSize m = (let elf_size = GetElfSizeStub m in rbind (USEGAS 0x2 m) (PushSingleBlockToStack elf_size))"

definition CallDataSize :: "machine \<Rightarrow> machine run" where
  "CallDataSize m = rbind (USEGAS 0x2 m) (\<lambda>m. PushSingleBlockToStack (inp_data_size (env m)) m)"

definition GetCoinBase :: "machine \<Rightarrow> machine run" where
  "GetCoinBase m = rbind (USEGAS 0x2 m) (\<lambda>m. PushSingleBlockToStack (CoinBase (env m)) m)"

definition ExtCodeSize :: "machine \<Rightarrow> machine run" where
  "ExtCodeSize m = rbind (USEGAS 0x14 m) (\<lambda>m. PushSingleBlockToStack (ext_code_size (env m)) m)"

section \<open>Helpers of the instructions\<close>

definition helper_USEGAS :: "u64 \<Rightarrow> machine \<Rightarrow> machine run" where
  "helper_USEGAS v m = UseGas v m"

definition helper_Pop :: "machine \<Rightarrow> machine run" where
  "helper_Pop m = Inr (sp_add (- 4) m)"

definition helper_GetSingleBlockFromStack :: "machine \<Rightarrow> (u64 \<times> machine) run" where
  "helper_GetSingleBlockFromStack m =
     rbind (cell_get (sp (env m) - 3) m) (\<lambda>data_tmp. Inr (pd_gather data_tmp, sp_add (- 4) m))"

definition helper_StopExec :: "machine \<Rightarrow> machine run" where
  "helper_StopExec m = rbind (result_message m) (\<lambda>m1. Inl (Exited 0 (out m1)))"

definition SaveToStorageStub :: "u64 \<Rightarrow> machine \<Rightarrow> machine run" where
  "SaveToStorageStub addr m = SaveToStorage (ucast addr) m"

definition LoadFromStorageStub :: "u64 \<Rightarrow> machine \<Rightarrow> machine run" where
  "LoadFromStorageStub addr m = LoadFromStorage (ucast addr) m"

definition ArithmStub :: "u64 \<Rightarrow> machine \<Rightarrow> machine run" where
  "ArithmStub opcode m = DoArithm (ucast opcode) m"

definition CompareStub :: "u64 \<Rightarrow> machine \<Rightarrow> machine run" where
  "CompareStub opcode m = DoCompare (ucast opcode) m"

text \<open>The two arguments of the hash instruction are cut to 32 bits.\<close>

definition KeccakAlgStub :: "(nat \<Rightarrow> u64) \<Rightarrow> machine \<Rightarrow> machine run" where
  "KeccakAlgStub beyond m =
     rbind (GetSingleBlockFromStack m) (\<lambda>(a, m1).
     rbind (GetSingleBlockFromStack m1) (\<lambda>(b, m2). KeccakAlg beyond (ucast a) (ucast b) m2))"

definition MSizeOp :: "machine \<Rightarrow> machine run" where
  "MSizeOp m = (let data_tmp = mem_size (env m) in push_word (pd_swap data_tmp) m)"

definition PcOp :: "machine \<Rightarrow> machine run" where
  "PcOp m = (let data_tmp = ucast (pc (env m)) in push_word (pd_swap data_tmp) m)"

definition DupOp :: "u64 \<Rightarrow> machine \<Rightarrow> machine run" where
  "DupOp count m =
     (let offset = 4 * ucast count :: u32; s = sp (env m) in
      rbind (cell_get (s - ucast offset) m) (\<lambda>c0.
      rbind (cell_get (s - ucast (offset + 1)) m) (\<lambda>c1.
      rbind (cell_get (s - ucast (offset + 2)) m) (\<lambda>c2.
      rbind (cell_get (s - ucast (offset + 3)) m) (\<lambda>c3.
        let m1 = sp_add 1 m; copy_el = [c0, c1, c2, c3]
        in rbind (rfold (\<lambda>i. cell_set (sp (env m1) + of_nat i) (copy_el ! (3 - i))) [0, 1, 2, 3] m1) (\<lambda>m2.
             Inr (sp_add 3 m2)))))))"

definition swap_cell :: "u32 \<Rightarrow> u64 list \<Rightarrow> nat \<Rightarrow> machine \<Rightarrow> machine run" where
  "swap_cell count first_el i m =
     (let offs = ucast (sp (env m) - ucast (4 * (count + 1) + of_nat i)) :: u32 in
      rbind (cell_get (ucast offs) m) (\<lambda>v.
      rbind (cell_set (sp (env m) - of_nat i) v m) (cell_set (ucast offs) (first_el ! i))))"

definition SwapOp :: "u64 \<Rightarrow> machine \<Rightarrow> machine run" where
  "SwapOp count m =
     (let s = sp (env m) in
      rbind (cell_get (s - 3) m) (\<lambda>f3.
      rbind (cell_get (s - 2) m) (\<lambda>f2.
      rbind (cell_get (s - 1) m) (\<lambda>f1.
      rbind (cell_get s m) (\<lambda>f0. rfold (swap_cell (ucast count) [f0, f1, f2, f3]) [0, 1, 2, 3] m)))))"

definition store_byte :: "u64 list \<Rightarrow> nat \<times> u64 \<Rightarrow> u64 \<times> machine \<Rightarrow> (u64 \<times> machine) run" where
  "store_byte data_val = (\<lambda>(j, i) (a, m).
     rbind (bus_set a (pd_rsh (data_val ! j) (8 * i) AND 0xFF AND 0xFF) m) (\<lambda>m'. Inr (a + 1, m')))"

definition word_bytes_order :: "(nat \<times> u64) list" where
  "word_bytes_order = concat (map (\<lambda>j. map (\<lambda>i. (j, i)) [0, 1, 2, 3, 4, 5, 6, 7]) [3, 2, 1, 0])"

definition MStoreInst :: "u64 \<Rightarrow> machine \<Rightarrow> machine run" where
  "MStoreInst addr_val m =
     (let s = sp (env m) in
      rbind (cell_get s m) (\<lambda>d3.
      rbind (cell_get (s - 1) m) (\<lambda>d2.
      rbind (cell_get (s - 2) m) (\<lambda>d1.
      rbind (cell_get (s - 3) m) (\<lambda>d0.
      rbind (rfold (store_byte [d0, d1, d2, d3]) word_bytes_order (addr_val, sp_add (- 4) m)) (\<lambda>(a, m1).
        Inr (if a > mem_size (env m1) then m1 \<lparr> env := (env m1) \<lparr> mem_size := a \<rparr> \<rparr> else m1)))))))"

fun load_word :: "u64 list \<Rightarrow> u64 \<Rightarrow> u32 \<Rightarrow> machine \<Rightarrow> (u64 \<times> u32) run" where
  "load_word [] d a m = Inr (d, a)"
| "load_word (i # is) d a m =
     rbind (bus_get (ucast a) m) (\<lambda>b. load_word is (d OR pd_lsh b (8 * i)) (a + 1) m)"

definition MloadInst :: "u64 \<Rightarrow> machine \<Rightarrow> machine run" where
  "MloadInst addr_val m =
     (let bytes = [0, 1, 2, 3, 4, 5, 6, 7]; s = sp (env m) in
      rbind (load_word bytes 0 (ucast addr_val) m) (\<lambda>(d3, a3).
      rbind (load_word bytes 0 a3 m) (\<lambda>(d2, a2).
      rbind (load_word bytes 0 a2 m) (\<lambda>(d1, a1).
      rbind (load_word bytes 0 a1 m) (\<lambda>(d0, a0).
      rbind (rfold (\<lambda>i. cell_set (s + of_nat (i + 1)) ([d0, d1, d2, d3] ! i)) [0, 1, 2, 3] m) (\<lambda>m1.
        Inr (sp_add 4 m1)))))))"

text \<open>
  \<^verbatim>\<open>PushInst\<close>: whole words of the constant, the rest of it, and zero for the words behind. The address of a
  byte is computed in 32 bits; every load may print a trace line.
\<close>

definition code_byte :: "guest \<Rightarrow> u32 \<Rightarrow> machine \<Rightarrow> (u64 \<times> machine) run" where
  "code_byte g off m =
     rbind (mem_ld8 g (ucast (pc (env m) + off))) (\<lambda>(d, t). Inr (d AND 0xFF, m \<lparr> out := out m @ t \<rparr>))"

fun push_bytes :: "guest \<Rightarrow> (nat \<Rightarrow> u32) \<Rightarrow> nat list \<Rightarrow> u64 \<Rightarrow> machine \<Rightarrow> (u64 \<times> machine) run" where
  "push_bytes g off [] a m = Inr (a, m)"
| "push_bytes g off (i # is) a m =
     rbind (code_byte g (off i) m) (\<lambda>(tmp, m1). push_bytes g off is (a OR pd_lsh tmp (8 * (7 - of_nat i))) m1)"

definition push_block :: "guest \<Rightarrow> u32 \<Rightarrow> nat \<Rightarrow> machine \<Rightarrow> machine run" where
  "push_block g cnt j m =
     rbind (push_bytes g (\<lambda>i. (cnt - of_nat i) - 8 * of_nat j) [0..<8] 0 m) (\<lambda>(a, m1).
       cell_set (sp (env m1) + of_nat j) a m1)"

definition PushInst :: "guest \<Rightarrow> u64 \<Rightarrow> machine \<Rightarrow> machine run" where
  "PushInst g count m =
     (let cnt = ucast count :: u32; n = unat (cnt div 8); r = cnt AND 7 in
      rbind (rfold (push_block g cnt) [0..<n] (sp_add 1 m)) (\<lambda>m1.
      rbind (if r \<noteq> 0 then
               rbind (push_bytes g (\<lambda>i. r - of_nat i) [0..<unat r] 0 m1) (\<lambda>(a, m2).
                 cell_set (sp (env m2) + of_nat n) a m2)
             else Inr m1) (\<lambda>m3.
      rbind (rfold (\<lambda>j. cell_set (sp (env m3) + of_nat j) 0) [n + 1..<4] m3) (\<lambda>m4.
        Inr (sp_add 3 m4)))))"

definition log_word :: "u32 \<Rightarrow> u32 \<Rightarrow> nat \<Rightarrow> machine \<Rightarrow> machine run" where
  "log_word count lp k m =
     rbind (cell_get (sp (env m)) m) (\<lambda>v.
     rbind (wr BUS_LEN (log_bus (env m)) (ucast ((lp + 2) + count)) v) (\<lambda>a.
       Inr (sp_add (- 1) (m \<lparr> env := (env m) \<lparr> log_bus := a \<rparr> \<rparr>))))"

definition LogInst :: "u64 \<Rightarrow> u64 \<Rightarrow> machine \<Rightarrow> machine run" where
  "LogInst count lp m =
     rfold (log_word (ucast count) (ucast lp)) [0..<unat (ucast count :: u32)] m"

section \<open>Array access of the generated code\<close>

definition input_data_get :: "u64 \<Rightarrow> machine \<Rightarrow> u64 run" where
  "input_data_get i m = rd BUS_LEN (input_data (env m)) i"

definition input_data_set :: "u64 \<Rightarrow> u64 \<Rightarrow> machine \<Rightarrow> machine run" where
  "input_data_set i v m =
     rbind (wr BUS_LEN (input_data (env m)) i v) (\<lambda>a. Inr (m \<lparr> env := (env m) \<lparr> input_data := a \<rparr> \<rparr>))"

definition log_bus_get :: "u64 \<Rightarrow> machine \<Rightarrow> u64 run" where
  "log_bus_get i m = rd BUS_LEN (log_bus (env m)) i"

definition log_bus_set :: "u64 \<Rightarrow> u64 \<Rightarrow> machine \<Rightarrow> machine run" where
  "log_bus_set i v m = rbind (wr BUS_LEN (log_bus (env m)) i v) (\<lambda>a. Inr (m \<lparr> env := (env m) \<lparr> log_bus := a \<rparr> \<rparr>))"

definition gas_available_get :: "u64 \<Rightarrow> machine \<Rightarrow> u64 run" where
  "gas_available_get i m = rd 4 (gas_available (env m)) i"

definition gas_available_set :: "u64 \<Rightarrow> u64 \<Rightarrow> machine \<Rightarrow> machine run" where
  "gas_available_set i v m =
     rbind (wr 4 (gas_available (env m)) i v) (\<lambda>a. Inr (m \<lparr> env := (env m) \<lparr> gas_available := a \<rparr> \<rparr>))"

text \<open>What a popped element becomes as an address: byte \<open>i\<close> of its low word, shifted left by \<open>i\<close> bits.\<close>

definition low_bits :: "u256 \<Rightarrow> u64" where
  "low_bits x = pd_gather (bswap64 (ucast x))"

section \<open>Dispatch lists\<close>

text \<open>
  A code without a case falls off the end of the function: nothing is called, and the value returned is
  whatever the register holds. \<open>junk\<close> stands for it where the caller uses the value.
\<close>

definition AccountsData :: "u64 \<Rightarrow> machine \<Rightarrow> machine run" where
  "AccountsData v m =
     (if v = 0 then GetAddress m else if v = 1 then GetBalance m else if v = 2 then GetOrigin m
      else if v = 3 then GetCaller m else if v = 4 then CallValue m else if v = 5 then GetInputData m
      else if v = 6 then CallDataSize m else if v = 7 then CallDataCopy m else if v = 8 then GetCodeSize m
      else if v = 9 then CodeCopy m else if v = 10 then GetGasPrice m else if v = 11 then ExtCodeSize m
      else if v = 12 then ExtCodeCopy m else Inr m)"

definition SystemOps :: "u64 \<Rightarrow> machine \<Rightarrow> machine run" where
  "SystemOps v m =
     (if v = 0 then CreateAccount m else if v = 1 then MakeCall m else if v = 2 then MakeCallCode m
      else if v = 3 then Return m else if v = 4 then DelegateCall m else Inr m)"

definition BlockChain :: "u64 \<Rightarrow> machine \<Rightarrow> machine run" where
  "BlockChain v m =
     (if v = 0 then BlockChainHash m else if v = 1 then GetCoinBase m else if v = 2 then GetTimeStamp m
      else if v = 3 then GetNumber m else if v = 4 then GetDifficulty m else if v = 5 then GetGasLimit m
      else Inr m)"

definition ArithmOps :: "u64 \<Rightarrow> u64 \<Rightarrow> u64" where
  "ArithmOps junk v = (if v \<in> {0, 1, 2, 3, 4, 5, 6, 7, 8, 9, 10, 11} then v else junk)"

definition MemOps :: "u64 \<Rightarrow> u64 \<Rightarrow> u64" where
  "MemOps junk v = (if v \<in> {0, 1, 2, 3, 4, 5, 6, 7, 8, 9, 10, 11} then v else junk)"

definition CompareLogOps :: "u64 \<Rightarrow> u64 \<Rightarrow> u64" where
  "CompareLogOps junk v = (if v \<in> {0, 1, 2, 3, 4, 5, 6, 7, 8, 9, 10} then v else junk)"

section \<open>Pushing\<close>

lemma unat_cell: "k < 2 ^ 64 \<Longrightarrow> unat (of_nat k :: u64) = k"
  unfolding unat_of_nat by (rule mod_less) simp

lemma cell_get_at: "k < 2048 \<Longrightarrow> cell_get (of_nat k) m = Inr (stack_arr (env m) k)"
  by (simp add: cell_get_def STACK_LEN_def unat_cell)

lemma cell_set_at: "k < 2048 \<Longrightarrow> cell_set (of_nat k) v m = Inr (m \<lparr> env := (env m) \<lparr> stack_arr := (stack_arr (env m))(k := v) \<rparr> \<rparr>)"
  by (simp add: cell_set_def STACK_LEN_def unat_cell)

lemma cell_set_beyond: "2048 \<le> k \<Longrightarrow> k < 2 ^ 64 \<Longrightarrow> cell_set (of_nat k) v m = Inl OutOfBounds"
  by (simp add: cell_set_def STACK_LEN_def unat_cell)

lemma depth_sp: "depth m n \<Longrightarrow> sp (env m) + 1 = of_nat (4 * n)"
  by (simp add: depth_def)

lemma cells_put_reg:
  assumes "n < 512" and "length cs = 4"
  shows "rfold (\<lambda>i. cell_set (of_nat (4 * n) + of_nat i) (cs ! i)) [0, 1, 2, 3] m = put_reg (4 * int n) cs m"
proof -
  have c: "cell_set (of_nat (4 * n) + of_nat i) v m = Inr (m \<lparr> env := (env m) \<lparr> stack_arr := (stack_arr (env m))(4 * n + i := v) \<rparr> \<rparr>)"
    if "i < 4" for i v m
    using cell_set_at [of "4 * n + i" v m] that assms(1) by simp
  have "(stack_arr (env m))(4 * n := cs ! 0, 4 * n + 1 := cs ! 1, 4 * n + 2 := cs ! 2, 4 * n + 3 := cs ! 3)
      = (\<lambda>a. if 4 * n \<le> a \<and> a < 4 * n + 4 then cs ! (a - 4 * n) else stack_arr (env m) a)"
  proof
    fix a
    consider "a = 4 * n" | "a = 4 * n + 1" | "a = 4 * n + 2" | "a = 4 * n + 3" | "a < 4 * n" | "4 * n + 4 \<le> a" by linarith
    then show "((stack_arr (env m))(4 * n := cs ! 0, 4 * n + 1 := cs ! 1, 4 * n + 2 := cs ! 2, 4 * n + 3 := cs ! 3)) a
      = (if 4 * n \<le> a \<and> a < 4 * n + 4 then cs ! (a - 4 * n) else stack_arr (env m) a)"
      by cases auto
  qed
  then show ?thesis
    using assms c [of 0] c [of 1] c [of 2] c [of 3] unfolding put_reg_def nat_4_int
    by (simp add: STACK_LEN_def numeral_2_eq_2 numeral_3_eq_3)
qed

text \<open>Four cells pushed at once.\<close>

lemma push_cells:
  assumes "holds m st" and "length st < 512" and "length cs = 4"
  obtains m' where "rfold (\<lambda>i. cell_set (sp (env m) + 1 + of_nat i) (cs ! i)) [0, 1, 2, 3] m = Inr m'"
    "sp (env m') = sp (env m)" "holds (sp_add 4 m') (of_nat (reg_val ((!) cs)) # st)" "stepped 0 0 m (sp_add 4 m')"
proof -
  define n where "n = length st"
  have d: "depth m n" "stack_list m n = st" "n < 512" using assms(1,2) by (simp_all add: holds_def n_def)
  obtain m' where p: "put_reg (4 * int n) cs m = Inr m'"
      "elem_reg m' n 0 = cs ! 0" "elem_reg m' n 1 = cs ! 1" "elem_reg m' n 2 = cs ! 2" "elem_reg m' n 3 = cs ! 3"
      "\<And>j. j \<noteq> n \<Longrightarrow> elem m' j = elem m j" "m' = m \<lparr> env := (env m) \<lparr> stack_arr := stack_arr (env m') \<rparr> \<rparr>"
    using put_reg_elem [OF d(3) assms(3), of m] by blast
  have "reg_val (elem_reg m' n) = reg_val ((!) cs)" using p(2-5) by (simp add: reg_val_def sum_upto_4)
  then have e: "elem m' n = of_nat (reg_val ((!) cs))" by (simp add: elem_def)
  have s: "sp (env m') = sp (env m)" by (subst p(7)) simp
  have "elem (sp_add 4 m') = elem m'" by (rule ext) (simp add: sp_add_def elem_def elem_reg_def)
  moreover have "depth (sp_add 4 m') (Suc n)" using d(1,3) s by (simp add: depth_def sp_add_def)
  moreover have "stack_list m' n = st" using d(2) stack_list_cong [of n m' m] p(6) by simp
  ultimately have h: "holds (sp_add 4 m') (of_nat (reg_val ((!) cs)) # st)"
    using e by (simp add: holds_Cons n_def stack_list_def)
  have "stepped 0 0 m' (sp_add 4 m')" by (simp add: stepped_def sp_add_def rest_def gas_left_def clean_def)
  then have "stepped 0 0 m (sp_add 4 m')" using stepped_charge [OF stepped_put [OF p(1)]] by blast
  then show ?thesis using that [of m'] cells_put_reg [OF d(3) assms(3), of m] p(1) s h depth_sp [OF d(1)] by simp
qed

lemma cell_set_sp_add: "cell_set i v (sp_add k m) = rbind (cell_set i v m) (\<lambda>m'. Inr (sp_add k m'))"
  by (simp add: cell_set_def sp_add_def wr_def)

lemma cells_sp_add:
  "rfold (\<lambda>i. cell_set (f i) (g i)) xs (sp_add k m) = rbind (rfold (\<lambda>i. cell_set (f i) (g i)) xs m) (\<lambda>m'. Inr (sp_add k m'))"
  by (induction xs arbitrary: m) (auto simp: cell_set_sp_add rbind_def split: sum.splits)

lemma sp_add_add [simp]: "sp_add j (sp_add k m) = sp_add (k + j) m" "sp (env (sp_add k m)) = sp (env m) + k"
  by (simp_all add: sp_add_def)

text \<open>The common shape of the pushing helpers: one up, four cells, three up.\<close>

lemma push_up:
  assumes "holds m st" and "length st < 512" and "length cs = 4"
  obtains m' where "rbind (rfold (\<lambda>i. cell_set (sp (env (sp_add 1 m)) + of_nat i) (cs ! i)) [0, 1, 2, 3] (sp_add 1 m))
      (\<lambda>m2. Inr (sp_add 3 m2)) = Inr m'"
    "holds m' (of_nat (reg_val ((!) cs)) # st)" "stepped 0 0 m m'"
proof -
  obtain m' where "rfold (\<lambda>i. cell_set (sp (env m) + 1 + of_nat i) (cs ! i)) [0, 1, 2, 3] m = Inr m'"
    "holds (sp_add 4 m') (of_nat (reg_val ((!) cs)) # st)" "stepped 0 0 m (sp_add 4 m')"
    using push_cells [OF assms] by blast
  then show ?thesis using that unfolding cells_sp_add by (simp add: rbind_assoc del: rfold.simps)
qed

lemma push_word_holds:
  assumes "holds m st" and "length st < 512"
  obtains m' where "push_word v m = Inr m'" "holds m' (ucast (bswap64 v) # st)" "stepped 0 0 m m'"
proof -
  obtain m' where m': "push_word v m = Inr m'" "holds m' (of_nat (reg_val ((!) [v, 0, 0, 0])) # st)" "stepped 0 0 m m'"
    unfolding push_word_def Let_def by (rule push_up [OF assms, of "[v, 0, 0, 0]"]) simp_all
  have "bswap64 0 = 0" by (simp add: bswap64_eq_0)
  then have "reg_val ((!) [v, 0, 0, 0]) = unat (bswap64 v)" by (simp add: reg_val_def sum_upto_4)
  then have "of_nat (reg_val ((!) [v, 0, 0, 0])) = (ucast (bswap64 v) :: u256)" by simp
  with m' that show ?thesis by metis
qed

lemma pd_bits: "pd_rsh d 0 = d" "pd_rsh d 8 = drop_bit 8 d" "pd_rsh d 16 = drop_bit 16 d" "pd_rsh d 24 = drop_bit 24 d"
  "pd_rsh d 32 = drop_bit 32 d" "pd_rsh d 40 = drop_bit 40 d" "pd_rsh d 48 = drop_bit 48 d" "pd_rsh d 56 = drop_bit 56 d"
  "pd_lsh d 0 = d" "pd_lsh d 8 = push_bit 8 d" "pd_lsh d 16 = push_bit 16 d" "pd_lsh d 24 = push_bit 24 d"
  "pd_lsh d 32 = push_bit 32 d" "pd_lsh d 40 = push_bit 40 d" "pd_lsh d 48 = push_bit 48 d" "pd_lsh d 56 = push_bit 56 d"
  by (simp_all add: pd_rsh_def pd_lsh_def)

lemma pd_swap_bswap [simp]: "pd_swap d = bswap64 d"
  by (simp add: pd_swap_def bswap64_def numeral_eq_Suc pd_bits [unfolded numeral_eq_Suc])

lemma push_overflow:
  assumes "holds m st" and "length st = 512"
  shows "push_word v m = Inl OutOfBounds"
proof -
  have "sp (env m) + 1 = 2048" using depth_sp [of m 512] assms by (simp add: holds_def)
  then show ?thesis using cell_set_beyond [of 2048 v m] by (simp add: push_word_def cell_set_sp_add Let_def)
qed

lemma PushSingle_holds:
  assumes "holds m st" and "length st < 512"
  obtains m' where "PushSingleBlockToStack v m = Inr m'" "holds m' (ucast v # st)" "stepped 0 0 m m'"
  using push_word_holds [OF assms, of "bswap64 v"] by (auto simp: PushSingleBlockToStack_def)

section \<open>Popping, duplicating, swapping\<close>

lemma stepped_sp_add: "stepped 0 0 m (sp_add k m)"
  by (simp add: stepped_def sp_add_def rest_def gas_left_def clean_def)

lemma elem_sp_add [simp]: "elem (sp_add k m) = elem m"
  by (rule ext) (simp add: sp_add_def elem_def elem_reg_def)

lemma pop_holds: "holds m (x # st) \<Longrightarrow> holds (sp_add (- 4) m) st"
  unfolding holds_Cons by (simp add: holds_def stack_list_def) (simp add: depth_def sp_add_def)

lemma cell_low_word: "bswap64 (ucast (elem m k)) = elem_reg m k 0"
proof -
  have "unat (ucast (elem m k) :: u64) = reg_val (elem_reg m k) mod 2 ^ 64"
    by (simp add: unat_ucast_mod unat_elem)
  also have "\<dots> = unat (bswap64 (elem_reg m k 0))" by (rule low_limb [symmetric])
  finally have "ucast (elem m k) = bswap64 (elem_reg m k 0)" by (simp add: unat_inj_iff)
  then show ?thesis by simp
qed

lemma GetSingle_holds:
  assumes "holds m (x # st)"
  shows "GetSingleBlockFromStack m = Inr (low_bits x, sp_add (- 4) m)" "holds (sp_add (- 4) m) st"
proof -
  have d: "depth m (Suc (length st))" "elem m (length st) = x" using assms by (simp_all add: holds_Cons)
  show "GetSingleBlockFromStack m = Inr (low_bits x, sp_add (- 4) m)"
    using cell_get_low(1) [OF d(1)] cell_low_word [of m "length st"] d(2)
    by (simp add: GetSingleBlockFromStack_def low_bits_def)
  show "holds (sp_add (- 4) m) st" by (rule pop_holds [OF assms])
qed

lemma pd_gather_bswap:
  "pd_gather (bswap64 w) = fold (\<lambda>i a. a OR push_bit i (take_bit 8 (drop_bit (8 * i) w))) [0..<8] 0"
proof -
  have d: "take_bit 8 (drop_bit (8 * (7 - i)) (bswap64 w)) = take_bit 8 (drop_bit (8 * i) w)" if "i < 8" for i
    by (rule bit_eqI) (use that in \<open>auto simp: bit_simps bit_bswap64\<close>)
  show ?thesis
    using d [of 0] d [of 1] d [of 2] d [of 3] d [of 4] d [of 5] d [of 6] d [of 7]
    by (simp add: pd_gather_def pd_bits and_255 upt_rec) (simp add: pd_lsh_def push_bit_eq_mult word_le_nat_alt mult.commute)
qed

lemma low_bits_small: "unat x < 256 \<Longrightarrow> low_bits x = ucast x"
proof -
  assume x: "unat x < 256"
  then have u: "unat (ucast x :: u64) < 256" by (simp add: unat_ucast_mod)
  then have "drop_bit (8 * i) (ucast x :: u64) = 0" if "0 < i" for i
  proof -
    have "256 \<le> (2::nat) ^ (8 * i)" using power_increasing [of 8 "8 * i" "2::nat"] that by simp
    then have "unat (drop_bit (8 * i) (ucast x :: u64)) = 0" using u by simp
    then show ?thesis by (simp only: unat_eq_zero)
  qed
  moreover have "take_bit 8 (ucast x :: u64) = ucast x"
    using u by (simp add: take_bit_eq_mod word_unat_eq_iff unat_mod)
  moreover note calculation(1) [of 1] calculation(1) [of 2] calculation(1) [of 3] calculation(1) [of 4] calculation(1) [of 5]
    calculation(1) [of 6] calculation(1) [of 7]
  ultimately show ?thesis unfolding low_bits_def pd_gather_bswap by (simp add: upt_rec)
qed

lemma sp_index: "depth m n \<Longrightarrow> k < 4 * n \<Longrightarrow> sp (env m) - of_nat k = of_nat (4 * n - 1 - k)"
proof -
  assume "depth m n" "k < 4 * n"
  then have "sp (env m) = of_nat (4 * n - 1)" "k \<le> 4 * n - 1" by (auto simp: depth_def)
  then show ?thesis using of_nat_diff [of k "4 * n - 1", where 'a = u64] by simp
qed

lemma stack_list_nth: "c < n \<Longrightarrow> stack_list m n ! c = elem m (n - 1 - c)"
  by (simp add: stack_list_def rev_nth)

lemma ucast_small: "k < 2 ^ 32 \<Longrightarrow> (ucast (of_nat k :: u32) :: u64) = of_nat k" "k < 2 ^ 32 \<Longrightarrow> (ucast (of_nat k :: u64) :: u32) = of_nat k"
  by (simp_all add: unat_ucast_le unat_ucast_mod unat_of_nat flip: unat_inj_iff)

lemma rfold_cong: "(\<And>x. x \<in> set xs \<Longrightarrow> f x = g x) \<Longrightarrow> rfold f xs s = rfold g xs s"
proof (induction xs arbitrary: s)
  case (Cons x xs)
  then have "rfold f xs = rfold g xs" by (intro ext) simp
  then show ?case using Cons.prems by simp
qed simp

lemma push_up_fun:
  assumes "holds m st" and "length st < 512"
  obtains m' where "rbind (rfold (\<lambda>i. cell_set (sp (env (sp_add 1 m)) + of_nat i) (f i)) [0, 1, 2, 3] (sp_add 1 m))
      (\<lambda>m2. Inr (sp_add 3 m2)) = Inr m'"
    "holds m' (of_nat (reg_val f) # st)" "stepped 0 0 m m'"
proof -
  have t: "map f [0..<4] ! i = f i" if "i \<in> set [0, 1, 2, 3]" for i
  proof -
    from that have "i < 4" by auto
    then show ?thesis by simp
  qed
  have g: "rfold (\<lambda>i. cell_set (g i) (map f [0..<4] ! i)) [0, 1, 2, 3] s = rfold (\<lambda>i. cell_set (g i) (f i)) [0, 1, 2, 3] s" for g s
    by (rule rfold_cong) (simp only: t)
  have v: "reg_val ((!) (map f [0..<4])) = reg_val f" by (rule reg_val_cong) simp
  have l: "length (map f [0..<4]) = 4" by simp
  show ?thesis using that by (rule push_up [OF assms l, unfolded g v])
qed

lemma DupOp_holds:
  assumes "holds m st" and "c < length st" and "length st < 512"
  obtains m' where "DupOp (of_nat c) m = Inr m'" "holds m' (st ! c # st)" "stepped 0 0 m m'"
proof -
  define n where "n = length st"
  have d: "depth m n" "stack_list m n = st" "c < n" "n < 512" using assms by (simp_all add: holds_def n_def)
  have o: "ucast (4 * ucast (of_nat c :: u64) + of_nat i :: u32) = (of_nat (4 * c + i) :: u64)" if "i < 4" for i
    using d(3,4) that ucast_small(1) [of "4 * c + i"] ucast_small(2) [of c] by simp
  have g: "cell_get (sp (env m) - ucast (4 * ucast (of_nat c :: u64) + of_nat i :: u32)) m = Inr (elem_reg m (n - 1 - c) (3 - i))"
    if "i < 4" for i
  proof -
    have k: "4 * n - 1 - (4 * c + i) = 4 * (n - 1 - c) + (3 - i)" using d(3) that by linarith
    have "4 * c + i < 4 * n" "4 * (n - 1 - c) + (3 - i) < 2048" using d(3,4) that by linarith+
    then show ?thesis unfolding o [OF that] using sp_index [OF d(1)] k
      by (simp only: elem_reg_def cell_get_at)
  qed
  define r where "r = elem_reg m (n - 1 - c)"
  define f where "f = (\<lambda>i. [r 3, r 2, r 1, r 0] ! (3 - i))"
  have e: "of_nat (reg_val f) = st ! c"
    using stack_list_nth [OF d(3), of m] d(2) by (simp add: f_def reg_val_def sum_upto_4 elem_def r_def numeral_2_eq_2 numeral_3_eq_3)
  obtain m' where "rbind (rfold (\<lambda>i. cell_set (sp (env (sp_add 1 m)) + of_nat i) (f i)) [0, 1, 2, 3] (sp_add 1 m))
      (\<lambda>m2. Inr (sp_add 3 m2)) = Inr m'" "holds m' (of_nat (reg_val f) # st)" "stepped 0 0 m m'"
    by (rule push_up_fun [OF assms(1,3)])
  moreover have "DupOp (of_nat c) m = rbind (rfold (\<lambda>i. cell_set (sp (env (sp_add 1 m)) + of_nat i) (f i)) [0, 1, 2, 3]
      (sp_add 1 m)) (\<lambda>m2. Inr (sp_add 3 m2))"
    using g [of 0, folded r_def] g [of 1, folded r_def] g [of 2, folded r_def] g [of 3, folded r_def]
    by (simp add: DupOp_def Let_def f_def numeral_2_eq_2 numeral_3_eq_3 del: rfold.simps)
  ultimately show ?thesis using that e by simp
qed

lemma swap_cell_at:
  assumes "depth m n" and "c + 1 < n" and "i < 4"
  shows "swap_cell (of_nat c) fs i m = Inr (m \<lparr> env := (env m) \<lparr> stack_arr := (stack_arr (env m))
    (4 * (n - 1) + (3 - i) := stack_arr (env m) (4 * (n - 2 - c) + (3 - i)), 4 * (n - 2 - c) + (3 - i) := fs ! i) \<rparr> \<rparr>)"
proof -
  have n: "n \<le> 512" using assms(1) by (simp add: depth_def)
  have k: "4 * (c + 1) + i < 2 ^ 32" "i < 4 * n" "4 * (c + 1) + i < 4 * n" using assms n by auto
  obtain e where "n = c + 2 + e" using assms(2) le_Suc_ex [of "c + 2" n] by auto
  then have t: "4 * n - 1 - i = 4 * (n - 1) + (3 - i)" "4 * n - 1 - (4 * (c + 1) + i) = 4 * (n - 2 - c) + (3 - i)"
    using assms(3) by simp_all
  have lt: "4 * (n - 2 - c) + (3 - i) < 2048" "4 * (n - 1) + (3 - i) < 2048" using n assms by linarith+
  then have q: "4 * (n - 2 - c) + (3 - i) < 2 ^ 32" by simp
  have "(of_nat (4 * (c + 1) + i) :: u32) = 4 * (of_nat c + 1) + of_nat i" by simp
  then have "ucast (4 * (of_nat c + 1) + of_nat i :: u32) = (of_nat (4 * (c + 1) + i) :: u64)"
    using ucast_small(1) [OF k(1)] by metis
  then have o: "(ucast (ucast (sp (env m) - ucast (4 * (of_nat c + 1) + of_nat i :: u32)) :: u32) :: u64)
      = of_nat (4 * (n - 2 - c) + (3 - i))"
    using sp_index [OF assms(1) k(3)] ucast_small [OF q] t(2) by (simp only:)
  show ?thesis unfolding swap_cell_def Let_def o sp_index [OF assms(1) k(2)] t(1)
    cell_get_at [OF lt(1)] using cell_set_at [OF lt(1)] cell_set_at [OF lt(2)] by simp
qed

lemma SwapOp_holds:
  assumes "holds m st" and "c + 1 < length st"
  obtains m' where "SwapOp (of_nat c) m = Inr m'" "holds m' (st [0 := st ! (c + 1), c + 1 := st ! 0])" "stepped 0 0 m m'"
proof -
  define n where "n = length st"
  have d: "depth m n" "stack_list m n = st" "c + 1 < n" using assms by (simp_all add: holds_def n_def)
  have n: "n \<le> 512" using d(1) by (simp add: depth_def)
  define a b where "a = n - 1" and "b = n - 2 - c"
  have ab: "a < 512" "b < a" "a < n" using d(3) n by (auto simp: a_def b_def)
  define r where "r = elem_reg m a"
  define S where "S k = (\<lambda>i. if 4 * a + 4 - k \<le> i \<and> i < 4 * a + 4 then stack_arr (env m) (i - 4 * a + 4 * b)
     else if 4 * b + 4 - k \<le> i \<and> i < 4 * b + 4 then stack_arr (env m) (i - 4 * b + 4 * a) else stack_arr (env m) i)" for k
  define upd where "upd k = m \<lparr> env := (env m) \<lparr> stack_arr := S k \<rparr> \<rparr>" for k
  have S: "(S i)(4 * a + (3 - i) := S i (4 * b + (3 - i)), 4 * b + (3 - i) := stack_arr (env m) (4 * a + (3 - i))) = S (i + 1)"
    if "i < 4" for i
  proof -
    have "S i (4 * b + (3 - i)) = stack_arr (env m) (4 * b + (3 - i))" using that ab(2) unfolding S_def by (subst if_not_P, linarith, subst if_not_P, linarith) simp
    moreover have "j = 4 * a + (3 - i) \<or> j = 4 * b + (3 - i) \<or> j \<noteq> 4 * a + (3 - i) \<and> j \<noteq> 4 * b + (3 - i) \<and> S (i + 1) j = S i j" for j
      using that ab(2) by (auto simp: S_def)
    moreover have "S (i + 1) (4 * a + (3 - i)) = stack_arr (env m) (4 * b + (3 - i))" "S (i + 1) (4 * b + (3 - i)) = stack_arr (env m) (4 * a + (3 - i))"
      using that ab(2) by (auto simp: S_def add.commute)
    ultimately show ?thesis using ab(2) by (intro ext) (metis fun_upd_apply)
  qed
  have f: "[r 3, r 2, r 1, r 0] ! i = stack_arr (env m) (4 * a + (3 - i))" if "i < 4" for i
    using that by (auto simp: r_def elem_reg_def less_Suc_eq numeral_eq_Suc)
  have st: "swap_cell (of_nat c) [r 3, r 2, r 1, r 0] i (upd i) = Inr (upd (i + 1))" if "i < 4" for i
    using swap_cell_at [of "upd i" n c i "[r 3, r 2, r 1, r 0]"] d(1,3) that S [OF that] f [OF that]
    by (simp add: upd_def depth_def a_def b_def)
  have "S 0 = stack_arr (env m)" unfolding S_def by (intro ext) auto
  then have z: "upd 0 = m" by (simp add: upd_def)
  have g: "cell_get (sp (env m) - of_nat i) m = Inr (r (3 - i))" if "i < 4" for i
  proof -
    have "i < 4 * n" "4 * n - 1 - i = 4 * a + (3 - i)" "4 * a + (3 - i) < 2048" using that ab d(3) unfolding a_def by linarith+
    then show ?thesis using sp_index [OF d(1), of i] by (simp only: cell_get_at r_def elem_reg_def)
  qed
  have "c < 2 ^ 32" using d(3) n by simp
  from ucast_small(2) [OF this] have "SwapOp (of_nat c) m = Inr (upd 4)"
    using g [of 0] g [of 1] g [of 2] g [of 3] st [of 0] st [of 1] st [of 2] st [of 3] z
    by (simp add: SwapOp_def eval_nat_numeral)
  moreover have e: "elem (upd 4) j = (if j = a then elem m b else if j = b then elem m a else elem m j)" for j
    using ab(2) by (auto simp: elem_def upd_def S_def elem_reg_def add.commute intro!: arg_cong [where f = of_nat] reg_val_cong)
  have "holds (upd 4) (st [0 := st ! (c + 1), c + 1 := st ! 0])"
  proof -
    have "stack_list (upd 4) n = (stack_list m n) [0 := stack_list m n ! (c + 1), c + 1 := stack_list m n ! 0]"
      using d(3) by (intro nth_equalityI) (auto simp: stack_list_nth nth_list_update e a_def b_def)
    then show ?thesis using d(1,2) by (simp add: holds_def n_def depth_def upd_def)
  qed
  moreover have "stepped 0 0 m (upd 4)" by (simp add: stepped_def rest_def upd_def gas_left_def clean_def)
  ultimately show ?thesis using that by blast
qed

end
