(* ===== verification/Evm_Memory.thy ===== *)
theory Evm_Memory
  imports Helpers
begin

unbundle bit_operations_syntax

text \<open>
  Memory and constants: what \<^verbatim>\<open>MStoreInst\<close>, \<^verbatim>\<open>MloadInst\<close> and \<^verbatim>\<open>PushInst\<close> of \<^verbatim>\<open>target-ppdl/func_helper.c\<close> do
  with 256-bit values. A store writes the 32 bytes of the top element, the most significant first; a load reads
  them back; a push reads its constant from the code behind the opcode. The stack, the data memory and the
  constant agree on one reading of 256-bit numbers, which the round trip at the end rests on.
\<close>

section \<open>Bytes of an element\<close>

text \<open>Byte \<open>k\<close> of an element, the most significant first.\<close>

definition word_byte :: "u256 \<Rightarrow> nat \<Rightarrow> u64" where
  "word_byte x k = take_bit 8 (ucast (drop_bit (8 * (31 - k)) x))"

definition stored :: "nat \<Rightarrow> u256 \<Rightarrow> machine \<Rightarrow> machine" where
  "stored a x m = m \<lparr> env := (env m) \<lparr>
     data_bus := (\<lambda>i. if a \<le> i \<and> i < a + 32 then word_byte x (i - a) else data_bus (env m) i),
     mem_size := max (mem_size (env m)) (of_nat (a + 32)) \<rparr> \<rparr>"

text \<open>An array with a stretch of it overwritten.\<close>

definition bus_fill :: "nat \<Rightarrow> ('a \<Rightarrow> u64) \<Rightarrow> 'a list \<Rightarrow> (nat \<Rightarrow> u64) \<Rightarrow> nat \<Rightarrow> u64" where
  "bus_fill a f js g = (\<lambda>i. if a \<le> i \<and> i < a + length js then f (js ! (i - a)) else g i)"

text \<open>The bytes of the code from an address on; addresses wrap at 32 bits.\<close>

definition code_slice :: "guest \<Rightarrow> u32 \<Rightarrow> nat \<Rightarrow> u8 list" where
  "code_slice g a n = map (\<lambda>k. gmem g (ucast (a + of_nat k))) [0..<n]"

text \<open>Whether the operand of a push at address \<open>p\<close> lies in RAM, and whether the bytes at some offsets do.\<close>

definition operand_ok :: "guest \<Rightarrow> u32 \<Rightarrow> nat \<Rightarrow> bool" where
  "operand_ok g p cnt = list_all (\<lambda>k. in_ram g (ucast (p + 1 + of_nat k)) 1) [0..<cnt]"

definition bytes_ok :: "guest \<Rightarrow> (nat \<Rightarrow> u32) \<Rightarrow> nat \<Rightarrow> u32 \<Rightarrow> bool" where
  "bytes_ok g off n p = list_all (\<lambda>i. in_ram g (ucast (p + off i)) 1) [0..<n]"

text \<open>The word \<^verbatim>\<open>PushInst\<close> puts together from bytes of the code.\<close>

definition gathered :: "guest \<Rightarrow> (nat \<Rightarrow> u32) \<Rightarrow> nat \<Rightarrow> u32 \<Rightarrow> u64" where
  "gathered g off n p = fold (\<lambda>i d. d OR push_bit (8 * (7 - i)) (ucast (gmem g (ucast (p + off i))))) [0..<n] 0"

definition stale :: "nat \<Rightarrow> nat \<Rightarrow> machine \<Rightarrow> nat" where
  "stale k cnt m = (if cnt mod 8 = 0 \<and> cnt < 32
     then unat (bswap64 (stack_arr (env m) (4 * k + cnt div 8))) * 2 ^ (64 * (cnt div 8)) else 0)"

definition push_cell :: "guest \<Rightarrow> nat \<Rightarrow> nat \<Rightarrow> machine \<Rightarrow> nat \<Rightarrow> u64" where
  "push_cell g k cnt m j =
     (if j < cnt div 8 then gathered g (\<lambda>i. of_nat cnt - of_nat i - 8 * of_nat j) 8 (pc (env m))
      else if cnt div 8 < j then 0
      else if cnt mod 8 = 0 then stack_arr (env m) (4 * k + j)
      else gathered g (\<lambda>i. of_nat (cnt mod 8) - of_nat i) (cnt mod 8) (pc (env m)))"

lemma elem_cell: "j < 4 \<Longrightarrow> elem_reg m k j = bswap64 (ucast (drop_bit (64 * j) (elem m k)))"
proof -
  assume "j < 4"
  then have e: "elem_reg m k j = limb (unat (elem m k)) j" by (simp add: unat_elem limb_reg_val)
  have "unat (elem m k) div 2 ^ (64 * j) = unat (drop_bit (64 * j) (elem m k))"
    using unat_drop_bit_eq [of "64 * j" "elem m k"] drop_bit_eq_div [of "64 * j" "unat (elem m k)"] by (simp only:)
  then have "of_nat (unat (elem m k) div 2 ^ (64 * j)) = (ucast (drop_bit (64 * j) (elem m k)) :: u64)"
    by (simp only:) (simp add: unat_ucast_mod unat_of_nat flip: unat_inj_iff)
  then have "limb (unat (elem m k)) j = bswap64 (ucast (drop_bit (64 * j) (elem m k)))" by (simp add: limb_def)
  with e show ?thesis by simp
qed

lemma elem_byte:
  assumes "k < 32"
  shows "take_bit 8 (drop_bit (8 * (k mod 8)) (elem_reg m e (3 - k div 8))) = word_byte (elem m e) k"
proof (rule bit_eqI)
  fix b assume "possible_bit TYPE(u64) b"
  define q r where "q = k div 8" and "r = k mod 8"
  have k: "k = 8 * q + r" "r < 8" "q < 4" using assms by (auto simp: q_def r_def)
  have i: "64 * (3 - q) + (8 * (7 - r) + b) = 8 * (31 - k) + b" using k by (simp add: diff_mult_distrib2)
  show "bit (take_bit 8 (drop_bit (8 * (k mod 8)) (elem_reg m e (3 - k div 8)))) b = bit (word_byte (elem m e) k) b"
  proof (cases "b < 8")
    case True
    then have "8 * (7 - r) + b < 64" "(8 * r + b) div 8 = r" "(8 * r + b) mod 8 = b" "8 * r + b < 64" using k(2) by auto
    then show ?thesis using k(3) True
      by (simp add: bit_simps elem_cell bit_bswap64 word_byte_def flip: q_def r_def) (simp only: i)
  qed (simp add: bit_simps word_byte_def)
qed

lemma bus_fill_Nil [simp]: "bus_fill a f [] g = g"
  unfolding bus_fill_def by (intro ext) auto

lemma bus_fill_Cons: "bus_fill (Suc a) f js (g(a := f p)) = bus_fill a f (p # js) g"
  by (intro ext) (auto simp: bus_fill_def nth_Cons')

lemma store_bytes:
  assumes "unat a + length js \<le> BUS_LEN"
  shows "rfold (store_byte d) js (a, m) = Inr (a + of_nat (length js), m \<lparr> env := (env m) \<lparr> data_bus :=
    bus_fill (unat a) (\<lambda>p. pd_rsh (d ! fst p) (8 * snd p) AND 0xFF) js (data_bus (env m)) \<rparr> \<rparr>)"
  using assms
proof (induction js arbitrary: a m)
  case (Cons p js)
  have a: "unat (a + 1) = Suc (unat a)" "unat a < BUS_LEN" using Cons.prems by (simp_all add: BUS_LEN_def unat_word_ariths)
  obtain j i where p: "p = (j, i)" by (cases p)
  show ?case using Cons.IH [of "a + 1"] Cons.prems a bus_fill_Cons [of "unat a" "\<lambda>p. pd_rsh (d ! fst p) (8 * snd p) AND 0xFF" js _ p]
    by (simp add: store_byte_def bus_set_def wr_def p and.assoc)
qed simp

lemma store_bytes_overflow: "js \<noteq> [] \<Longrightarrow> BUS_LEN < unat a + length js \<Longrightarrow> rfold (store_byte d) js (a, m) = Inl OutOfBounds"
proof (induction js arbitrary: a m)
  case (Cons p js)
  obtain j i where p: "p = (j, i)" by (cases p)
  show ?case
  proof (cases "unat a < BUS_LEN")
    case True
    then have "unat (a + 1) = Suc (unat a)" by (simp add: BUS_LEN_def unat_word_ariths)
    with True Cons show ?thesis by (cases js) (simp_all add: store_byte_def bus_set_def wr_def p)
  qed (simp add: store_byte_def bus_set_def wr_def p)
qed simp

lemma word_bytes_order_nth: "k < 32 \<Longrightarrow> word_bytes_order ! k = (3 - k div 8, of_nat (k mod 8))"
proof -
  have "list_all (\<lambda>k. word_bytes_order ! k = (3 - k div 8, of_nat (k mod 8))) [0..<32]"
    by (simp add: word_bytes_order_def upt_rec)
  then show "k < 32 \<Longrightarrow> word_bytes_order ! k = (3 - k div 8, of_nat (k mod 8))" by (simp add: list_all_iff)
qed

lemma pd_shift_byte:
  assumes "i < 8"
  shows "pd_rsh w (8 * of_nat i) = drop_bit (8 * i) w" "pd_lsh w (8 * of_nat i) = push_bit (8 * i) w"
proof -
  have "i = 0 \<or> i = 1 \<or> i = 2 \<or> i = 3 \<or> i = 4 \<or> i = 5 \<or> i = 6 \<or> i = 7" using assms by linarith
  then show "pd_rsh w (8 * of_nat i) = drop_bit (8 * i) w" "pd_lsh w (8 * of_nat i) = push_bit (8 * i) w"
    by (elim disjE; simp add: pd_bits)+
qed

lemma top_cell:
  assumes "holds m (x # st)" and "i < 4"
  shows "cell_get (sp (env m) - of_nat i) m = Inr (elem_reg m (length st) (3 - i))"
proof -
  define e where "e = length st"
  have d: "depth m (Suc e)" using assms(1) by (simp add: holds_Cons e_def)
  have "i < 4 * Suc e" "4 * Suc e - 1 - i = 4 * e + (3 - i)" "4 * e + (3 - i) < 2048" using assms(2) d unfolding depth_def by auto
  then show ?thesis using sp_index [OF d, of i] by (simp only: cell_get_at elem_reg_def flip: e_def)
qed

lemma MStore_loop:
  assumes "holds m (x # st)"
  shows "MStoreInst a m = rbind (rfold (store_byte (map (elem_reg m (length st)) [0..<4])) word_bytes_order (a, sp_add (- 4) m)) (\<lambda>(a, m1).
      Inr (if a > mem_size (env m1) then m1 \<lparr> env := (env m1) \<lparr> mem_size := a \<rparr> \<rparr> else m1))"
  using top_cell [OF assms, of 0] top_cell [OF assms, of 1] top_cell [OF assms, of 2] top_cell [OF assms, of 3]
  by (simp add: MStoreInst_def numeral_2_eq_2 numeral_3_eq_3 upt_rec del: rfold.simps)

lemma MStore_overflow: "holds m (x # st) \<Longrightarrow> BUS_LEN < unat a + 32 \<Longrightarrow> MStoreInst a m = Inl OutOfBounds"
  using store_bytes_overflow [of word_bytes_order a] by (simp add: MStore_loop word_bytes_order_def del: rfold.simps)

lemma MStore_holds:
  assumes "holds m (x # st)" and "unat a + 32 \<le> BUS_LEN"
  shows "MStoreInst a m = Inr (stored (unat a) x (sp_add (- 4) m))"
proof -
  define e where "e = length st"
  have d: "elem m e = x" using assms(1) by (simp add: holds_Cons e_def)
  define D where "D = map (elem_reg m e) [0..<4]"
  have D: "D ! (3 - k div 8) = elem_reg m e (3 - k div 8)" for k by (simp add: D_def)
  have b: "pd_rsh (D ! fst (word_bytes_order ! k)) (8 * snd (word_bytes_order ! k)) AND 0xFF = word_byte x k" if "k < 32" for k
    using elem_byte [OF that, of m e] d D [of k] that pd_shift_byte(1) [of "k mod 8"] by (simp add: word_bytes_order_nth and_255)
  have l: "length word_bytes_order = 32" by (simp add: word_bytes_order_def)
  have bus: "bus_fill (unat a) (\<lambda>p. pd_rsh (D ! fst p) (8 * snd p) AND 0xFF) word_bytes_order g
      = (\<lambda>i. if unat a \<le> i \<and> i < unat a + 32 then word_byte x (i - unat a) else g i)" for g
  proof
    fix i show "bus_fill (unat a) (\<lambda>p. pd_rsh (D ! fst p) (8 * snd p) AND 0xFF) word_bytes_order g i
      = (if unat a \<le> i \<and> i < unat a + 32 then word_byte x (i - unat a) else g i)"
      using b [of "i - unat a"] by (simp add: bus_fill_def l less_diff_conv2)
  qed
  have u: "a + 32 = of_nat (unat a + 32)" by simp
  note MStore_loop [OF assms(1), of a, folded e_def, folded D_def]
  then show ?thesis
    unfolding store_bytes [of a word_bytes_order D, unfolded l, OF assms(2)]
    by (cases "mem_size (env m) < a + 32") (simp_all add: stored_def bus sp_add_def max_def not_less u [symmetric] del: of_nat_add cong: if_cong)
qed

lemma bit_gather: "bit (fold (\<lambda>k d. d OR push_bit (s k) (f k :: u64)) [0..<n] 0) b \<longleftrightarrow> (\<exists>k<n. bit (push_bit (s k) (f k)) b)"
  by (induction n) (auto simp: bit_or_iff less_Suc_eq)

lemma byte_bit: "unat (w :: u64) < 256 \<Longrightarrow> bit w b \<Longrightarrow> b < 8"
proof (rule ccontr)
  assume "unat w < 256" "bit w b" "\<not> b < 8"
  then have "take_bit 8 w = w" by (simp add: take_bit_eq_mod word_unat_eq_iff unat_mod)
  then show False using \<open>bit w b\<close> \<open>\<not> b < 8\<close> by (metis bit_take_bit_iff)
qed

lemma word_bytes_gather:
  assumes "\<And>k. k < 8 \<Longrightarrow> unat (f k) < 256"
  shows "word_bytes (fold (\<lambda>k d. d OR push_bit (8 * k) (f k)) [0..<8] 0) = map (\<lambda>k. ucast (f k)) [0..<8]"
proof (rule nth_equalityI)
  fix k assume "k < length (word_bytes (fold (\<lambda>k d. d OR push_bit (8 * k) (f k)) [0..<8] 0))"
  then have k: "k < 8" by (simp add: word_bytes_def)
  have "bit (push_bit (8 * j) (f j)) (8 * k + b) \<longleftrightarrow> j = k \<and> bit (f j) b" if "j < 8" "b < 8" for j b
    using byte_bit [OF assms [OF that(1)], of "8 * k + b - 8 * j"] that k by (cases "j = k") (auto simp: bit_simps)
  then have "ucast (drop_bit (8 * k) (fold (\<lambda>k d. d OR push_bit (8 * k) (f k)) [0..<8] 0)) = (ucast (f k) :: u8)"
    using k by (intro bit_word_eqI) (auto simp: bit_simps bit_gather)
  then show "word_bytes (fold (\<lambda>k d. d OR push_bit (8 * k) (f k)) [0..<8] 0) ! k = map (\<lambda>k. ucast (f k)) [0..<8] ! k"
    using k by (simp only: word_bytes_nth) simp
qed (simp add: word_bytes_def)

lemma load_word_val:
  assumes "unat a + 8 \<le> BUS_LEN"
  shows "load_word [0, 1, 2, 3, 4, 5, 6, 7] 0 a m
    = Inr (fold (\<lambda>k d. d OR push_bit (8 * k) (data_bus (env m) (unat a + k))) [0..<8] 0, a + 8)"
proof -
  have "unat (a + of_nat i) = unat a + i" if "i < 8" for i using assms that by (simp add: BUS_LEN_def unat_word_ariths unat_of_nat)
  then have g: "bus_get (ucast (a + of_nat i)) m = Inr (data_bus (env m) (unat a + i))" if "i < 8" for i
    using assms that by (simp add: bus_get_def rd_def unat_ucast_le)
  have u: "[0..<8] = [0, 1, 2, 3, 4, 5, 6, 7 :: nat]" by (simp add: upt_rec numeral_eq_Suc)
  show ?thesis using g [of 0] g [of 1] g [of 2] g [of 3] g [of 4] g [of 5] g [of 6] g [of 7]
    unfolding u by (simp add: pd_bits add.assoc)
qed

lemma load_word_slice:
  assumes "unat a + 8 \<le> BUS_LEN" and "\<And>k. k < 8 \<Longrightarrow> unat (data_bus (env m) (unat a + k)) < 256"
  obtains d where "load_word [0, 1, 2, 3, 4, 5, 6, 7] 0 a m = Inr (d, a + 8)" "word_bytes d = bus_slice m (unat a) 8"
  using load_word_val [OF assms(1), of m] word_bytes_gather [of "\<lambda>k. data_bus (env m) (unat a + k)", OF assms(2)] that
  by (simp add: bus_slice_def)

lemma bus_slice_append: "bus_slice m a (j + k) = bus_slice m a j @ bus_slice m (a + j) k"
proof -
  have "[0..<j + k] = [0..<j] @ map (\<lambda>i. j + i) [0..<k]" by (rule nth_equalityI) (auto simp: nth_append)
  then show ?thesis by (simp add: bus_slice_def add.assoc comp_def)
qed

lemma Mload_holds:
  assumes "holds m st" and "length st < 512" and "unat a + 32 \<le> BUS_LEN"
    and "\<And>k. k < 32 \<Longrightarrow> unat (data_bus (env m) (unat a + k)) < 256"
  obtains m' where "MloadInst a m = Inr m'" "holds m' (of_nat (be_val (bus_slice m (unat a) 32)) # st)" "stepped 0 0 m m'"
proof -
  define n where "n = unat a"
  have b: "n + 32 \<le> 1024" using assms(3) by (simp add: n_def BUS_LEN_def)
  have A: "\<exists>d. load_word [0, 1, 2, 3, 4, 5, 6, 7] 0 (of_nat (n + j)) m = Inr (d, of_nat (n + j + 8)) \<and> word_bytes d = bus_slice m (n + j) 8"
    if "j \<le> 24" for j
  proof -
    have u: "unat (of_nat (n + j) :: u32) = n + j" using b that by (simp add: unat_of_nat del: of_nat_add)
    have h: "unat (data_bus (env m) (unat (of_nat (n + j) :: u32) + k)) < 256" if "k < 8" for k
      using assms(4) [of "j + k"] that \<open>j \<le> 24\<close> unfolding u by (simp add: n_def add.assoc)
    have "unat (of_nat (n + j) :: u32) + 8 \<le> BUS_LEN" using u b that by (simp add: BUS_LEN_def)
    then obtain d where "load_word [0, 1, 2, 3, 4, 5, 6, 7] 0 (of_nat (n + j)) m = Inr (d, of_nat (n + j) + 8)"
      "word_bytes d = bus_slice m (unat (of_nat (n + j) :: u32)) 8"
      by (rule load_word_slice [OF _ h])
    then show ?thesis unfolding u by (intro exI [of _ d]) (simp add: ac_simps)
  qed
  obtain d3 d2 d1 d0 where l: "load_word [0, 1, 2, 3, 4, 5, 6, 7] 0 (of_nat n) m = Inr (d3, of_nat (n + 8))"
    "load_word [0, 1, 2, 3, 4, 5, 6, 7] 0 (of_nat (n + 8)) m = Inr (d2, of_nat (n + 16))"
    "load_word [0, 1, 2, 3, 4, 5, 6, 7] 0 (of_nat (n + 16)) m = Inr (d1, of_nat (n + 24))"
    "load_word [0, 1, 2, 3, 4, 5, 6, 7] 0 (of_nat (n + 24)) m = Inr (d0, of_nat (n + 32))"
    and w: "word_bytes d3 = bus_slice m n 8" "word_bytes d2 = bus_slice m (n + 8) 8" "word_bytes d1 = bus_slice m (n + 16) 8"
      "word_bytes d0 = bus_slice m (n + 24) 8"
    using A [of 0] A [of 8] A [of 16] A [of 24] by (auto simp: add.assoc simp del: of_nat_add load_word.simps)
  define cs where "cs = [d0, d1, d2, d3]"
  have "bus_slice m n 32 = word_bytes d3 @ word_bytes d2 @ word_bytes d1 @ word_bytes d0"
    using bus_slice_append [of m n 8 24] bus_slice_append [of m "n + 8" 8 16] bus_slice_append [of m "n + 16" 8 8] w by (simp add: add.assoc)
  moreover have "length (word_bytes d) = 8" for d by (simp add: word_bytes_def)
  ultimately have v: "reg_val ((!) cs) = be_val (bus_slice m n 32)"
    by (simp add: reg_val_def sum_upto_4 cs_def bswap64_bytes be_val_append algebra_simps)
  obtain m' where p: "rfold (\<lambda>i. cell_set (sp (env m) + 1 + of_nat i) (cs ! i)) [0, 1, 2, 3] m = Inr m'"
    "holds (sp_add 4 m') (of_nat (reg_val ((!) cs)) # st)" "stepped 0 0 m (sp_add 4 m')"
    using push_cells [OF assms(1,2), of cs] by (auto simp: cs_def simp del: rfold.simps)
  have "ucast a = (of_nat n :: u32)" by (simp add: n_def unat_ucast_mod unat_of_nat flip: unat_inj_iff)
  moreover have "rfold (\<lambda>i. cell_set (sp (env m) + of_nat (i + 1)) (cs ! i)) [0, 1, 2, 3] m = Inr m'"
    unfolding p(1) [symmetric] by (rule rfold_cong) (simp add: ac_simps)
  ultimately have "MloadInst a m = Inr (sp_add 4 m')"
    by (simp only: MloadInst_def Let_def l rbind_simps prod.case flip: cs_def)
  then show ?thesis using that p v by (simp add: n_def)
qed

section \<open>Constants from the code\<close>

lemma code_byte_plain:
  assumes "memlist g = []"
  shows "code_byte g off m = (if in_ram g (ucast (pc (env m) + off)) 1 then Inr (ucast (gmem g (ucast (pc (env m) + off))), m)
    else Inl (Raised EXCP_DBE))"
proof -
  have b: "ld_le mem addr (Suc 0) = ucast (mem addr)" for mem addr by (simp add: ld_le_def)
  have u: "ucast (ucast b :: u64) = b" for b :: u8 by (rule bit_word_eqI) (auto simp: bit_simps)
  have "scast b AND 0xFF = (ucast (b :: u8) :: u64)" for b
  proof (rule bit_word_eqI)
    fix n show "bit (scast b AND 0xFF :: u64) n = bit (ucast b :: u64) n"
      by (cases "n < 7"; cases "n = 7") (auto simp: and_255 bit_simps min_def dest: bit_imp_le_length)
  qed
  then show ?thesis using assms
    by (simp add: code_byte_def mem_ld8_def cpu_ld_def mem_trace_line_def qemu_mem_mask_def b u Let_def)
qed

lemma push_bytes_fold:
  assumes "memlist g = []" and "\<And>i. i \<in> set is \<Longrightarrow> i < 8"
  shows "push_bytes g off is a m =
    (if list_all (\<lambda>i. in_ram g (ucast (pc (env m) + off i)) 1) is
     then Inr (fold (\<lambda>i d. d OR push_bit (8 * (7 - i)) (ucast (gmem g (ucast (pc (env m) + off i))))) is a, m)
     else Inl (Raised EXCP_DBE))"
  using assms(2)
proof (induction "is" arbitrary: a)
  case (Cons i "is")
  then have "i \<le> 7" using less_Suc_eq_le [of i 7] by simp
  then have "(8 * (7 - of_nat i) :: u64) = 8 * of_nat (7 - i)" by simp
  with Cons show ?case using pd_shift_byte(2) [of "7 - i"] by (simp add: code_byte_plain [OF assms(1)])
qed simp

lemma gather_bytes:
  assumes "n \<le> 8"
  shows "word_bytes (fold (\<lambda>i d. d OR push_bit (8 * (7 - i)) (ucast (B i :: u8))) [0..<n] 0)
    = replicate (8 - n) 0 @ rev (map B [0..<n])"
proof -
  define f where "f k = (if 7 - k < n then ucast (B (7 - k)) else 0 :: u64)" for k
  have w: "fold (\<lambda>i d. d OR push_bit (8 * (7 - i)) (ucast (B i))) [0..<n] 0 = fold (\<lambda>k d. d OR push_bit (8 * k) (f k)) [0..<8] 0"
  proof (rule bit_word_eqI)
    fix b
    have "(\<exists>k<n. bit (push_bit (8 * (7 - k)) (ucast (B k) :: u64)) b) \<longleftrightarrow> (\<exists>k<8. bit (push_bit (8 * k) (f k)) b)"
    proof
      assume "\<exists>k<n. bit (push_bit (8 * (7 - k)) (ucast (B k) :: u64)) b"
      then obtain k where "k < n" "bit (push_bit (8 * (7 - k)) (ucast (B k) :: u64)) b" by blast
      then show "\<exists>k<8. bit (push_bit (8 * k) (f k)) b" using assms by (intro exI [of _ "7 - k"]) (simp add: f_def)
    next
      assume "\<exists>k<8. bit (push_bit (8 * k) (f k)) b"
      then obtain k where "k < 8" "bit (push_bit (8 * k) (f k)) b" by blast
      then show "\<exists>k<n. bit (push_bit (8 * (7 - k)) (ucast (B k) :: u64)) b"
        by (intro exI [of _ "7 - k"]) (simp add: f_def split: if_splits)
    qed
    then show "bit (fold (\<lambda>i d. d OR push_bit (8 * (7 - i)) (ucast (B i))) [0..<n] 0 :: u64) b
      = bit (fold (\<lambda>k d. d OR push_bit (8 * k) (f k)) [0..<8] 0) b"
      by (simp only: bit_gather)
  qed
  have "unat (f k) < 256" for k
    using unsigned_less [where 'a = nat, of "B (7 - k)"] by (simp add: f_def unat_ucast_le)
  then have v: "word_bytes (fold (\<lambda>k d. d OR push_bit (8 * k) (f k)) [0..<8] 0) = map (\<lambda>k. ucast (f k)) [0..<8]"
    by (intro word_bytes_gather)
  have uu: "ucast (ucast b :: u64) = b" for b :: u8 by (rule bit_word_eqI) (auto simp: bit_simps)
  have "map (\<lambda>k. ucast (f k)) [0..<8] = replicate (8 - n) 0 @ rev (map B [0..<n])"
    using assms by (intro nth_equalityI) (auto simp: nth_append rev_nth f_def not_less uu)
  then show ?thesis unfolding w v .
qed

lemma be_val_zeros: "be_val (replicate k 0 @ bs) = be_val bs"
  by (induction k) (simp_all add: be_val_def)

lemma code_slice_append: "code_slice g a (j + k) = code_slice g a j @ code_slice g (a + of_nat j) k"
  by (rule nth_equalityI) (auto simp: code_slice_def nth_append add.assoc)

lemma code_slice_blocks: "be_val (code_slice g a (r + 8 * n))
  = be_val (code_slice g a r) * 2 ^ (64 * n) + (\<Sum>j<n. be_val (code_slice g (a + of_nat (r + 8 * (n - 1 - j))) 8) * 2 ^ (64 * j))"
proof (induction n)
  case (Suc n)
  have "code_slice g a (r + 8 * Suc n) = code_slice g a (r + 8 * n) @ code_slice g (a + of_nat (r + 8 * n)) 8"
    using code_slice_append [of g a "r + 8 * n" 8] by (simp add: ac_simps)
  moreover have "length (code_slice g b 8) = 8" for b by (simp add: code_slice_def)
  ultimately have "be_val (code_slice g a (r + 8 * Suc n))
      = be_val (code_slice g a (r + 8 * n)) * 2 ^ 64 + be_val (code_slice g (a + of_nat (r + 8 * n)) 8)"
    by (simp add: be_val_append)
  then show ?case unfolding Suc.IH sum.lessThan_Suc_shift
    by (simp add: algebra_simps sum_distrib_left sum_distrib_right power_add)
qed simp

lemma rfold_append: "rfold f (xs @ ys) s = rbind (rfold f xs s) (rfold f ys)"
  by (induction xs arbitrary: s) (auto simp: rbind_def split: sum.splits)

lemma no_cells: "(\<lambda>x. if k \<le> x \<and> x < k then f x else g x) = g" for k :: nat
  by (intro ext) auto

lemma rfold_cells: "k + b \<le> 2048 \<Longrightarrow> a \<le> b \<Longrightarrow> rfold (\<lambda>i. cell_set (of_nat k + of_nat i) (f i)) [a..<b] m = Inr (m \<lparr> env := (env m) \<lparr> stack_arr :=
    (\<lambda>x. if k + a \<le> x \<and> x < k + b then f (x - k) else stack_arr (env m) x) \<rparr> \<rparr>)"
proof (induction b)
  case (Suc b)
  show ?case
  proof (cases "a = Suc b")
    case False
    then have "a \<le> b" using Suc.prems by simp
    moreover have "(\<lambda>x. if k + a \<le> x \<and> x < k + b then f (x - k) else g x)(k + b := f b)
        = (\<lambda>x. if k + a \<le> x \<and> x < k + Suc b then f (x - k) else g x)" for g :: "nat \<Rightarrow> u64"
      using \<open>a \<le> b\<close> by (intro ext) auto
    moreover have "cell_set (of_nat k + of_nat b) (f b) z = cell_set (of_nat (k + b)) (f b) z" for z by simp
    ultimately show ?thesis using Suc cell_set_at [of "k + b"] by (simp add: rfold_append del: of_nat_add)
  qed (use Suc.prems in \<open>simp add: no_cells\<close>)
qed (simp add: no_cells)

lemma rfold_own_sp:
  "rfold (\<lambda>j m. if Q (pc (env m)) j then cell_set (sp (env m) + of_nat j) (F (pc (env m)) j) m else Inl e) js m
   = rfold (\<lambda>j z. if Q (pc (env m)) j then cell_set (sp (env m) + of_nat j) (F (pc (env m)) j) z else Inl e) js m"
proof -
  have "sp (env z) = s \<Longrightarrow> pc (env z) = p \<Longrightarrow>
      rfold (\<lambda>j m. if Q (pc (env m)) j then cell_set (sp (env m) + of_nat j) (F (pc (env m)) j) m else Inl e) js z
      = rfold (\<lambda>j z. if Q p j then cell_set (s + of_nat j) (F p j) z else Inl e) js z" for z s p
    by (induction js arbitrary: z) (auto simp: cell_set_def wr_def)
  then show ?thesis by simp
qed

lemma rfold_fails:
  assumes "\<exists>j\<in>set js. \<not> Q j" and "\<And>j z. j \<in> set js \<Longrightarrow> \<exists>z'. f j z = Inr z'"
  shows "rfold (\<lambda>j z. if Q j then f j z else Inl e) js m = Inl e"
  using assms
proof (induction js arbitrary: m)
  case (Cons j js)
  obtain z where "f j m = Inr z" using Cons.prems(2) [of j m] by auto
  then show ?case using Cons by (cases "Q j") auto
qed simp

lemma push_bytes_gathered:
  "memlist g = [] \<Longrightarrow> n \<le> 8 \<Longrightarrow> push_bytes g off [0..<n] 0 m =
    (if bytes_ok g off n (pc (env m)) then Inr (gathered g off n (pc (env m)), m) else Inl (Raised EXCP_DBE))"
  using push_bytes_fold [of g "[0..<n]"] by (simp add: gathered_def bytes_ok_def)

lemma push_block_plain:
  "memlist g = [] \<Longrightarrow> push_block g c =
    (\<lambda>j m. if bytes_ok g (\<lambda>i. c - of_nat i - 8 * of_nat j) 8 (pc (env m))
       then cell_set (sp (env m) + of_nat j) (gathered g (\<lambda>i. c - of_nat i - 8 * of_nat j) 8 (pc (env m))) m
       else Inl (Raised EXCP_DBE))"
  by (intro ext) (simp add: push_block_def push_bytes_gathered)

text \<open>The operand byte by byte, and in the words and the rest in which it is read.\<close>

lemma operand_parts:
  "operand_ok g p cnt \<longleftrightarrow> (\<forall>j < cnt div 8. bytes_ok g (\<lambda>i. of_nat cnt - of_nat i - 8 * of_nat j) 8 p)
     \<and> bytes_ok g (\<lambda>i. of_nat (cnt mod 8) - of_nat i) (cnt mod 8) p"
proof -
  define n r R where "n = cnt div 8" and "r = cnt mod 8" and "R k = in_ram g (ucast (p + 1 + of_nat k)) (Suc 0)" for k
  have c: "cnt = r + 8 * n" "r < 8" by (simp_all add: n_def r_def)
  have w: "in_ram g (ucast (p + (of_nat cnt - of_nat i - 8 * of_nat j))) 1 = R (cnt - 1 - i - 8 * j)" if "i < 8" "j < n" for i j
  proof -
    have "cnt = (cnt - 1 - i - 8 * j) + 1 + i + 8 * j" using that c by linarith
    then have "(of_nat cnt :: u32) = of_nat (cnt - 1 - i - 8 * j) + 1 + of_nat i + 8 * of_nat j"
      by (metis of_nat_1 of_nat_add of_nat_mult of_nat_numeral)
    then show ?thesis by (simp add: R_def algebra_simps)
  qed
  have q: "in_ram g (ucast (p + (of_nat r - of_nat i))) 1 = R (r - 1 - i)" if "i < r" for i
  proof -
    have "r = (r - 1 - i) + 1 + i" using that by linarith
    then have "(of_nat r :: u32) = of_nat (r - 1 - i) + 1 + of_nat i" by (metis of_nat_1 of_nat_add)
    then show ?thesis by (simp add: R_def algebra_simps)
  qed
  have "(\<forall>k < cnt. R k) \<longleftrightarrow> (\<forall>j < n. \<forall>i < 8. R (cnt - 1 - i - 8 * j)) \<and> (\<forall>i < r. R (r - 1 - i))"
  proof (intro iffI conjI allI impI)
    fix k assume a: "(\<forall>j < n. \<forall>i < 8. R (cnt - 1 - i - 8 * j)) \<and> (\<forall>i < r. R (r - 1 - i))" and k: "k < cnt"
    show "R k"
    proof (cases "k < r")
      case True
      then have "r - 1 - (r - 1 - k) = k" "r - 1 - k < r" by linarith+
      with a show ?thesis by metis
    next
      case False
      define d where "d = cnt - 1 - k"
      have "d < 8 * n" "cnt - 1 - d = k" using False k c by (simp_all add: d_def)
      then have "d div 8 < n" "cnt - 1 - d mod 8 - 8 * (d div 8) = k" by (auto simp: less_mult_imp_div_less mult.commute)
      with a show ?thesis by (metis mod_less_divisor zero_less_numeral)
    qed
  next
    fix j i assume "\<forall>k < cnt. R k" "j < n" "i < (8 :: nat)"
    moreover have "cnt - 1 - i - 8 * j < cnt" using \<open>j < n\<close> c by linarith
    ultimately show "R (cnt - 1 - i - 8 * j)" by blast
  next
    fix i assume "\<forall>k < cnt. R k" "i < r"
    moreover have "r - 1 - i < cnt" using \<open>i < r\<close> c by linarith
    ultimately show "R (r - 1 - i)" by blast
  qed
  then show ?thesis using w q by (simp add: operand_ok_def bytes_ok_def list_all_iff Ball_def flip: n_def r_def R_def)
qed

lemma gathered_slice:
  assumes "n \<le> 8" and "n \<le> e" and "\<And>i. i < n \<Longrightarrow> off i = of_nat (e - i)"
  shows "unat (bswap64 (gathered g off n p)) = be_val (code_slice g (p + 1 + of_nat (e - n)) n)"
proof -
  have "p + of_nat (e - (n - Suc k)) = p + 1 + of_nat (e - n) + of_nat k" if "k < n" for k
  proof -
    have "e - (n - Suc k) = 1 + (e - n) + k" using that assms(2) by simp
    then show ?thesis by simp
  qed
  then have "rev (map (\<lambda>i. gmem g (ucast (p + off i))) [0..<n]) = code_slice g (p + 1 + of_nat (e - n)) n"
    using assms(3) by (intro nth_equalityI) (simp_all add: code_slice_def rev_nth add.assoc del: of_nat_diff)
  then show ?thesis unfolding bswap64_bytes gathered_def gather_bytes [OF assms(1), of "\<lambda>i. gmem g (ucast (p + off i))"] be_val_zeros by simp
qed

lemma count_parts:
  assumes "cnt \<le> 32"
  shows "unat ((of_nat cnt :: u32) div 8) = cnt div 8" "(of_nat cnt :: u32) AND 7 = of_nat (cnt mod 8)"
    "unat (of_nat (cnt mod 8) :: u32) = cnt mod 8" "(of_nat (cnt mod 8) :: u32) = 0 \<longleftrightarrow> cnt mod 8 = 0"
proof -
  have u: "unat (of_nat cnt :: u32) = cnt" using assms by (simp add: unat_of_nat)
  then show "unat ((of_nat cnt :: u32) div 8) = cnt div 8" by (simp add: unat_div)
  have "x AND 7 = x mod 8" for x :: u32 using take_bit_eq_mask [of 3 x] by (simp add: take_bit_eq_mod mask_eq_exp_minus_1)
  then show "(of_nat cnt :: u32) AND 7 = of_nat (cnt mod 8)" using u by (simp add: word_unat_eq_iff unat_mod unat_of_nat)
  show *: "unat (of_nat (cnt mod 8) :: u32) = cnt mod 8" by (simp add: unat_of_nat less_trans [OF mod_less_divisor])
  show "(of_nat (cnt mod 8) :: u32) = 0 \<longleftrightarrow> cnt mod 8 = 0" by (simp only: unat_eq_zero [symmetric] *)
qed

lemma push_parts: "cnt \<le> 32 \<Longrightarrow> cnt div 8 < 4 \<or> cnt div 8 = 4 \<and> cnt mod 8 = 0" for cnt :: nat
  using less_mult_imp_div_less [of cnt 4 8] by (cases "cnt = 32") simp_all

lemma push_cell_val:
  assumes "cnt \<le> 32"
  shows "reg_val (push_cell g k cnt m) = be_val (code_slice g (pc (env m) + 1) cnt) + stale k cnt m"
proof -
  define n r p where "n = cnt div 8" and "r = cnt mod 8" and "p = pc (env m) + 1"
  have c: "cnt = r + 8 * n" "r < 8" by (simp_all add: n_def r_def)
  have c3: "n < 4 \<or> n = 4 \<and> r = 0" unfolding n_def r_def by (rule push_parts [OF assms])
  have c4: "cnt < 32 \<longleftrightarrow> n < 4" using c c3 by linarith
  have b: "unat (bswap64 (push_cell g k cnt m j)) = be_val (code_slice g (p + of_nat (r + 8 * (n - 1 - j))) 8)" if "j < n" for j
  proof -
    have "of_nat cnt - of_nat i - 8 * of_nat j = (of_nat (cnt - 8 * j - i) :: u32)" if "i < 8" for i
    proof -
      have "cnt = (cnt - 8 * j - i) + 8 * j + i" using that \<open>j < n\<close> c(1) by simp
      then have "(of_nat cnt :: u32) = of_nat (cnt - 8 * j - i) + 8 * of_nat j + of_nat i" by (metis of_nat_add of_nat_mult of_nat_numeral)
      then show ?thesis by simp
    qed
    moreover have "8 \<le> cnt - 8 * j" "cnt - 8 * j - 8 = r + 8 * (n - 1 - j)" using that c(1) by auto
    ultimately show ?thesis using gathered_slice [of 8 "cnt - 8 * j" "\<lambda>i. of_nat cnt - of_nat i - 8 * of_nat j" g "pc (env m)"] that
      by (simp add: push_cell_def p_def flip: n_def)
  qed
  have rr: "unat (bswap64 (push_cell g k cnt m n)) = be_val (code_slice g p r)" if "r \<noteq> 0"
    using gathered_slice [of r r "\<lambda>i. of_nat r - of_nat i" g "pc (env m)"] c(2) that
    by (simp add: push_cell_def p_def flip: n_def r_def)
  have z: "unat (bswap64 (push_cell g k cnt m j)) = 0" if "n < j" for j
    using that bswap64_eq_0 [of 0] by (simp add: push_cell_def flip: n_def)
  have s: "unat (bswap64 (push_cell g k cnt m n)) = unat (bswap64 (stack_arr (env m) (4 * k + n)))" if "r = 0"
    using that by (simp add: push_cell_def flip: n_def r_def)
  have "be_val (code_slice g p cnt) = be_val (code_slice g p r) * 2 ^ (64 * n)
      + (\<Sum>j<n. unat (bswap64 (push_cell g k cnt m j)) * 2 ^ (64 * j))"
    unfolding c(1) code_slice_blocks using b by (simp add: c(1))
  moreover have u: "{..<4} = {..<n} \<union> {n..<4}" using c3 by auto
  have "reg_val (push_cell g k cnt m) = (\<Sum>j<n. unat (bswap64 (push_cell g k cnt m j)) * 2 ^ (64 * j))
      + (\<Sum>j=n..<4. unat (bswap64 (push_cell g k cnt m j)) * 2 ^ (64 * j))"
    unfolding reg_val_def u by (rule sum.union_disjoint) auto
  moreover have "(\<Sum>j=n..<4. unat (bswap64 (push_cell g k cnt m j)) * 2 ^ (64 * j))
      = (if n < 4 then unat (bswap64 (push_cell g k cnt m n)) * 2 ^ (64 * n) else 0)"
    using z by (simp add: sum.atLeast_Suc_lessThan)
  moreover have "be_val (code_slice g p 0) = 0" by (simp add: code_slice_def be_val_def)
  ultimately show ?thesis using c3 c4 rr s by (cases "r = 0") (auto simp: stale_def p_def [symmetric] simp flip: n_def r_def)
qed

lemma PushInst_holds:
  assumes "memlist g = []" and "holds m st" and "length st < 512" and "cnt \<le> 32" and "operand_ok g (pc (env m)) cnt"
  obtains m' where "PushInst g (of_nat cnt) m = Inr m'"
    "holds m' (of_nat (be_val (code_slice g (pc (env m) + 1) cnt) + stale (length st) cnt m) # st)" "stepped 0 0 m m'"
proof -
  define n r k m1 where "n = cnt div 8" and "r = cnt mod 8" and "k = 4 * length st" and "m1 = sp_add 1 m"
  define f where "f = push_cell g (length st) cnt m"
  define A where "A b = (\<lambda>x. if k \<le> x \<and> x < k + b then f (x - k) else stack_arr (env m) x)" for b
  define M where "M b = m1 \<lparr> env := (env m1) \<lparr> stack_arr := A b \<rparr> \<rparr>" for b
  have n: "n < 4 \<or> n = 4 \<and> r = 0" "k + 4 \<le> 2048" using assms(3) push_parts [OF assms(4)] by (simp_all add: n_def k_def r_def)
  then have kn: "k + n \<le> 2048" by auto
  have s: "sp (env m1) = of_nat k" "pc (env m1) = pc (env m)" "stack_arr (env m1) = stack_arr (env m)"
    using assms(2) by (simp_all add: holds_def depth_def m1_def sp_add_def k_def)
  have M: "sp (env (M b)) = of_nat k" "pc (env (M b)) = pc (env m)" "stack_arr (env (M b)) = A b" for b by (simp_all add: M_def s)
  have c: "(ucast (of_nat cnt :: u64) :: u32) = of_nat cnt" using assms(4) ucast_small(2) [of cnt] by simp
  have ok: "\<And>j. j < n \<Longrightarrow> bytes_ok g (\<lambda>i. of_nat cnt - of_nat i - 8 * of_nat j) 8 (pc (env m))"
    "bytes_ok g (\<lambda>i. of_nat r - of_nat i) r (pc (env m))"
    using assms(5) by (simp_all add: operand_parts n_def r_def)
  have "rfold (push_block g (of_nat cnt)) [0..<n] m1 = rfold (\<lambda>j. cell_set (of_nat k + of_nat j) (f j)) [0..<n] m1"
    unfolding push_block_plain [OF assms(1)]
      rfold_own_sp [of "\<lambda>p j. bytes_ok g (\<lambda>i. of_nat cnt - of_nat i - 8 * of_nat j) 8 p"
        "\<lambda>p j. gathered g (\<lambda>i. of_nat cnt - of_nat i - 8 * of_nat j) 8 p"] s
    by (rule rfold_cong) (use ok(1) in \<open>simp add: f_def push_cell_def flip: n_def\<close>)
  then have 1: "rfold (push_block g (of_nat cnt)) [0..<n] m1 = Inr (M n)"
    using rfold_cells [of k n 0 f m1] kn by (simp add: M_def A_def s(3) cong: if_cong)
  have 2: "(if r \<noteq> 0 then cell_set (of_nat k + of_nat n) (gathered g (\<lambda>i. of_nat r - of_nat i) r (pc (env m))) (M n) else Inr (M n))
      = Inr (M (if n < 4 then Suc n else n))"
  proof (cases "n < 4")
    case True
    then have kn2: "k + n < 2048" using n(2) by simp
    have e: "(A n)(k + n := f n) = A (Suc n)" by (auto simp: A_def fun_eq_iff)
    have "f n = stack_arr (env m) (k + n)" if "r = 0" using that by (simp add: f_def push_cell_def k_def flip: n_def r_def)
    then have "A (Suc n) = A n" if "r = 0"
      using that e fun_upd_triv [of "A n" "k + n"] by (simp add: A_def)
    moreover have "f n = gathered g (\<lambda>i. of_nat r - of_nat i) r (pc (env m))" if "r \<noteq> 0"
      using that by (simp add: f_def push_cell_def flip: n_def r_def)
    ultimately show ?thesis using cell_set_at [OF kn2, of "f n" "M n"] e True by (auto simp: M_def)
  qed (use n in simp)
  have 3: "rfold (\<lambda>j. cell_set (of_nat k + of_nat j) 0) [n + 1..<4] (M (if n < 4 then Suc n else n)) = Inr (M 4)"
  proof (cases "n < 4")
    case True
    have "f j = 0" if "n < j" for j using that by (simp add: f_def push_cell_def flip: n_def)
    then have "(\<lambda>x. if k + Suc n \<le> x \<and> x < k + 4 then 0 else A (Suc n) x) = A 4" using True by (auto simp: A_def fun_eq_iff)
    then show ?thesis using rfold_cells [of k 4 "Suc n" "\<lambda>_. 0" "M (Suc n)"] True n(2) by (simp add: M_def cong: if_cong)
  qed (use n in simp)
  have r8: "r \<le> 8" by (simp add: r_def less_imp_le)
  have "PushInst g (of_nat cnt) m = Inr (sp_add 3 (M 4))"
    using 1 2 3 count_parts [OF assms(4)] c r8 ok(2)
    by (cases "r = 0") (simp_all add: PushInst_def Let_def m1_def [symmetric] n_def [symmetric] r_def [symmetric] M push_bytes_gathered [OF assms(1)])
  moreover obtain m' where "rbind (rfold (\<lambda>i. cell_set (sp (env (sp_add 1 m)) + of_nat i) (f i)) [0, 1, 2, 3] (sp_add 1 m))
      (\<lambda>m2. Inr (sp_add 3 m2)) = Inr m'" "holds m' (of_nat (reg_val f) # st)" "stepped 0 0 m m'"
    by (rule push_up_fun [OF assms(2,3)])
  moreover have u4: "[0..<4] = [0, 1, 2, 3 :: nat]" by (simp add: upt_rec numeral_eq_Suc)
  have "rfold (\<lambda>i. cell_set (of_nat k + of_nat i) (f i)) [0, 1, 2, 3] m1 = Inr (M 4)"
    using rfold_cells [of k 4 0 f m1] n(2) unfolding u4 M_def A_def s(3) by simp
  ultimately show ?thesis using that by (simp add: f_def push_cell_val [OF assms(4)] m1_def [symmetric] s(1) del: rfold.simps)
qed

section \<open>Round trip and bounds\<close>

lemma be_val_word_bytes: "n \<le> 32 \<Longrightarrow> be_val (map (\<lambda>k. ucast (word_byte x k)) [0..<n]) = unat x div 256 ^ (32 - n)"
proof (induction n)
  case 0
  then show ?case using unsigned_less [where 'a = nat, of x] by (simp add: be_val_def)
next
  case (Suc n)
  define q where "q = unat x div 256 ^ (31 - n)"
  have "unat (drop_bit (8 * (31 - n)) x) = unat x div 2 ^ (8 * (31 - n))"
    using unat_drop_bit_eq [of "8 * (31 - n)" x] drop_bit_eq_div [of "8 * (31 - n)" "unat x"] by (simp only:)
  also have "(2::nat) ^ (8 * (31 - n)) = 256 ^ (31 - n)" by (simp add: power_mult)
  finally have "unat (drop_bit (8 * (31 - n)) x) = q" by (simp only: q_def)
  then have "unat (ucast (word_byte x n) :: u8) = q mod 256"
    by (simp add: word_byte_def unat_ucast_mod unat_mod take_bit_eq_mod mod_mod_cancel)
  moreover have "unat x div 256 ^ (32 - n) = q div 256"
  proof -
    have "32 - n = Suc (31 - n)" using Suc.prems by simp
    then show ?thesis by (simp only: q_def power_Suc2 div_mult2_eq)
  qed
  ultimately show ?case using Suc by (simp add: be_val_append q_def) (simp add: be_val_def)
qed

lemma stored_slice: "be_val (bus_slice (stored a x m) a 32) = unat x"
proof -
  have "bus_slice (stored a x m) a 32 = map (\<lambda>k. ucast (word_byte x k)) [0..<32]" by (simp add: bus_slice_def stored_def)
  then show ?thesis using be_val_word_bytes [of 32 x] by simp
qed

lemma holds_stored: "holds (stored a x m) st = holds m st"
proof -
  have "elem (stored a x m) = elem m" by (rule ext) (simp add: elem_def elem_reg_def stored_def)
  then show ?thesis by (simp add: holds_def stack_list_def) (simp add: depth_def stored_def)
qed

lemma word_byte_lt: "unat (word_byte x k) < 256"
  by (simp add: word_byte_def take_bit_eq_mod unat_mod)

lemma load_word_ok:
  "unat a + length js \<le> BUS_LEN \<Longrightarrow> \<exists>d'. load_word js d a m = Inr (d', a + of_nat (length js))"
proof (induction js arbitrary: a d)
  case (Cons j js)
  then have "unat (a + 1) = Suc (unat a)" by (simp add: BUS_LEN_def unat_word_ariths)
  with Cons show ?case by (simp add: bus_get_def rd_def unat_ucast_le add.assoc [symmetric] add.commute [of a 1])
qed simp

lemma load_word_overflow:
  "js \<noteq> [] \<Longrightarrow> BUS_LEN < unat a + length js \<Longrightarrow> load_word js d a m = Inl OutOfBounds"
proof (induction js arbitrary: a d)
  case (Cons j js)
  show ?case
  proof (cases "unat a < BUS_LEN")
    case True
    then have "unat (a + 1) = Suc (unat a)" by (simp add: BUS_LEN_def unat_word_ariths)
    moreover have "js \<noteq> []" using True Cons.prems by auto
    ultimately have "load_word js d' (a + 1) m = Inl OutOfBounds" for d' using Cons.IH Cons.prems by simp
    with True show ?thesis by (simp add: bus_get_def rd_def unat_ucast_le)
  qed (simp add: bus_get_def rd_def unat_ucast_le)
qed simp

lemma Mload_overflow:
  assumes "BUS_LEN < unat (ucast a :: u32) + 32"
  shows "MloadInst a m = Inl OutOfBounds"
proof -
  define b where "b = (ucast a :: u32)"
  have *: "load_word [0, 1, 2, 3, 4, 5, 6, 7] 0 c m = Inl OutOfBounds \<or> unat c + 8 \<le> BUS_LEN \<and> unat (c + 8) = unat c + 8
      \<and> (\<exists>d. load_word [0, 1, 2, 3, 4, 5, 6, 7] 0 c m = Inr (d, c + 8))" for c
  proof (cases "unat c + 8 \<le> BUS_LEN")
    case True
    then have "unat (c + 8) = unat c + 8" by (simp add: BUS_LEN_def unat_word_ariths)
    with True show ?thesis using load_word_ok [of c "[0, 1, 2, 3, 4, 5, 6, 7]" 0 m] by simp
  qed (use load_word_overflow [of "[0, 1, 2, 3, 4, 5, 6, 7]" c 0 m] in simp)
  have e: "MloadInst a m = Inl OutOfBounds" if "load_word [0, 1, 2, 3, 4, 5, 6, 7] 0 b m = Inl OutOfBounds"
    using that by (simp add: MloadInst_def Let_def b_def del: load_word.simps)
  show ?thesis
    using e * [of b] * [of "b + 8"] * [of "b + 16"] * [of "b + 24"] assms [folded b_def]
    by (auto simp: MloadInst_def Let_def b_def [symmetric] add.assoc simp del: load_word.simps)
qed

text \<open>C10: a store writes the 32 bytes of the top element, most significant first, at the address, keeps every other byte of
  data memory and raises the memory size to the end of the written range; the following load at the address pushes the
  element back. The memory holds 1024 bytes: an access beyond it leaves the array. A load takes only the low 32 bits of
  its address.\<close>

theorem mstore_mload_round_trip:
  assumes "holds m (x # st)"
  shows "(unat a + 32 \<le> BUS_LEN \<longrightarrow> (\<exists>m1. MStoreInst a m = Inr m1 \<and> holds m1 st
      \<and> m1 = (sp_add (- 4) m) \<lparr> env := (env (sp_add (- 4) m)) \<lparr> data_bus := (\<lambda>i. if unat a \<le> i \<and> i < unat a + 32
           then take_bit 8 (ucast (drop_bit (8 * (31 - (i - unat a))) x)) else data_bus (env m) i),
           mem_size := max (mem_size (env m)) (a + 32) \<rparr> \<rparr>
      \<and> (\<exists>m2. MloadInst a m1 = Inr m2 \<and> holds m2 (x # st) \<and> stepped 0 0 m1 m2)))
    \<and> (BUS_LEN < unat a + 32 \<longrightarrow> MStoreInst a m = Inl OutOfBounds)
    \<and> (BUS_LEN < unat (ucast a :: u32) + 32 \<longrightarrow> MloadInst a m = Inl OutOfBounds)"
proof (intro conjI impI)
  assume a: "unat a + 32 \<le> BUS_LEN"
  define m1 where "m1 = stored (unat a) x (sp_add (- 4) m)"
  have h: "holds m1 st" using pop_holds [OF assms] by (simp add: m1_def holds_stored)
  have l: "length st < 512" using assms by (simp add: holds_def depth_def)
  have "unat (data_bus (env m1) (unat a + k)) < 256" if "k < 32" for k using that by (simp add: m1_def stored_def word_byte_lt)
  then obtain m2 where "MloadInst a m1 = Inr m2" "holds m2 (of_nat (be_val (bus_slice m1 (unat a) 32)) # st)" "stepped 0 0 m1 m2"
    using Mload_holds [OF h l a] by blast
  then have "\<exists>m2. MloadInst a m1 = Inr m2 \<and> holds m2 (x # st) \<and> stepped 0 0 m1 m2" by (simp add: m1_def stored_slice)
  moreover have "m1 = (sp_add (- 4) m) \<lparr> env := (env (sp_add (- 4) m)) \<lparr> data_bus := (\<lambda>i. if unat a \<le> i \<and> i < unat a + 32
           then take_bit 8 (ucast (drop_bit (8 * (31 - (i - unat a))) x)) else data_bus (env m) i),
           mem_size := max (mem_size (env m)) (a + 32) \<rparr> \<rparr>"
    by (simp add: m1_def stored_def word_byte_def sp_add_def cong: if_cong)
  ultimately show "\<exists>m1. MStoreInst a m = Inr m1 \<and> holds m1 st
      \<and> m1 = (sp_add (- 4) m) \<lparr> env := (env (sp_add (- 4) m)) \<lparr> data_bus := (\<lambda>i. if unat a \<le> i \<and> i < unat a + 32
           then take_bit 8 (ucast (drop_bit (8 * (31 - (i - unat a))) x)) else data_bus (env m) i),
           mem_size := max (mem_size (env m)) (a + 32) \<rparr> \<rparr>
      \<and> (\<exists>m2. MloadInst a m1 = Inr m2 \<and> holds m2 (x # st) \<and> stepped 0 0 m1 m2)"
    using MStore_holds [OF assms a] h unfolding m1_def by blast
next
  assume "BUS_LEN < unat a + 32"
  then show "MStoreInst a m = Inl OutOfBounds" using MStore_overflow [OF assms] by simp
qed (rule Mload_overflow)

theorem mstore_mload_round_trip_witness:
  "(\<exists>m1 m2. MStoreInst 64 (loaded 0 [0xABC, 7]) = Inr m1 \<and> holds m1 [7] \<and> MloadInst 64 m1 = Inr m2 \<and> holds m2 [0xABC, 7])
   \<and> MStoreInst 993 (loaded 0 [0xABC, 7]) = Inl OutOfBounds"
proof -
  have h: "holds (loaded 0 [0xABC, 7]) [0xABC, 7]" by (rule holds_loaded) simp
  show ?thesis using mstore_mload_round_trip [OF h, of 64] mstore_mload_round_trip [OF h, of 993] by (auto simp: BUS_LEN_def)
qed

lemma PushInst_outside:
  assumes "memlist g = []" and "holds m st" and "length st < 512" and "cnt \<le> 32" and "\<not> operand_ok g (pc (env m)) cnt"
  shows "PushInst g (of_nat cnt) m = Inl (Raised EXCP_DBE)"
proof -
  define n r k m1 where "n = cnt div 8" and "r = cnt mod 8" and "k = 4 * length st" and "m1 = sp_add 1 m"
  define B where "B j = bytes_ok g (\<lambda>i. of_nat cnt - of_nat i - 8 * of_nat j) 8 (pc (env m))" for j :: nat
  have n: "n \<le> 4" "k + 4 \<le> 2048" using assms(3) push_parts [OF assms(4)] by (auto simp: n_def k_def)
  have s: "sp (env m1) = of_nat k" "pc (env m1) = pc (env m)"
    using assms(2) by (simp_all add: holds_def depth_def m1_def sp_add_def k_def)
  have c: "(ucast (of_nat cnt :: u64) :: u32) = of_nat cnt" using assms(4) ucast_small(2) [of cnt] by simp
  have set: "\<exists>z'. cell_set (of_nat k + of_nat j) v z = Inr z'" if "j < n" for j v z
    using cell_set_at [of "k + j" v z] that n by auto
  have f: "rfold (push_block g (of_nat cnt)) [0..<n] m1 =
      rfold (\<lambda>j z. if B j then cell_set (of_nat k + of_nat j) (gathered g (\<lambda>i. of_nat cnt - of_nat i - 8 * of_nat j) 8 (pc (env m))) z
        else Inl (Raised EXCP_DBE)) [0..<n] m1"
    unfolding push_block_plain [OF assms(1)]
      rfold_own_sp [of "\<lambda>p j. bytes_ok g (\<lambda>i. of_nat cnt - of_nat i - 8 * of_nat j) 8 p"
        "\<lambda>p j. gathered g (\<lambda>i. of_nat cnt - of_nat i - 8 * of_nat j) 8 p"] s B_def by (rule refl)
  show ?thesis
  proof (cases "\<forall>j < n. B j")
    case False
    then have "rfold (push_block g (of_nat cnt)) [0..<n] m1 = Inl (Raised EXCP_DBE)"
      unfolding f by (intro rfold_fails set) auto
    then show ?thesis using count_parts [OF assms(4)] c by (simp add: PushInst_def Let_def flip: m1_def n_def)
  next
    case True
    then have "\<not> bytes_ok g (\<lambda>i. of_nat r - of_nat i) r (pc (env m))"
      using assms(5) by (simp add: operand_parts B_def n_def r_def)
    moreover from this have "r \<noteq> 0" by (cases "r = 0") (simp_all add: bytes_ok_def)
    moreover have "rfold (push_block g (of_nat cnt)) [0..<n] m1 = rfold (\<lambda>j. cell_set (of_nat k + of_nat j)
        (gathered g (\<lambda>i. of_nat cnt - of_nat i - 8 * of_nat j) 8 (pc (env m)))) [0..<n] m1"
      unfolding f by (rule rfold_cong) (use True in simp)
    then obtain z where "rfold (push_block g (of_nat cnt)) [0..<n] m1 = Inr z" "pc (env z) = pc (env m)"
      using rfold_cells [of k n 0 _ m1] n s(2) by (simp add: order_trans [OF add_left_mono])
    moreover have "r \<le> 8" by (simp add: r_def less_imp_le)
    ultimately show ?thesis using count_parts [OF assms(4)] c
      by (simp add: PushInst_def Let_def m1_def [symmetric] n_def [symmetric] r_def [symmetric] push_bytes_gathered [OF assms(1)])
  qed
qed

lemma PushInst_overflow:
  assumes "memlist g = []" and "holds m st" and "cnt \<le> 32" and "length st = 512" and "0 < cnt"
  shows "PushInst g (of_nat cnt) m \<in> {Inl OutOfBounds, Inl (Raised EXCP_DBE)}"
    and "operand_ok g (pc (env m)) cnt \<Longrightarrow> PushInst g (of_nat cnt) m = Inl OutOfBounds"
proof -
  have s: "sp (env (sp_add 1 m)) = of_nat 2048" "pc (env (sp_add 1 m)) = pc (env m)"
    using assms(2,4) by (simp_all add: holds_def depth_def sp_add_def)
  have c: "(ucast (of_nat cnt :: u64) :: u32) = of_nat cnt" using assms(3) ucast_small(2) [of cnt] by simp
  have o: "cell_set (of_nat 2048) v z = Inl OutOfBounds" for v z using cell_set_beyond [of 2048] by simp
  have r8: "cnt mod 8 \<le> 8" by (simp add: less_imp_le)
  note facts = count_parts [OF assms(3)] push_block_plain [OF assms(1)] push_bytes_gathered [OF assms(1)]
  have "PushInst g (of_nat cnt) m = (if bytes_ok g (\<lambda>i. (if cnt div 8 = 0 then of_nat (cnt mod 8) else of_nat cnt) - of_nat i)
      (if cnt div 8 = 0 then cnt mod 8 else 8) (pc (env m)) then Inl OutOfBounds else Inl (Raised EXCP_DBE))"
  proof (cases "cnt div 8")
    case 0
    then have "cnt mod 8 \<noteq> 0" using assms(5) by (metis div_mult_mod_eq add_0 mult_0 less_irrefl)
    with 0 show ?thesis using o c s facts r8 by (simp add: PushInst_def Let_def)
  next
    case (Suc k)
    then have "[0..<cnt div 8] = 0 # [Suc 0..<cnt div 8]" by (simp add: upt_rec)
    then show ?thesis using o c s facts Suc by (simp add: PushInst_def Let_def)
  qed
  then show "PushInst g (of_nat cnt) m \<in> {Inl OutOfBounds, Inl (Raised EXCP_DBE)}"
    "operand_ok g (pc (env m)) cnt \<Longrightarrow> PushInst g (of_nat cnt) m = Inl OutOfBounds"
    by (auto simp: operand_parts dest: spec [of _ "0 :: nat"] split: if_splits)
qed

text \<open>C12: a push of \<open>cnt\<close> bytes puts the big-endian value of the \<open>cnt\<close> code bytes behind the opcode on the stack. When the
  count is a multiple of eight below 32 the word above the constant is not cleared: whatever the array holds there
  becomes part of the value. A code byte outside RAM raises the bus exception. With 512 elements on the stack the push writes
  beyond the array, unless a code byte it reads before raises the exception.\<close>

theorem push_inst_value:
  assumes "memlist g = []" and "holds m st" and "cnt \<le> 32"
    and "readable \<longleftrightarrow> (\<forall>k < cnt. unat (ucast (pc (env m) + 1 + of_nat k) :: u64) < ram_size g)"
  shows "(length st < 512 \<and> readable \<longrightarrow> (\<exists>m'. PushInst g (of_nat cnt) m = Inr m' \<and> stepped 0 0 m m'
      \<and> holds m' (of_nat (be_val (map (\<lambda>k. gmem g (ucast (pc (env m) + 1 + of_nat k))) [0..<cnt])
          + (if cnt mod 8 = 0 \<and> cnt < 32 then unat (bswap64 (stack_arr (env m) (4 * length st + cnt div 8))) * 2 ^ (64 * (cnt div 8))
             else 0)) # st)))
    \<and> (length st < 512 \<and> \<not> readable \<longrightarrow> PushInst g (of_nat cnt) m = Inl (Raised EXCP_DBE))
    \<and> (length st = 512 \<and> 0 < cnt \<and> readable \<longrightarrow> PushInst g (of_nat cnt) m = Inl OutOfBounds)
    \<and> (length st = 512 \<and> 0 < cnt \<longrightarrow> PushInst g (of_nat cnt) m \<in> {Inl OutOfBounds, Inl (Raised EXCP_DBE)})"
proof -
  have "operand_ok g (pc (env m)) cnt = readable"
    by (simp add: assms(4) operand_ok_def list_all_iff in_ram_def Ball_def less_eq_Suc_le)
  then show ?thesis
    using PushInst_holds [OF assms(1,2) _ assms(3)] PushInst_outside [OF assms(1,2) _ assms(3)] PushInst_overflow [OF assms(1-3)]
    unfolding code_slice_def stale_def by metis
qed

theorem push_inst_value_witness:
  "(\<exists>m'. PushInst \<lparr> gmem = (\<lambda>a. if a = 1 then 0x12 else if a = 2 then 0x34 else 0), ram_size = 0x8000000, use_memtracer = False, memlist = [] \<rparr> 2 (loaded 0 [9]) = Inr m'
      \<and> holds m' [0x1234, 9])
   \<and> (\<exists>m'. PushInst \<lparr> gmem = (\<lambda>a. 0), ram_size = 0x8000000, use_memtracer = False, memlist = [] \<rparr> 8
        ((loaded 0 [9]) \<lparr> env := (env (loaded 0 [9])) \<lparr> stack_arr := (stack_arr (env (loaded 0 [9])))(5 := bswap64 1) \<rparr> \<rparr>) = Inr m'
      \<and> holds m' [2 ^ 64, 9])"
proof -
  define g :: "(u64 \<Rightarrow> u8) \<Rightarrow> guest" where "g f = \<lparr> gmem = f, ram_size = 0x8000000, use_memtracer = False, memlist = [] \<rparr>" for f
  have g: "memlist (g f) = []" "gmem (g f) = f" "ram_size (g f) = 0x8000000" for f by (simp_all add: g_def)
  have h: "holds (loaded 0 [9]) [9]" by (rule holds_loaded) simp
  define m where "m = (loaded 0 [9]) \<lparr> env := (env (loaded 0 [9])) \<lparr> stack_arr := (stack_arr (env (loaded 0 [9])))(5 := bswap64 1) \<rparr> \<rparr>"
  have "elem m 0 = elem (loaded 0 [9]) 0"
    by (auto simp: m_def elem_def elem_reg_def intro!: arg_cong [where f = of_nat] reg_val_cong)
  then have hm: "holds m [9]" using h by (simp add: holds_def stack_list_def depth_def) (simp add: m_def)
  have p: "pc (env (loaded 0 [9])) = 0" "pc (env m) = 0" "stack_arr (env m) 5 = bswap64 1"
    by (simp_all add: loaded_def zero_cpu_def m_def)
  have "unat (1 + of_nat k :: u32) = 1 + k" if "k < 8" for k using that by (simp add: unat_word_ariths unat_of_nat)
  then have ok: "True \<longleftrightarrow> (\<forall>k < c. unat (ucast (pc (env z) + 1 + of_nat k) :: u64) < ram_size (g f))" if "c \<le> 8" "pc (env z) = 0" for c z f
    using that by (simp add: g unat_ucast_le)
  have "\<exists>m'. PushInst (g (\<lambda>a. if a = 1 then 0x12 else if a = 2 then 0x34 else 0)) 2 (loaded 0 [9]) = Inr m' \<and> holds m' [0x1234, 9]"
    using push_inst_value [OF g(1) h _ ok, of 2 "\<lambda>a. if a = 1 then 0x12 else if a = 2 then 0x34 else 0"]
    by (simp add: g p upt_rec be_val_def) blast
  moreover have "\<exists>m'. PushInst (g (\<lambda>a. 0)) 8 m = Inr m' \<and> holds m' [2 ^ 64, 9]"
    using push_inst_value [OF g(1) hm _ ok, of 8 "\<lambda>a. 0"] by (simp add: g p upt_rec be_val_def) blast
  ultimately show ?thesis unfolding m_def g_def by blast
qed

end
