(* ===== verification/Translate.thy ===== *)
theory Translate
  imports Evm_Memory
begin

unbundle bit_operations_syntax

text \<open>
  The translator: \<^verbatim>\<open>target-ppdl/translate_insn.h\<close> (the code generated for one instruction) and
  \<^verbatim>\<open>translate.c\<close> (the translation of a block). Generated code is a function on machine states: a call of a
  helper is the helper, a move to a register of the processor is the update of its field. \<open>genBlock_Main\<close>
  gives the code and whether the translator's own variable \<^verbatim>\<open>changed_pc\<close> is set.

  \<^verbatim>\<open>cpu_pc\<close> is a 64-bit variable of the code generator over the 32-bit field \<^verbatim>\<open>pc\<close> and the padding behind it.
  The code only adds to it and assigns it, and everybody else reads the field, so the low 32 bits are a model
  of it.

  Parameters: \<open>beyond\<close> is the memory behind the array of the hash state, \<open>junk i\<close> the value a dispatch list
  returns at its \<open>i\<close>-th call when it falls off its end; \<open>opc_room n\<close> tells whether the code generator's buffer
  has room left after \<open>n\<close> instructions; \<open>tracer\<close> is the call emitted before every instruction when tracing is on.
\<close>

section \<open>Generated code\<close>

type_synonym code = "machine \<Rightarrow> machine run"

record ambient =
  beyond :: "nat \<Rightarrow> u64"
  junk :: "nat \<Rightarrow> u64"

definition seq_code :: "code list \<Rightarrow> code" where
  "seq_code cs = rfold (\<lambda>c. c) cs"

definition extract32 :: "u32 \<Rightarrow> nat \<Rightarrow> nat \<Rightarrow> u32" where
  "extract32 v start len = drop_bit start v AND drop_bit (32 - len) (NOT 0)"

definition set_pc :: "u32 \<Rightarrow> code" where
  "set_pc v m = Inr (m \<lparr> env := (env m) \<lparr> pc := v \<rparr> \<rparr>)"

definition add_pc :: "u32 \<Rightarrow> code" where
  "add_pc k m = set_pc (pc (env m) + k) m"

definition set_pc_const_changed :: "u64 \<Rightarrow> code" where
  "set_pc_const_changed v m = Inr (m \<lparr> env := (env m) \<lparr> is_pc_const_changed := v \<rparr> \<rparr>)"

definition set_pc_within_inst :: "u64 \<Rightarrow> code" where
  "set_pc_within_inst v m = Inr (m \<lparr> env := (env m) \<lparr> is_pc_within_inst := v \<rparr> \<rparr>)"

section \<open>One block per instruction pattern\<close>

definition field4 :: "u64 \<Rightarrow> u64" where
  "field4 insn = ucast (extract32 (ucast insn) 0 4)"

definition gen_syscall :: "u64 \<Rightarrow> code" where
  "gen_syscall insn = SystemOps (field4 insn)"

definition gen_staticcall :: code where
  "gen_staticcall = helper_USEGAS 0x28"

definition gen_revert :: code where
  "gen_revert = seq_code [helper_USEGAS 0, helper_StopExec]"

definition gen_suicide :: code where
  "gen_suicide = seq_code [helper_USEGAS 0, helper_StopExec]"

definition gen_blockchain :: "u64 \<Rightarrow> code" where
  "gen_blockchain insn = BlockChain (field4 insn)"

definition gen_accounts :: "u64 \<Rightarrow> code" where
  "gen_accounts insn = AccountsData (field4 insn)"

definition gen_push :: "guest \<Rightarrow> u64 \<Rightarrow> code" where
  "gen_push g insn =
     (let count = ucast (extract32 (ucast insn) 0 5) in
      seq_code [helper_USEGAS 0x3, PushInst g (count + 1), set_pc_const_changed 1, add_pc (ucast count + 2)])"

definition gen_dup :: "u64 \<Rightarrow> code" where
  "gen_dup insn = seq_code [helper_USEGAS 0x3, DupOp (field4 insn)]"

definition gen_swap :: "u64 \<Rightarrow> code" where
  "gen_swap insn = seq_code [helper_USEGAS 0x3, SwapOp (field4 insn)]"

definition gen_log :: "u64 \<Rightarrow> code" where
  "gen_log insn =
     (let count = ucast (extract32 (ucast insn) 0 3) in helper_USEGAS (0x177 + count * 0x177))"

definition gen_arithm :: "ambient \<Rightarrow> u64 \<Rightarrow> code" where
  "gen_arithm A insn = ArithmStub (ArithmOps (junk A 0) (field4 insn) AND 0xFFFFFFFF)"

definition gen_compare :: "ambient \<Rightarrow> u64 \<Rightarrow> code" where
  "gen_compare A insn = CompareStub (CompareLogOps (junk A 0) (field4 insn) AND 0xFFFFFFFF)"

definition gen_sha3 :: "ambient \<Rightarrow> code" where
  "gen_sha3 A = seq_code [helper_USEGAS 0x1E, KeccakAlgStub (beyond A)]"

section \<open>Memory, storage and control instructions\<close>

text \<open>The address operand: popped for the codes 1 to 7, zero for the others.\<close>

definition mem_addr :: "ambient \<Rightarrow> u64 \<Rightarrow> machine \<Rightarrow> (u64 \<times> machine) run" where
  "mem_addr A opcode m =
     (if MemOps (junk A 1) opcode < 8 \<and> MemOps (junk A 0) opcode \<noteq> 0 then helper_GetSingleBlockFromStack m
      else Inr (0, m))"

definition gen_mstore8 :: "u64 \<Rightarrow> code" where
  "gen_mstore8 addr_val = seq_code [helper_USEGAS 0x3, \<lambda>m.
     rbind (cell_get (sp (env m) - 3) m) (\<lambda>data_val.
     rbind (bus_set addr_val (drop_bit (7 * 8) data_val AND 0xFF) (sp_add (- 4) m)) (\<lambda>m1.
       Inr (if addr_val > mem_size (env m1) then m1 \<lparr> env := (env m1) \<lparr> mem_size := addr_val \<rparr> \<rparr> else m1)))]"

definition gen_jump :: "u64 \<Rightarrow> code" where
  "gen_jump addr_val = seq_code [helper_USEGAS 0x8, set_pc (ucast addr_val), set_pc_within_inst 1]"

definition copy_gas :: "u64 \<Rightarrow> code" where
  "copy_gas k m = rbind (gas_available_get k m) (\<lambda>v. cell_set (sp (env m) + k) v m)"

definition gen_gas :: code where
  "gen_gas = seq_code [helper_USEGAS 0x2, \<lambda>m. Inr (sp_add 1 m), copy_gas 0, copy_gas 1, copy_gas 2, copy_gas 3,
     \<lambda>m. Inr (sp_add 3 m)]"

definition gen_mem_case :: "u64 \<Rightarrow> u64 \<Rightarrow> code" where
  "gen_mem_case c addr_val =
     (if c = 0 then seq_code [helper_USEGAS 0x2, helper_Pop]
      else if c = 1 then seq_code [helper_USEGAS 0x3, MloadInst addr_val]
      else if c = 2 then seq_code [helper_USEGAS 0x3, MStoreInst addr_val]
      else if c = 3 then gen_mstore8 addr_val
      else if c = 4 then seq_code [helper_USEGAS 0x32, LoadFromStorageStub addr_val]
      else if c = 5 then seq_code [helper_USEGAS 0, SaveToStorageStub addr_val]
      else if c = 6 then gen_jump addr_val
      else if c = 7 then helper_USEGAS 0xA
      else if c = 8 then seq_code [helper_USEGAS 0x2, PcOp]
      else if c = 9 then seq_code [helper_USEGAS 0x2, MSizeOp]
      else if c = 10 then gen_gas
      else if c = 11 then helper_USEGAS 0x1
      else Inr)"

definition gen_mem :: "ambient \<Rightarrow> u64 \<Rightarrow> code" where
  "gen_mem A insn m =
     (let opcode = field4 insn in
      rbind (mem_addr A opcode m) (\<lambda>(addr_val, m1).
        gen_mem_case (MemOps (junk A 2) opcode AND 0xFFFFFFFF) addr_val m1))"

section \<open>The decision list\<close>

definition genBlock_Main :: "guest \<Rightarrow> ambient \<Rightarrow> u64 \<Rightarrow> code \<times> bool" where
  "genBlock_Main g A insn =
     (if insn AND 0xf0 = 0xf0 then (gen_syscall insn, False)
      else if insn AND 0xff = 0xfa then (gen_staticcall, False)
      else if insn AND 0xff = 0xfd then (gen_revert, False)
      else if insn AND 0xff = 0xff then (gen_suicide, False)
      else if insn AND 0xf0 = 0x40 then (gen_blockchain insn, False)
      else if insn AND 0xf0 = 0x30 then (gen_accounts insn, False)
      else if insn AND 0xe0 = 0x60 then (gen_push g insn, True)
      else if insn AND 0xf0 = 0x80 then (gen_dup insn, False)
      else if insn AND 0xf0 = 0x90 then (gen_swap insn, False)
      else if insn AND 0xf8 = 0xa0 then (gen_log insn, False)
      else if insn AND 0xf0 = 0x50 then (gen_mem A insn, False)
      else if insn AND 0xf0 = 0x0 then (gen_arithm A insn, False)
      else if insn AND 0xf0 = 0x10 then (gen_compare A insn, False)
      else if insn AND 0xff = 0x20 then (gen_sha3 A, False)
      else (Inr, False))"

section \<open>Translation of a block\<close>

definition get_ppdl_shift_pc :: "u8 \<Rightarrow> u32" where
  "get_ppdl_shift_pc insn =
     (if insn AND 0xe0 = 0x60 then extract32 (ucast insn) 0 5 + 2 else 1)"

record tcfg =
  end_pc :: u64
  singlestep :: bool
  singlestep_enabled :: bool
  opc_room :: "nat \<Rightarrow> bool"
  tracer :: "code option"

definition disas_ppdl_insn :: "guest \<Rightarrow> ambient \<Rightarrow> tcfg \<Rightarrow> u64 \<Rightarrow> (code list \<times> bool) \<times> u64" where
  "disas_ppdl_insn g A c dc_pc =
     (let insn = gmem g dc_pc; shift = get_ppdl_shift_pc insn; (blk, ch) = genBlock_Main g A (ucast insn)
      in (((case tracer c of None \<Rightarrow> [] | Some t \<Rightarrow> [t]) @ [blk], ch), dc_pc + ucast shift))"

text \<open>
  The loop: the code so far, \<^verbatim>\<open>dc->pc\<close>, the number of instructions and \<^verbatim>\<open>changed_pc\<close>. It stops at the end of
  the program before the increment of the program counter is emitted.
\<close>

function gen_loop :: "guest \<Rightarrow> ambient \<Rightarrow> tcfg \<Rightarrow> u64 \<Rightarrow> nat \<Rightarrow> nat \<Rightarrow> u64 \<Rightarrow> bool \<Rightarrow> (code list \<times> u64 \<times> nat \<times> bool)" where
  "gen_loop g A c next_page_start max_insns num_insns dc_pc changed =
     (let ((blk, ch), dc_pc') = disas_ppdl_insn g A c dc_pc;
          num' = num_insns + 1; changed' = (changed \<or> ch)
      in if dc_pc' = end_pc c then (blk, dc_pc', num', changed')
         else let (inc, changed'') = (if changed' \<and> \<not> singlestep c then ([], False)
                                      else if \<not> singlestep c then ([add_pc 1], changed') else ([], changed'))
              in if opc_room c num' \<and> \<not> singlestep_enabled c \<and> \<not> singlestep c \<and> dc_pc' < next_page_start \<and> num' < max_insns
                 then let (rest, p, n, ch') = gen_loop g A c next_page_start max_insns num' dc_pc' changed''
                      in (blk @ inc @ rest, p, n, ch')
                 else (blk @ inc, dc_pc', num', changed''))"
  by pat_completeness auto
termination
  by (relation "measure (\<lambda>(g, A, c, nps, mx, num, p, ch). mx - num)") auto

definition end_of_block :: "u64 \<Rightarrow> code" where
  "end_of_block dc_pc = seq_code [\<lambda>m. if is_pc_const_changed (env m) \<noteq> 0 then Inr m else set_pc (ucast dc_pc) m, set_pc_const_changed 0]"

text \<open>
  A block is left by \<^verbatim>\<open>exit_tb\<close>, or by the exception \<^verbatim>\<open>EXCP_DEBUG\<close> when a debugger steps. Both return to the main loop with the
  state that the code has reached, which is the result of the code here; \<open>block_exit\<close> tells which exception is raised.
\<close>

definition EXCP_DEBUG :: nat where "EXCP_DEBUG = 0x10002"

definition block_exit :: "tcfg \<Rightarrow> nat option" where
  "block_exit c = (if singlestep_enabled c then Some EXCP_DEBUG else None)"

definition gen_intermediate_code ::
  "guest \<Rightarrow> ambient \<Rightarrow> tcfg \<Rightarrow> nat \<Rightarrow> u64 \<Rightarrow> bool \<Rightarrow> code \<times> u64 \<times> nat \<times> bool" where
  "gen_intermediate_code g A c cflags tb_pc changed =
     (let next_page_start = (tb_pc AND NOT 0xFF) + 256;
          max_insns = (if cflags mod 0x8000 = 0 then 0x7fff else cflags mod 0x8000);
          (code, dc_pc, num_insns, changed') = gen_loop g A c next_page_start max_insns 0 tb_pc changed
      in (seq_code (code @ [end_of_block dc_pc]), dc_pc - tb_pc, num_insns, changed'))"

declare gen_loop.simps [simp del]

section \<open>Decoding\<close>

lemma nat_and_field: "n AND push_bit a (mask b) = 2 ^ a * (n div 2 ^ a mod 2 ^ b)" for n :: nat
proof -
  have "n AND push_bit a (mask b) = push_bit a (take_bit b (drop_bit a n))"
    by (rule bit_eqI) (auto simp: bit_simps)
  then show ?thesis by (simp add: push_bit_eq_mult take_bit_eq_mod drop_bit_eq_div mult.commute)
qed

lemma insn_and_field:
  assumes "n < 256"
  shows "unat ((of_nat n :: u64) AND 0xf0) = 16 * (n div 16)" "unat ((of_nat n :: u64) AND 0xe0) = 32 * (n div 32)"
    "unat ((of_nat n :: u64) AND 0xf8) = 8 * (n div 8)" "unat ((of_nat n :: u64) AND 0xff) = n"
    "unat ((of_nat n :: u8) AND 0xe0) = 32 * (n div 32)"
proof -
  have u: "unat (of_nat n :: u64) = n" "unat (of_nat n :: u8) = n" using assms by (simp_all add: unat_of_nat)
  have c: "(0xf0 :: nat) = push_bit 4 (mask 4)" "(0xe0 :: nat) = push_bit 5 (mask 3)" "(0xf8 :: nat) = push_bit 3 (mask 5)"
    "(0xff :: nat) = push_bit 0 (mask 8)"
    by (simp_all add: mask_eq_exp_minus_1 push_bit_eq_mult)
  have d: "n div 16 < 16" "n div 32 < 8" "n div 8 < 32" using assms by auto
  have *: "n AND 0xf0 = 16 * (n div 16)" "n AND 0xe0 = 32 * (n div 32)" "n AND 0xf8 = 8 * (n div 8)" "n AND 0xff = n"
    unfolding c nat_and_field using d assms by simp_all
  show "unat ((of_nat n :: u64) AND 0xf0) = 16 * (n div 16)" "unat ((of_nat n :: u64) AND 0xe0) = 32 * (n div 32)"
    "unat ((of_nat n :: u64) AND 0xf8) = 8 * (n div 8)" "unat ((of_nat n :: u64) AND 0xff) = n"
    "unat ((of_nat n :: u8) AND 0xe0) = 32 * (n div 32)"
    using * u by (simp_all add: unsigned_and_eq)
qed

lemma insn_class:
  fixes n :: nat and i :: u64
  assumes "n < 256" and "i = of_nat n"
  shows "i AND 0xf0 = 0xf0 \<longleftrightarrow> n div 16 = 15" "i AND 0xf0 = 0x40 \<longleftrightarrow> n div 16 = 4" "i AND 0xf0 = 0x30 \<longleftrightarrow> n div 16 = 3"
    "i AND 0xe0 = 0x60 \<longleftrightarrow> n div 32 = 3" "i AND 0xf0 = 0x80 \<longleftrightarrow> n div 16 = 8" "i AND 0xf0 = 0x90 \<longleftrightarrow> n div 16 = 9"
    "i AND 0xf8 = 0xa0 \<longleftrightarrow> n div 8 = 20" "i AND 0xf0 = 0x50 \<longleftrightarrow> n div 16 = 5" "i AND 0xf0 = 0 \<longleftrightarrow> n div 16 = 0"
    "i AND 0xf0 = 0x10 \<longleftrightarrow> n div 16 = 1" "i AND 0xff = 0x20 \<longleftrightarrow> n = 32" "i AND 0xff = 0xfa \<longleftrightarrow> n = 250"
    "i AND 0xff = 0xfd \<longleftrightarrow> n = 253" "i AND 0xff = 0xff \<longleftrightarrow> n = 255" "(of_nat n :: u8) AND 0xe0 = 0x60 \<longleftrightarrow> n div 32 = 3"
  unfolding assms(2) word_unat_eq_iff insn_and_field [OF assms(1)] by auto

lemma extract32_low: "0 < k \<Longrightarrow> k \<le> 32 \<Longrightarrow> extract32 v 0 k = take_bit k v"
proof -
  assume k: "0 < k" "k \<le> 32"
  have "drop_bit (32 - k) (NOT 0 :: u32) = mask k" using k by (intro bit_word_eqI) (auto simp: bit_simps)
  then show ?thesis by (simp add: extract32_def take_bit_eq_mask)
qed

lemma insn_fields:
  assumes "n < 256"
  shows "field4 (of_nat n) = of_nat (n mod 16)" "extract32 (ucast (of_nat n :: u64)) 0 5 = of_nat (n mod 32)"
    "extract32 (ucast (of_nat n :: u8)) 0 5 = of_nat (n mod 32)" "extract32 (ucast (of_nat n :: u64)) 0 3 = of_nat (n mod 8)"
  using assms by (simp_all add: field4_def extract32_low take_bit_eq_mod word_unat_eq_iff unat_mod unat_ucast_mod unat_of_nat)

lemma u8_less: "unat (b :: u8) < 256"
  using unsigned_less [where 'a = nat, of b] by simp

lemma genBlock_by_class:
  fixes b :: u8
  assumes "n = unat b"
  shows "genBlock_Main g A (ucast b) =
     (if n div 16 = 15 then (gen_syscall (of_nat n), False)
      else if n div 16 = 4 then (gen_blockchain (of_nat n), False)
      else if n div 16 = 3 then (gen_accounts (of_nat n), False)
      else if n div 32 = 3 then (gen_push g (of_nat n), True)
      else if n div 16 = 8 then (gen_dup (of_nat n), False)
      else if n div 16 = 9 then (gen_swap (of_nat n), False)
      else if n div 8 = 20 then (gen_log (of_nat n), False)
      else if n div 16 = 5 then (gen_mem A (of_nat n), False)
      else if n div 16 = 0 then (gen_arithm A (of_nat n), False)
      else if n div 16 = 1 then (gen_compare A (of_nat n), False)
      else if n = 32 then (gen_sha3 A, False)
      else (Inr, False))"
proof -
  have n: "n < 256" unfolding assms by (rule u8_less)
  have i: "(ucast b :: u64) = of_nat n" using n by (simp add: assms unat_ucast_le unat_of_nat word_unat_eq_iff)
  show ?thesis
  proof (cases "n div 16 = 15")
    case False
    then have "n \<noteq> 250" "n \<noteq> 253" "n \<noteq> 255" by auto
    with False show ?thesis unfolding genBlock_Main_def i insn_class [OF n refl] by (simp only: if_False)
  qed (unfold genBlock_Main_def i insn_class [OF n refl], simp only: if_True refl)
qed

lemma shift_by_class: "get_ppdl_shift_pc b = (if unat b div 32 = 3 then of_nat (unat b mod 32) + 2 else 1)"
proof -
  have n: "unat b < 256" by (rule u8_less)
  show ?thesis using insn_class(15) [OF n refl] insn_fields(3) [OF n] by (simp add: get_ppdl_shift_pc_def)
qed

end
