(* ===== verification/Block_Exec.thy ===== *)
theory Block_Exec
  imports Translate
begin

unbundle bit_operations_syntax

text \<open>
  What a translated block computes. \<open>insn_spec\<close> is a table of the instructions that work on the evaluation stack alone,
  over lists of 256-bit words; \<open>block_spec\<close> runs a stretch of code bytes by it. The code the translator makes for
  the stretch reaches the stack of the table, charges its gas, uses its heap cells, and leaves the program counter
  where the translator stopped, with one exception that the last theorem states.
\<close>

section \<open>What an instruction does to the abstract state\<close>

text \<open>
  The instructions that only move and combine elements of the stack: the new stack, the gas and the cells of the
  big-number heap. A push of 8, 16 or 24 bytes is left out, since its value depends on what the array holds above the stack, and
  so is a push with an operand outside RAM, which raises an exception.
\<close>

definition insn_spec :: "guest \<Rightarrow> u32 \<Rightarrow> u8 \<Rightarrow> u256 list \<Rightarrow> (u256 list \<times> nat \<times> nat) option" where
  "insn_spec g p b st =
     (let n = unat b; k = n mod 16 in
      if n div 16 = 0 \<and> k \<in> binary_ops
        then (case st of x # y # st' \<Rightarrow> Some (arith2 k x y # st', arith_gas k, 195) | _ \<Rightarrow> None)
      else if n div 16 = 1 \<and> k \<in> compare_binary_ops
        then (case st of x # y # st' \<Rightarrow> Some (compare2 k x y # st', 3, 195) | _ \<Rightarrow> None)
      else if n div 16 = 1 \<and> k \<in> {5, 9}
        then (case st of x # st' \<Rightarrow> Some (compare1 k x # st', 3, 130) | _ \<Rightarrow> None)
      else if n = 0x50 then (case st of x # st' \<Rightarrow> Some (st', 2, 65) | _ \<Rightarrow> None)
      else if n = 0x5b then Some (st, 1, 65)
      else if n div 32 = 3
        then let c = n mod 32 + 1 in
             if (c mod 8 \<noteq> 0 \<or> c = 32) \<and> length st < 512 \<and> operand_ok g p c
             then Some (of_nat (be_val (code_slice g (p + 1) c)) # st, 3, 65) else None
      else if n div 16 = 8
        then if k < length st \<and> length st < 512 then Some (st ! k # st, 3, 65) else None
      else if n div 16 = 9
        then if Suc k < length st then Some (st [0 := st ! Suc k, Suc k := st ! 0], 3, 65) else None
      else None)"

definition ctl0 :: "machine \<Rightarrow> machine" where
  "ctl0 m = m \<lparr> env := (env m) \<lparr> pc := 0, is_pc_const_changed := 0, is_pc_within_inst := 0 \<rparr> \<rparr>"

definition ran :: "nat \<Rightarrow> nat \<Rightarrow> machine \<Rightarrow> machine \<Rightarrow> bool" where
  "ran g k m m' \<longleftrightarrow> rest (ctl0 m') = rest (ctl0 m) \<and> gas_left m' = gas_left m - g
     \<and> heap_pos (bigheap m') = heap_pos (bigheap m) + k \<and> (clean 51 m \<longrightarrow> clean 51 m')"

text \<open>The result of an instruction that is not a push.\<close>

definition did :: "code \<Rightarrow> machine \<Rightarrow> u256 list \<Rightarrow> nat \<Rightarrow> nat \<Rightarrow> bool" where
  "did c m st G K \<longleftrightarrow> (\<exists>m'. c m = Inr m' \<and> holds m' st \<and> stepped G K m m')"

text \<open>The addresses of \<open>n\<close> instructions from an address on, and what they do by the table.\<close>

fun insn_addrs :: "guest \<Rightarrow> u64 \<Rightarrow> nat \<Rightarrow> u64 list" where
  "insn_addrs g p 0 = []"
| "insn_addrs g p (Suc n) = p # insn_addrs g (p + ucast (get_ppdl_shift_pc (gmem g p))) n"

fun block_spec :: "guest \<Rightarrow> u64 \<Rightarrow> nat \<Rightarrow> u256 list \<Rightarrow> (u256 list \<times> nat \<times> nat) option" where
  "block_spec g p 0 st = Some (st, 0, 0)"
| "block_spec g p (Suc n) st =
     (case insn_spec g (ucast p) (gmem g p) st of None \<Rightarrow> None
      | Some (st1, G1, K1) \<Rightarrow>
          (case block_spec g (p + ucast (get_ppdl_shift_pc (gmem g p))) n st1 of None \<Rightarrow> None
           | Some (st2, G2, K2) \<Rightarrow> Some (st2, G1 + G2, K1 + K2)))"

definition is_push :: "u8 \<Rightarrow> bool" where
  "is_push b \<longleftrightarrow> unat b div 32 = 3"

definition has_push :: "guest \<Rightarrow> u64 \<Rightarrow> nat \<Rightarrow> bool" where
  "has_push g p n \<longleftrightarrow> list_ex (\<lambda>a. is_push (gmem g a)) (insn_addrs g p n)"

text \<open>A guest memory that starts with the given bytes, and a translator without tracing, for concrete examples.\<close>

definition bytes_at0 :: "u8 list \<Rightarrow> guest" where
  "bytes_at0 bs = \<lparr> gmem = (\<lambda>a. if unat a < length bs then bs ! unat a else 0), ram_size = 0x8000000, use_memtracer = False, memlist = [] \<rparr>"

definition plain_cfg :: "u64 \<Rightarrow> tcfg" where
  "plain_cfg e = \<lparr> end_pc = e, singlestep = False, singlestep_enabled = False, opc_room = (\<lambda>_. True), tracer = None \<rparr>"

lemma ran_refl: "ran 0 0 m m"
  by (simp add: ran_def)

lemma ran_trans: "ran g k m m1 \<Longrightarrow> ran g' k' m1 m2 \<Longrightarrow> ran (g + g') (k + k') m m2"
  by (simp add: ran_def)

lemma rest_pc:
  assumes "rest m' = rest m"
  shows "pc (env m') = pc (env m)" "is_pc_const_changed (env m') = is_pc_const_changed (env m)" "rest (ctl0 m') = rest (ctl0 m)"
    "data_bus (env m') = data_bus (env m)" "mem_size (env m') = mem_size (env m)"
proof -
  have "pc (env (rest z)) = pc (env z)" "is_pc_const_changed (env (rest z)) = is_pc_const_changed (env z)"
      "data_bus (env (rest z)) = data_bus (env z)" "mem_size (env (rest z)) = mem_size (env z)" for z
    by (simp_all add: rest_def)
  with assms show "pc (env m') = pc (env m)" "is_pc_const_changed (env m') = is_pc_const_changed (env m)"
      "data_bus (env m') = data_bus (env m)" "mem_size (env m') = mem_size (env m)"
    by metis+
  have "ctl0 (rest m') = ctl0 (rest m)" using assms by simp
  moreover have "rest (ctl0 z) = ctl0 (rest z)" for z by (simp add: rest_def ctl0_def)
  ultimately show "rest (ctl0 m') = rest (ctl0 m)" by simp
qed

lemma stepped_ran:
  assumes "stepped g k m m'"
  shows "ran g k m m'" "pc (env m') = pc (env m)" "is_pc_const_changed (env m') = is_pc_const_changed (env m)"
  using assms rest_pc [of m' m] by (simp_all add: stepped_def ran_def)

lemma charged:
  assumes "room 65 m" and "\<And>m1. stepped (unat v) 65 m m1 \<Longrightarrow> same_stack m m1 \<Longrightarrow> \<exists>m'. c m1 = Inr m' \<and> P m' \<and> stepped 0 0 m1 m'"
  shows "\<exists>m'. seq_code [helper_USEGAS v, c] m = Inr m' \<and> P m' \<and> stepped (unat v) 65 m m'"
proof -
  obtain m1 where u: "UseGas v m = Inr m1" "stepped (unat v) 65 m m1" "same_stack m m1" by (rule UseGas_stepped [OF assms(1)])
  then show ?thesis using assms(2) [OF u(2,3)] stepped_charge [OF u(2)]
    by (auto simp: seq_code_def helper_USEGAS_def)
qed

lemma holds_same_stack: "same_stack m m' \<Longrightarrow> holds m' st = holds m st"
proof -
  assume s: "same_stack m m'"
  then have "elem m' = elem m" by (intro ext same_stack_elem)
  then show ?thesis using s by (simp add: holds_def depth_def stack_list_def same_stack_def)
qed

lemma field_code:
  assumes "k < 16"
  shows "unat (of_nat k :: u64) = k" "unat (ucast ((of_nat k :: u64) AND 0xFFFFFFFF) :: u32) = k"
    "(of_nat k :: u64) AND 0xFFFFFFFF = of_nat k"
proof -
  show u: "unat (of_nat k :: u64) = k" using assms by (simp add: unat_of_nat)
  have "(0xFFFFFFFF :: u64) = mask 32" by (simp add: mask_eq_exp_minus_1)
  moreover have "take_bit 32 (of_nat k :: u64) = of_nat k" using assms u by (simp add: take_bit_eq_mod word_unat_eq_iff unat_mod)
  ultimately show e: "(of_nat k :: u64) AND 0xFFFFFFFF = of_nat k" by (simp add: take_bit_eq_mask)
  show "unat (ucast ((of_nat k :: u64) AND 0xFFFFFFFF) :: u32) = k" unfolding e using u assms by (simp add: unat_ucast_mod)
qed

lemma dispatch_code:
  assumes "n < 256" and "k = n mod 16"
  shows "k < 12 \<Longrightarrow> gen_arithm A (of_nat n) = DoArithm (of_nat k)" "k < 11 \<Longrightarrow> gen_compare A (of_nat n) = DoCompare (of_nat k)"
    "k < 12 \<Longrightarrow> MemOps j (of_nat k) = of_nat k"
proof -
  have k: "k < 16" using assms(2) by simp
  have e: "(ucast ((of_nat k :: u64) AND 0xFFFFFFFF) :: u32) = of_nat k"
    using field_code(2) [OF k] k by (simp add: word_unat_eq_iff unat_of_nat)
  have f: "field4 (of_nat n) = of_nat k" using insn_fields(1) [OF assms(1)] assms(2) by simp
  have m: "(of_nat k :: u64) \<in> {0, 1, 2, 3, 4, 5, 6, 7, 8, 9, 10, 11}" if "k < 12"
  proof -
    have "[0..<12] = [0, 1, 2, 3, 4, 5, 6, 7, 8, 9, 10, 11 :: nat]" by code_simp
    then have "(of_nat ` set [0..<12] :: u64 set) = {0, 1, 2, 3, 4, 5, 6, 7, 8, 9, 10, 11}" by simp
    moreover have "of_nat k \<in> (of_nat ` set [0..<12] :: u64 set)" using that by (intro imageI) simp
    ultimately show ?thesis by simp
  qed
  then show "k < 12 \<Longrightarrow> MemOps j (of_nat k) = of_nat k" unfolding MemOps_def by (simp only: if_True)
  show "k < 12 \<Longrightarrow> gen_arithm A (of_nat n) = DoArithm (of_nat k)"
    using m unfolding gen_arithm_def f ArithmOps_def by (intro ext) (simp only: if_True ArithmStub_def e)
  have "(of_nat k :: u64) \<in> {0, 1, 2, 3, 4, 5, 6, 7, 8, 9, 10}" if "k < 11"
  proof -
    have "[0..<11] = [0, 1, 2, 3, 4, 5, 6, 7, 8, 9, 10 :: nat]" by code_simp
    then have "(of_nat ` set [0..<11] :: u64 set) = {0, 1, 2, 3, 4, 5, 6, 7, 8, 9, 10}" by simp
    moreover have "of_nat k \<in> (of_nat ` set [0..<11] :: u64 set)" using that by (intro imageI) simp
    ultimately show ?thesis by simp
  qed
  then show "k < 11 \<Longrightarrow> gen_compare A (of_nat n) = DoCompare (of_nat k)"
    unfolding gen_compare_def f CompareLogOps_def by (intro ext) (simp only: if_True CompareStub_def e)
qed

lemma did_arith:
  assumes "n < 256" and "n div 16 = 0" and "n mod 16 \<in> binary_ops" and "holds m (x # y # st)" and "room 246 m" and "clean 51 m"
  shows "did (gen_arithm A (of_nat n)) m (arith2 (n mod 16) x y # st) (arith_gas (n mod 16)) 195"
proof -
  have k: "n mod 16 < 12" using assms(3) by (auto simp: binary_ops_def)
  have u: "unat (of_nat (n mod 16) :: u32) = n mod 16" using k by (simp add: unat_of_nat)
  then have "unat (of_nat (n mod 16) :: u32) \<in> binary_ops" using assms(3) by simp
  from DoArithm_binary [OF this assms(4-6)] show ?thesis
    unfolding did_def dispatch_code(1) [OF assms(1) refl k] u by metis
qed

lemma did_compare2:
  assumes "n < 256" and "n mod 16 \<in> compare_binary_ops" and "holds m (x # y # st)" and "room 195 m"
  shows "did (gen_compare A (of_nat n)) m (compare2 (n mod 16) x y # st) 3 195"
proof -
  have k: "n mod 16 < 11" using assms(2) by (auto simp: compare_binary_ops_def)
  have u: "unat (of_nat (n mod 16) :: u32) = n mod 16" using k by (simp add: unat_of_nat)
  then have "unat (of_nat (n mod 16) :: u32) \<in> compare_binary_ops" using assms(2) by simp
  from DoCompare_binary [OF this assms(3,4)] show ?thesis
    unfolding did_def dispatch_code(2) [OF assms(1) refl k] u by metis
qed

lemma did_compare1:
  assumes "n < 256" and "n mod 16 \<in> {5, 9}" and "holds m (x # st)" and "room 130 m"
  shows "did (gen_compare A (of_nat n)) m (compare1 (n mod 16) x # st) 3 130"
proof -
  have k: "n mod 16 < 11" using assms(2) by auto
  have u: "unat (of_nat (n mod 16) :: u32) = n mod 16" using k by (simp add: unat_of_nat)
  then have "unat (of_nat (n mod 16) :: u32) = 5 \<or> unat (of_nat (n mod 16) :: u32) = 9" using assms(2) by simp
  from DoCompare_unary [OF this assms(3,4)] show ?thesis
    unfolding did_def dispatch_code(2) [OF assms(1) refl k] u by metis
qed

lemma did_dup:
  assumes "n < 256" and "holds m st" and "n mod 16 < length st" and "length st < 512" and "room 65 m"
  shows "did (gen_dup (of_nat n)) m (st ! (n mod 16) # st) 3 65"
proof -
  have "\<exists>m'. DupOp (of_nat (n mod 16)) m1 = Inr m' \<and> holds m' (st ! (n mod 16) # st) \<and> stepped 0 0 m1 m'" if "same_stack m m1" for m1
    using DupOp_holds [of m1 st "n mod 16"] holds_same_stack [OF that] assms(2-4) by metis
  from charged [OF assms(5), of 3 "DupOp (of_nat (n mod 16))" "\<lambda>m'. holds m' (st ! (n mod 16) # st)"] this
  show ?thesis unfolding did_def gen_dup_def insn_fields(1) [OF assms(1)] by simp
qed

lemma did_swap:
  assumes "n < 256" and "holds m st" and "Suc (n mod 16) < length st" and "room 65 m"
  shows "did (gen_swap (of_nat n)) m (st [0 := st ! Suc (n mod 16), Suc (n mod 16) := st ! 0]) 3 65"
proof -
  have "\<exists>m'. SwapOp (of_nat (n mod 16)) m1 = Inr m' \<and> holds m' (st [0 := st ! Suc (n mod 16), Suc (n mod 16) := st ! 0]) \<and> stepped 0 0 m1 m'"
    if "same_stack m m1" for m1
    using SwapOp_holds [of m1 st "n mod 16"] holds_same_stack [OF that] assms(2,3) by (metis Suc_eq_plus1)
  from charged [OF assms(4), of 3 "SwapOp (of_nat (n mod 16))" "\<lambda>m'. holds m' (st [0 := st ! Suc (n mod 16), Suc (n mod 16) := st ! 0])"] this
  show ?thesis unfolding did_def gen_swap_def insn_fields(1) [OF assms(1)] by simp
qed

lemma gen_mem_plain:
  assumes "n < 256" and "n mod 16 < 12" and "n mod 16 = 0 \<or> 8 \<le> n mod 16"
  shows "gen_mem A (of_nat n) m = gen_mem_case (of_nat (n mod 16)) 0 m"
proof -
  define k where "k = n mod 16"
  have k: "k < 12" "k = 0 \<or> 8 \<le> k" "k < 16" using assms by (simp_all add: k_def)
  have "(of_nat k :: u64) < 8 \<longleftrightarrow> k < 8" "(of_nat k :: u64) = 0 \<longleftrightarrow> k = 0"
    using field_code(1) [OF k(3)] by (simp_all add: word_less_nat_alt word_unat_eq_iff)
  then show ?thesis
    using dispatch_code(3) [OF assms(1) refl assms(2)] insn_fields(1) [OF assms(1)] k field_code(3) [OF k(3)]
    by (auto simp: gen_mem_def mem_addr_def Let_def simp flip: k_def)
qed

lemma did_pop:
  assumes "holds m (x # st)" and "room 65 m"
  shows "did (gen_mem A 0x50) m st 2 65"
proof -
  have "\<exists>m'. helper_Pop m1 = Inr m' \<and> holds m' st \<and> stepped 0 0 m1 m'" if "same_stack m m1" for m1
    using pop_holds [of m1 x st] holds_same_stack [OF that] assms(1) by (simp add: helper_Pop_def stepped_sp_add)
  from charged [OF assms(2), of 2 helper_Pop "\<lambda>m'. holds m' st"] this
  show ?thesis unfolding did_def using gen_mem_plain [of 80 A m] by (simp add: gen_mem_case_def)
qed

lemma did_jumpdest:
  assumes "holds m st" and "room 65 m"
  shows "did (gen_mem A 0x5b) m st 1 65"
proof -
  obtain m1 where "UseGas 1 m = Inr m1" "stepped (unat (1 :: u64)) 65 m m1" "same_stack m m1" by (rule UseGas_stepped [OF assms(2)])
  then show ?thesis unfolding did_def using gen_mem_plain [of 91 A m] holds_same_stack [of m m1 st] assms(1)
    by (simp add: gen_mem_case_def helper_USEGAS_def)
qed

lemma ctl_update:
  fixes m :: machine and p :: u32 and f :: u64
  defines "m' \<equiv> m \<lparr> env := (env m) \<lparr> pc := p, is_pc_const_changed := f \<rparr> \<rparr>"
  shows "holds m' st = holds m st" "ran 0 0 m m'" "pc (env m') = p" "is_pc_const_changed (env m') = f"
proof -
  have "elem m' = elem m" by (rule ext) (simp add: m'_def elem_def elem_reg_def)
  then show "holds m' st = holds m st" by (simp add: holds_def stack_list_def) (simp add: m'_def depth_def)
qed (simp_all add: m'_def ran_def ctl0_def rest_def gas_left_def clean_def)

lemma gen_push_refines:
  assumes "memlist g = []" and "holds m st" and "n < 256" and "c = n mod 32 + 1" and "c mod 8 \<noteq> 0 \<or> c = 32"
    and "length st < 512" and "room 65 m" and "operand_ok g (pc (env m)) c"
  shows "\<exists>m'. gen_push g (of_nat n) m = Inr m' \<and> holds m' (of_nat (be_val (code_slice g (pc (env m) + 1) c)) # st)
    \<and> ran 3 65 m m' \<and> pc (env m') = pc (env m) + (of_nat (n mod 32) + 2) \<and> is_pc_const_changed (env m') = 1"
proof -
  have k: "(ucast (of_nat (n mod 32) :: u32) :: u64) = of_nat (n mod 32)" "(ucast (of_nat (n mod 32) :: u64) :: u32) = of_nat (n mod 32)"
    using ucast_small [of "n mod 32"] by simp_all
  have c: "c \<le> 32" "of_nat (n mod 32) + 1 = (of_nat c :: u64)" using assms(4) by simp_all
  obtain m1 where u: "UseGas 3 m = Inr m1" "stepped (unat (3 :: u64)) 65 m m1" "same_stack m m1" by (rule UseGas_stepped [OF assms(7)])
  have h: "holds m1 st" using assms(2) holds_same_stack [OF u(3)] by simp
  have "operand_ok g (pc (env m1)) c" using assms(8) stepped_ran(2) [OF u(2)] by simp
  moreover have "stale (length st) c m1 = 0" using assms(5) by (auto simp: stale_def)
  ultimately obtain m2 where p: "PushInst g (of_nat c) m1 = Inr m2" "holds m2 (of_nat (be_val (code_slice g (pc (env m1) + 1) c)) # st)"
      "stepped 0 0 m1 m2"
    using PushInst_holds [OF assms(1) h assms(6) c(1)] by (metis add_0_right)
  define m' where "m' = m2 \<lparr> env := (env m2) \<lparr> pc := pc (env m2) + (of_nat (n mod 32) + 2), is_pc_const_changed := 1 \<rparr> \<rparr>"
  have "gen_push g (of_nat n) m = Inr m'"
    using u(1) p(1) unfolding gen_push_def insn_fields(2) [OF assms(3)] k Let_def c(2)
    by (simp add: seq_code_def helper_USEGAS_def set_pc_const_changed_def add_pc_def set_pc_def m'_def)
  moreover have "ran 3 65 m m'"
    using ran_trans [OF ran_trans [OF stepped_ran(1) [OF u(2)] stepped_ran(1) [OF p(3)]] ctl_update(2) [where m = m2]]
    by (simp add: m'_def)
  moreover have "pc (env m2) = pc (env m)" "pc (env m1) = pc (env m)" using stepped_ran(2) [OF u(2)] stepped_ran(2) [OF p(3)] by simp_all
  ultimately show ?thesis using p(2) ctl_update(1,3,4) [where m = m2] by (simp add: m'_def)
qed

text \<open>One instruction: its code runs, does what the table says, and leaves the program counter at the
  instruction, or behind the constant of a push.\<close>

lemma insn_refines:
  assumes "memlist g = []" and "holds m st" and "insn_spec g (pc (env m)) b st = Some (st', G, K)"
    and "room (K + 51) m" and "clean 51 m"
  shows "\<exists>m'. fst (genBlock_Main g A (ucast b)) m = Inr m' \<and> holds m' st' \<and> ran G K m m'
    \<and> pc (env m') = pc (env m) + (if unat b div 32 = 3 then get_ppdl_shift_pc b else 0)
    \<and> is_pc_const_changed (env m') = (if unat b div 32 = 3 then 1 else is_pc_const_changed (env m))"
proof -
  define n where "n = unat b"
  have n: "n < 256" unfolding n_def by (rule u8_less)
  have r: "room k m" if "k \<le> K + 51" for k using assms(4) that by (simp add: room_def)
  have d: ?thesis if "did c m st' G K" "genBlock_Main g A (ucast b) = (c, False)" "n div 32 \<noteq> 3" for c
    using that stepped_ran by (auto simp: did_def simp flip: n_def)
  note cls = genBlock_by_class [OF n_def, of g A]
  note spec = assms(3) [unfolded insn_spec_def Let_def, folded n_def]
  have big: "n div 32 = n div 16 div 2" by (simp add: div_mult2_eq [symmetric])
  consider (arith) "n div 16 = 0" "n mod 16 \<in> binary_ops" | (cmp2) "n div 16 = 1" "n mod 16 \<in> compare_binary_ops"
    | (cmp1) "n div 16 = 1" "n mod 16 \<in> {5, 9}" "n mod 16 \<notin> compare_binary_ops" | (pop) "n = 80" | (dest) "n = 91" | (push) "n div 32 = 3"
    | (dup) "n div 16 = 8" | (swap) "n div 16 = 9"
    using spec by (auto split: if_splits)
  then show ?thesis
  proof cases
    case arith
    then show ?thesis using d [of "gen_arithm A (of_nat n)"] cls spec big r did_arith [OF n arith, of m] assms(2,5)
      by (auto split: list.splits)
  next
    case cmp2
    then show ?thesis using d [of "gen_compare A (of_nat n)"] cls spec big r did_compare2 [OF n cmp2(2), of m] assms(2)
      by (auto split: list.splits)
  next
    case cmp1
    then show ?thesis using d [of "gen_compare A (of_nat n)"] cls spec big r did_compare1 [OF n cmp1(2), of m] assms(2)
      by (auto split: list.splits)
  next
    case pop
    then show ?thesis using d [of "gen_mem A 80"] cls spec r did_pop [of m] assms(2) by (auto split: list.splits)
  next
    case dest
    then show ?thesis using d [of "gen_mem A 91"] cls spec r did_jumpdest [of m] assms(2) by auto
  next
    case push
    then have h: "n div 16 \<noteq> 0" "n div 16 \<noteq> 1" "n \<noteq> 80" "n \<noteq> 91" "n div 16 \<noteq> 15" "n div 16 \<noteq> 4" "n div 16 \<noteq> 3"
      using big by auto
    define c where "c = n mod 32 + 1"
    have s: "c mod 8 \<noteq> 0 \<or> c = 32" "length st < 512" "operand_ok g (pc (env m)) c" "st' = of_nat (be_val (code_slice g (pc (env m) + 1) c)) # st" "G = 3" "K = 65"
      using spec h push by (auto simp: c_def split: if_splits)
    have "genBlock_Main g A (ucast b) = (gen_push g (of_nat n), True)" using cls h push by simp
    moreover have "get_ppdl_shift_pc b = of_nat (n mod 32) + 2" using push by (simp add: shift_by_class n_def)
    ultimately show ?thesis using gen_push_refines [OF assms(1,2) n c_def s(1,2) _ s(3)] r [of 65] s push by (simp flip: n_def)
  next
    case dup
    then show ?thesis using d [of "gen_dup (of_nat n)"] cls spec big r did_dup [OF n, of m st] assms(2) by (auto split: if_splits)
  next
    case swap
    then show ?thesis using d [of "gen_swap (of_nat n)"] cls spec big r did_swap [OF n, of m st] assms(2) by (auto split: if_splits)
  qed
qed

section \<open>Whole blocks\<close>

lemma seq_code_append: "seq_code (xs @ ys) m = rbind (seq_code xs m) (seq_code ys)"
  by (simp add: seq_code_def rfold_append)

lemma seq_code_simps [simp]: "seq_code [] m = Inr m" "seq_code (c # cs) m = rbind (c m) (seq_code cs)"
  by (simp_all add: seq_code_def)

lemma push_flag: "snd (genBlock_Main g A (ucast b)) = is_push b"
proof (cases "is_push b")
  case True
  then have "unat b div 16 div 2 = 3" by (simp add: is_push_def div_mult2_eq [symmetric])
  then have "unat b div 16 \<noteq> 15" "unat b div 16 \<noteq> 4" "unat b div 16 \<noteq> 3" by auto
  then show ?thesis using True unfolding genBlock_by_class [OF refl] by (simp add: is_push_def)
next
  case False
  then show ?thesis unfolding genBlock_by_class [OF refl] by (simp add: is_push_def if_distrib [of snd])
qed

lemma gen_loop_next:
  assumes "tracer c = None" and "\<not> singlestep c" and "gen_loop g A c nps mx k0 p False = (cs, p', n', ch')"
    and "b = gmem g p" and "p1 = p + ucast (get_ppdl_shift_pc b)" and "blk = fst (genBlock_Main g A (ucast b))"
  shows "(p1 = end_pc c \<and> cs = [blk] \<and> p' = p1 \<and> n' = Suc k0 \<and> ch' = is_push b)
    \<or> (p1 \<noteq> end_pc c \<and> (cs, p', n', ch') = (blk # (if is_push b then [] else [add_pc 1]), p1, Suc k0, False))
    \<or> (p1 \<noteq> end_pc c \<and> Suc k0 < mx \<and> (\<exists>rs. gen_loop g A c nps mx (Suc k0) p1 False = (rs, p', n', ch')
          \<and> cs = blk # (if is_push b then [] else [add_pc 1]) @ rs))"
proof -
  have d: "disas_ppdl_insn g A c p = (([blk], is_push b), p1)"
    using assms(1,4-6) push_flag [of g A b] by (simp add: disas_ppdl_insn_def Let_def case_prod_beta)
  obtain inc where i: "inc = (if is_push b then [] else [add_pc 1])" by simp
  have e: "gen_loop g A c nps mx k0 p False = (if p1 = end_pc c then ([blk], p1, Suc k0, is_push b)
      else if opc_room c (Suc k0) \<and> \<not> singlestep_enabled c \<and> p1 < nps \<and> Suc k0 < mx
      then (case gen_loop g A c nps mx (Suc k0) p1 False of (rs, q, n, ch) \<Rightarrow> (blk # inc @ rs, q, n, ch))
      else (blk # inc, p1, Suc k0, False))"
    by (subst gen_loop.simps) (use assms(2) i in \<open>auto simp: d Let_def split: prod.splits\<close>)
  show ?thesis
  proof (cases "p1 = end_pc c")
    case False
    show ?thesis
    proof (cases "opc_room c (Suc k0) \<and> \<not> singlestep_enabled c \<and> p1 < nps \<and> Suc k0 < mx")
      case True
      then show ?thesis using assms(3) False unfolding e i by (auto split: prod.splits)
    next
      case no: False
      then have "gen_loop g A c nps mx k0 p False = (blk # inc, p1, Suc k0, False)" unfolding e using False by (simp only: if_False)
      then show ?thesis using assms(3) False unfolding i by auto
    qed
  qed (use assms(3) in \<open>simp add: e\<close>)
qed

lemma gen_loop_count:
  assumes "tracer c = None" and "\<not> singlestep c" and "gen_loop g A c nps mx k0 p False = (cs, p', n', ch')"
  shows "k0 < n'"
  using assms(3)
proof (induction "mx - k0" arbitrary: k0 p cs rule: less_induct)
  case less
  from gen_loop_next [OF assms(1,2) less.prems refl refl refl] show ?case
  proof (elim disjE conjE exE)
    fix rs
    assume "Suc k0 < mx" "gen_loop g A c nps mx (Suc k0) (p + ucast (get_ppdl_shift_pc (gmem g p))) False = (rs, p', n', ch')"
    with less.hyps [of "Suc k0"] show "k0 < n'" by fastforce
  qed auto
qed

lemma ucast_next: "(ucast (p + ucast (s :: u32) :: u64) :: u32) = ucast p + s"
proof -
  have "unat (ucast s :: u64) = unat s" by (simp add: unat_ucast_le)
  then show ?thesis
    by (simp add: word_unat_eq_iff unat_ucast_mod [of "p + ucast s"] unat_ucast_mod [of p] unat_word_ariths mod_mod_cancel mod_add_left_eq)
qed

lemma shift_not_push: "\<not> is_push b \<Longrightarrow> get_ppdl_shift_pc b = 1"
  by (simp add: shift_by_class is_push_def)

text \<open>The code of a stretch of instructions, by induction on the instructions left.\<close>

lemma gen_loop_refines:
  assumes "memlist g = []" and "tracer c = None" and "\<not> singlestep c"
    and "gen_loop g A c nps mx k0 p False = (cs, p', n', ch')" and "block_spec g p (n' - k0) st = Some (st', G, K)"
    and "holds m st" and "room (K + 51) m" and "clean 51 m" and "pc (env m) = ucast p"
  shows "\<exists>m'. seq_code cs m = Inr m' \<and> holds m' st' \<and> ran G K m m'
    \<and> pc (env m') = ucast p' - (if p' = end_pc c \<and> \<not> ch' then 1 else 0)
    \<and> is_pc_const_changed (env m') = (if has_push g p (n' - k0) then 1 else is_pc_const_changed (env m))"
  using assms(4-)
proof (induction "mx - k0" arbitrary: k0 p cs st G K m rule: less_induct)
  case less
  define b p1 blk where "b = gmem g p" and "p1 = p + ucast (get_ppdl_shift_pc b)" and "blk = fst (genBlock_Main g A (ucast b))"
  define j where "j = n' - Suc k0"
  have j: "n' - k0 = Suc j" using gen_loop_count [OF assms(2,3) less.prems(1)] by (simp add: j_def)
  obtain st1 G1 K1 G2 K2 where sp: "insn_spec g (ucast p) b st = Some (st1, G1, K1)" "block_spec g p1 j st1 = Some (st', G2, K2)"
      "G = G1 + G2" "K = K1 + K2"
    using less.prems(2) unfolding j by (auto simp: b_def p1_def split: option.splits prod.splits)
  have "room (K1 + 51) m" using less.prems(4) sp(4) by (simp add: room_def)
  then obtain m1 where m1: "blk m = Inr m1" "holds m1 st1" "ran G1 K1 m m1"
      "pc (env m1) = ucast p + (if is_push b then get_ppdl_shift_pc b else 0)"
      "is_pc_const_changed (env m1) = (if is_push b then 1 else is_pc_const_changed (env m))"
    using insn_refines [OF assms(1) less.prems(3), of b st1 G1 K1 A] less.prems(5,6) sp(1) unfolding blk_def is_push_def by auto
  define m2 where "m2 = (if is_push b then m1 else m1 \<lparr> env := (env m1) \<lparr> pc := pc (env m1) + 1, is_pc_const_changed := is_pc_const_changed (env m1) \<rparr> \<rparr>)"
  have m2: "seq_code (blk # (if is_push b then [] else [add_pc 1])) m = Inr m2" "holds m2 st1" "ran G1 K1 m m2" "pc (env m2) = ucast p1"
      "is_pc_const_changed (env m2) = (if is_push b then 1 else is_pc_const_changed (env m))"
  proof -
    show "seq_code (blk # (if is_push b then [] else [add_pc 1])) m = Inr m2"
      using m1(1) by (simp add: m2_def add_pc_def set_pc_def)
    show "holds m2 st1" 
      using m1(2) ctl_update(1) [where m = m1 and p = "pc (env m1) + 1" and f = "is_pc_const_changed (env m1)"] by (simp add: m2_def)
    show "ran G1 K1 m m2"
      using m1(3) ran_trans [OF m1(3) ctl_update(2) [where m = m1 and p = "pc (env m1) + 1" and f = "is_pc_const_changed (env m1)"]]
      by (simp add: m2_def)
    show "pc (env m2) = ucast p1" using m1(4) shift_not_push [of b] by (simp add: m2_def p1_def ucast_next)
    show "is_pc_const_changed (env m2) = (if is_push b then 1 else is_pc_const_changed (env m))" using m1(5) by (simp add: m2_def)
  qed
  have hp: "has_push g p (Suc j) = (is_push b \<or> has_push g p1 j)" by (simp add: has_push_def b_def p1_def)
  from gen_loop_next [OF assms(2,3) less.prems(1) b_def p1_def blk_def] show ?case
  proof (elim disjE conjE exE)
    assume c: "p1 = end_pc c" "cs = [blk]" "p' = p1" "n' = Suc k0" "ch' = is_push b"
    have "st1 = st'" "G = G1" "K = K1" using sp c(4) by (simp_all add: j_def)
    moreover have "(ucast (end_pc c) :: u32) = ucast p + get_ppdl_shift_pc b" unfolding c(1) [symmetric] p1_def by (rule ucast_next)
    ultimately show ?thesis using m1 c hp j shift_not_push [of b] by (simp add: j_def has_push_def)
  next
    assume c: "p1 \<noteq> end_pc c" "(cs, p', n', ch') = (blk # (if is_push b then [] else [add_pc 1]), p1, Suc k0, False)"
    then have "st1 = st'" "G = G1" "K = K1" using sp by (simp_all add: j_def)
    then show ?thesis using m2 c hp j by (simp add: j_def has_push_def del: seq_code_simps)
  next
    fix rs
    assume c: "p1 \<noteq> end_pc c" "Suc k0 < mx" "gen_loop g A c nps mx (Suc k0) p1 False = (rs, p', n', ch')"
      "cs = blk # (if is_push b then [] else [add_pc 1]) @ rs"
    have r: "room (K2 + 51) m2" "clean 51 m2" using m2(3) less.prems(4,5) sp(4) by (simp_all add: ran_def room_def)
    have lt: "mx - Suc k0 < mx - k0" using c(2) by simp
    obtain m' where m': "seq_code rs m2 = Inr m'" "holds m' st'" "ran G2 K2 m2 m'"
        "pc (env m') = ucast p' - (if p' = end_pc c \<and> \<not> ch' then 1 else 0)"
        "is_pc_const_changed (env m') = (if has_push g p1 j then 1 else is_pc_const_changed (env m2))"
      using less.hyps [OF lt c(3) sp(2) [unfolded j_def] m2(2) r m2(4)] unfolding j_def by blast
    have "seq_code cs m = Inr m'"
      using m2(1) m'(1) seq_code_append [of "blk # (if is_push b then [] else [add_pc 1])" rs m] c(4) by (simp del: seq_code_simps)
    then show ?thesis using m' ran_trans [OF m2(3) m'(3)] sp(3,4) m2(5) hp j by auto
  qed
qed

lemma block_code_refines:
  assumes "memlist g = []" and "tracer c = None" and "\<not> singlestep c"
    and "gen_intermediate_code g A c cf p False = (code, sz, n, ch)" and "block_spec g p n st = Some (st', G, K)"
    and "holds m st" and "room (K + 51) m" and "clean 51 m" and "pc (env m) = ucast p" and "is_pc_const_changed (env m) = 0"
  shows "\<exists>m'. code m = Inr m' \<and> holds m' st' \<and> ran G K m m' \<and> is_pc_const_changed (env m') = 0
    \<and> pc (env m') = (if p + sz = end_pc c \<and> \<not> ch \<and> has_push g p n then ucast (p + sz) - 1 else ucast (p + sz))"
proof -
  define nps mx where "nps = (p AND NOT 0xFF) + 256" and "mx = (if cf mod 0x8000 = 0 then 0x7fff else cf mod 0x8000)"
  obtain cs p' n' ch' where l: "gen_loop g A c nps mx 0 p False = (cs, p', n', ch')" by (metis surj_pair)
  then have e: "code = seq_code (cs @ [end_of_block p'])" "sz = p' - p" "n = n'" "ch = ch'"
    using assms(4) unfolding gen_intermediate_code_def Let_def nps_def [symmetric] mx_def [symmetric] by simp_all
  have b: "block_spec g p (n' - 0) st = Some (st', G, K)" using assms(5) e(3) by simp
  obtain m1 where m1: "seq_code cs m = Inr m1" "holds m1 st'" "ran G K m m1"
      "pc (env m1) = ucast p' - (if p' = end_pc c \<and> \<not> ch' then 1 else 0)"
      "is_pc_const_changed (env m1) = (if has_push g p n' then 1 else 0)"
    using gen_loop_refines [OF assms(1-3) l b assms(6-9)] assms(10) by auto
  define q where "q = (if has_push g p n' then pc (env m1) else ucast p')"
  define m' where "m' = m1 \<lparr> env := (env m1) \<lparr> pc := q, is_pc_const_changed := 0 \<rparr> \<rparr>"
  have "code m = Inr m'"
    using m1(1,5) unfolding e(1) seq_code_append
    by (simp add: end_of_block_def set_pc_def set_pc_const_changed_def m'_def q_def)
  moreover have "ran G K m m'" using ran_trans [OF m1(3) ctl_update(2) [where m = m1 and p = q and f = 0]] by (simp add: m'_def)
  ultimately show ?thesis
    using m1(2,4) ctl_update(1,3,4) [where m = m1 and p = q and f = 0] e by (auto simp: m'_def q_def)
qed

text \<open>The block of the examples: it pushes 5, pushes 7 and subtracts.\<close>

lemma subtraction_translated:
  obtains code where "gen_intermediate_code (bytes_at0 [0x60, 5, 0x60, 7, 0x03]) A (plain_cfg 5) 0 0 False = (code, 5, 3, False)"
proof -
  have "snd (gen_intermediate_code (bytes_at0 [0x60, 5, 0x60, 7, 0x03]) A (plain_cfg 5) 0 0 False) = (5, 3, False)"
    by (simp add: gen_intermediate_code_def gen_loop.simps [of _ _ _ _ _ 0] gen_loop.simps [of _ _ _ _ _ "Suc 0"]
        gen_loop.simps [of _ _ _ _ _ "Suc (Suc 0)"] disas_ppdl_insn_def plain_cfg_def bytes_at0_def shift_by_class push_flag is_push_def
        Let_def case_prod_beta)
  then show ?thesis using that by (metis prod.collapse)
qed

lemma subtraction_spec: "block_spec (bytes_at0 [0x60, 5, 0x60, 7, 0x03]) 0 3 [] = Some ([2], 9, 325)"
proof -
  have "block_spec (bytes_at0 [0x60, 5, 0x60, 7, 0x03]) 0 (Suc (Suc (Suc 0))) [] = Some ([2], 9, 325)"
    by (simp add: insn_spec_def bytes_at0_def shift_by_class code_slice_def operand_ok_def in_ram_def be_val_def binary_ops_def arith2_def arith_gas_def Let_def)
  then show ?thesis by (simp only: numeral_3_eq_3)
qed

text \<open>C1: the code translated for a stretch of stack instructions computes what the table says: the stack, the gas, the heap cells; data
  memory, storage and the other registers stay. Afterwards the program counter is behind the last instruction, except when
  the block ends at the end of the program, contains a push and does not end with one: then it points one byte before
  the end, so that a last one-byte instruction is executed a second time.\<close>

theorem block_refines:
  assumes "memlist g = []" and "tracer c = None" and "\<not> singlestep c"
    and "gen_intermediate_code g A c cf p False = (code, sz, n, ch)" and "block_spec g p n st = Some (st', G, K)"
    and "holds m st" and "room (K + 51) m" and "clean 51 m" and "pc (env m) = ucast p" and "is_pc_const_changed (env m) = 0"
  shows "\<exists>m'. code m = Inr m' \<and> holds m' st' \<and> ran G K m m' \<and> is_pc_const_changed (env m') = 0
    \<and> pc (env m') = (if p + sz = end_pc c \<and> \<not> ch \<and> has_push g p n then ucast (p + sz) - 1 else ucast (p + sz))"
  using assms by (rule block_code_refines)

theorem block_refines_witness:
  "\<exists>code m'. gen_intermediate_code (bytes_at0 [0x60, 5, 0x60, 7, 0x03]) \<lparr> beyond = \<lambda>_. 0, junk = \<lambda>_. 0 \<rparr> (plain_cfg 5) 0 0 False = (code, 5, 3, False)
     \<and> code (loaded 100 []) = Inr m' \<and> holds m' [2] \<and> gas_left m' = 91 \<and> pc (env m') = 4"
proof -
  define g where "g = bytes_at0 [0x60, 5, 0x60, 7, 0x03]"
  define A :: ambient where "A = \<lparr> beyond = \<lambda>_. 0, junk = \<lambda>_. 0 \<rparr>"
  obtain code where t: "gen_intermediate_code g A (plain_cfg 5) 0 0 False = (code, 5, 3, False)"
    unfolding g_def by (rule subtraction_translated)
  have b: "block_spec g 0 3 [] = Some ([2], 9, 325)" unfolding g_def by (rule subtraction_spec)
  have p: "has_push g 0 3" by (simp add: numeral_3_eq_3 has_push_def g_def bytes_at0_def is_push_def)
  have h: "holds (loaded 100 []) []" by (rule holds_loaded) simp
  have z: "pc (env (loaded 100 [])) = ucast (0 :: u64)" "is_pc_const_changed (env (loaded 100 [])) = 0"
    by (simp_all add: loaded_def zero_cpu_def)
  have g: "memlist g = []" "tracer (plain_cfg 5) = None" "\<not> singlestep (plain_cfg 5)" "end_pc (plain_cfg 5) = 5"
    by (simp_all add: g_def bytes_at0_def plain_cfg_def)
  from block_refines [OF g(1-3) t b h _ _ z] show ?thesis
    using t p g(4) unfolding g_def [symmetric] A_def [symmetric] by (auto simp: ran_def)
qed

end
