(* ===== verification/Control_Flow.thy ===== *)
theory Control_Flow
  imports Block_Exec
begin

unbundle bit_operations_syntax

text \<open>
  What the code of a block may do to the registers that steer the control flow. \<open>ctl\<close> is the program counter and the
  flag \<^verbatim>\<open>is_pc_const_changed\<close>; the lemmas collected under \<open>keeps\<close> say that a helper leaves them alone. A jump
  sets the program counter and not the flag, and the code at the end of a block then overwrites it.
\<close>

section \<open>The control registers\<close>

definition ctl :: "machine \<Rightarrow> u32 \<times> u64" where
  "ctl m = (pc (env m), is_pc_const_changed (env m))"

definition changed :: "machine \<Rightarrow> u64" where
  "changed m = is_pc_const_changed (env m)"

definition keepc :: "code \<Rightarrow> bool" where
  "keepc c \<longleftrightarrow> (\<forall>m m'. c m = Inr m' \<longrightarrow> changed m' = changed m)"

lemma rfold_keeps:
  assumes "\<And>x s s'. f x s = Inr s' \<Longrightarrow> P s' = P s" and "rfold f xs s = Inr s'"
  shows "P s' = P s"
  using assms(2)
proof (induction xs arbitrary: s)
  case (Cons x xs)
  then obtain s1 where "f x s = Inr s1" "rfold f xs s1 = Inr s'" by (auto simp: rbind_eq_Inr)
  with Cons.IH assms(1) show ?case by metis
qed simp

named_theorems keeps

lemma ctl_simps [simp]:
  "ctl (sp_add k m) = ctl m" "ctl (set_sp i m) = ctl m" "ctl (set_gas cs m) = ctl m" "ctl (m \<lparr> bigheap := h \<rparr>) = ctl m"
  "ctl (m \<lparr> out := t \<rparr>) = ctl m" "ctl (m \<lparr> mainStorage := s \<rparr>) = ctl m"
  by (simp_all add: ctl_def sp_add_def set_sp_def set_gas_def)

lemma cell_set_keeps [keeps]: "cell_set i v m = Inr m' \<Longrightarrow> ctl m' = ctl m"
  by (auto simp: cell_set_def rbind_eq_Inr ctl_def)

lemma put_reg_keeps [keeps]: "put_reg b cs m = Inr m' \<Longrightarrow> ctl m' = ctl m"
  by (auto simp: put_reg_def ctl_def split: if_splits)

lemma bus_set_keeps [keeps]: "bus_set i v m = Inr m' \<Longrightarrow> ctl m' = ctl m"
  by (auto simp: bus_set_def rbind_eq_Inr ctl_def)

lemma UseGas_keeps [keeps]: "UseGas v m = Inr m' \<Longrightarrow> ctl m' = ctl m"
  by (auto simp: UseGas_def rbind_eq_Inr Let_def simp del: fmt_x.simps split: if_splits prod.splits)

lemma reg_arg_keeps [keeps]: "reg_arg b m = Inr (x, m') \<Longrightarrow> ctl m' = ctl m"
  by (auto simp: reg_arg_def rbind_eq_Inr)

lemma div_on_keeps [keeps]: "div_on a b m = Inr (x, m') \<Longrightarrow> ctl m' = ctl m"
  by (auto simp: div_on_def rbind_eq_Inr)

lemma mod_on_keeps [keeps]: "mod_on a b m = Inr (x, m') \<Longrightarrow> ctl m' = ctl m"
  by (auto simp: mod_on_def rbind_eq_Inr)

lemma arith_args_keeps [keeps]: "arith_args op m = Inr (s, a, b, c, m') \<Longrightarrow> ctl m' = ctl m"
  by (auto simp: arith_args_def rbind_eq_Inr Let_def dest!: keeps split: if_splits)

lemma arith_op_keeps [keeps]: "arith_op op a b c arg1 m = Inr (r, m') \<Longrightarrow> ctl m' = ctl m"
  by (auto simp: arith_op_def rbind_eq_Inr Let_def dest!: keeps split: if_splits option.splits)

lemma DoArithm_keeps [keeps]: "DoArithm op m = Inr m' \<Longrightarrow> ctl m' = ctl m"
  by (auto simp: DoArithm_def rbind_eq_Inr Let_def dest!: keeps)

lemma compare_args_keeps [keeps]: "compare_args op m = Inr (s, a, b, m') \<Longrightarrow> ctl m' = ctl m"
  by (auto simp: compare_args_def rbind_eq_Inr Let_def dest!: keeps split: if_splits)

lemma DoCompare_keeps [keeps]: "DoCompare op m = Inr m' \<Longrightarrow> ctl m' = ctl m"
  by (auto simp: DoCompare_def rbind_eq_Inr Let_def dest!: keeps split: if_splits)

lemma SaveToStorage_keeps [keeps]: "SaveToStorage offs m = Inr m' \<Longrightarrow> ctl m' = ctl m"
  by (auto simp: SaveToStorage_def rbind_eq_Inr Let_def split: option.splits)

lemma LoadFromStorage_keeps [keeps]: "LoadFromStorage offs m = Inr m' \<Longrightarrow> ctl m' = ctl m"
  by (auto simp: LoadFromStorage_def rbind_eq_Inr Let_def dest!: keeps split: option.splits)

lemma KeccakAlg_keeps [keeps]: "KeccakAlg mem offs sz m = Inr m' \<Longrightarrow> ctl m' = ctl m"
  by (auto simp: KeccakAlg_def rbind_eq_Inr Let_def dest!: keeps)

lemma GetSingle_keeps [keeps]:
  "GetSingleBlockFromStack m = Inr (a, m') \<Longrightarrow> ctl m' = ctl m" "helper_GetSingleBlockFromStack m = Inr (a, m') \<Longrightarrow> ctl m' = ctl m"
  by (auto simp: GetSingleBlockFromStack_def helper_GetSingleBlockFromStack_def rbind_eq_Inr)

lemma push_word_keeps [keeps]: "push_word v m = Inr m' \<Longrightarrow> ctl m' = ctl m"
  by (auto simp: push_word_def rbind_eq_Inr Let_def simp del: rfold.simps dest!: rfold_keeps [where P = ctl, rotated] keeps)

lemma PushSingle_keeps [keeps]: "PushSingleBlockToStack v m = Inr m' \<Longrightarrow> ctl m' = ctl m"
  unfolding PushSingleBlockToStack_def by (rule keeps)

lemma USEGAS_keeps [keeps]: "USEGAS v m = Inr m' \<Longrightarrow> ctl m' = ctl m" "helper_USEGAS v m = Inr m' \<Longrightarrow> ctl m' = ctl m"
  unfolding USEGAS_def helper_USEGAS_def by (rule keeps, assumption)+

lemma result_message_ends: "result_message m \<noteq> Inr m'"
  by (auto simp: result_message_def rbind_eq_Inr Let_def)

lemma Stop_keeps [keeps]: "StopExec m = Inr m' \<Longrightarrow> ctl m' = ctl m" "helper_StopExec m = Inr m' \<Longrightarrow> ctl m' = ctl m"
  by (auto simp: StopExec_def helper_StopExec_def rbind_eq_Inr)

lemma stack_helpers_keep [keeps]:
  "helper_Pop m = Inr m' \<Longrightarrow> ctl m' = ctl m" "MSizeOp m = Inr m' \<Longrightarrow> ctl m' = ctl m" "PcOp m = Inr m' \<Longrightarrow> ctl m' = ctl m"
  "DupOp c m = Inr m' \<Longrightarrow> ctl m' = ctl m"
  by (auto simp: helper_Pop_def MSizeOp_def PcOp_def DupOp_def rbind_eq_Inr Let_def simp del: rfold.simps
      dest!: rfold_keeps [where P = ctl, rotated] keeps)

lemma SwapOp_keeps [keeps]: "SwapOp c m = Inr m' \<Longrightarrow> ctl m' = ctl m"
proof -
  have "swap_cell c fs i z = Inr z' \<Longrightarrow> ctl z' = ctl z" for c fs i z z'
    by (auto simp: swap_cell_def rbind_eq_Inr Let_def dest!: keeps)
  then show "SwapOp c m = Inr m' \<Longrightarrow> ctl m' = ctl m"
    by (auto simp: SwapOp_def rbind_eq_Inr Let_def simp del: rfold.simps dest!: rfold_keeps [where P = ctl, rotated])
qed

lemma MStoreInst_keeps [keeps]: "MStoreInst a m = Inr m' \<Longrightarrow> ctl m' = ctl m"
proof -
  have "store_byte d p s = Inr s' \<Longrightarrow> ctl (snd s') = ctl (snd s)" for d p s s'
    by (cases p; cases s) (auto simp: store_byte_def rbind_eq_Inr dest!: keeps)
  from rfold_keeps [where P = "\<lambda>s. ctl (snd s)", OF this]
  have "rfold (store_byte d) ps (x, z) = Inr (y, z') \<Longrightarrow> ctl z' = ctl z" for d ps x y z z' by fastforce
  then show "MStoreInst a m = Inr m' \<Longrightarrow> ctl m' = ctl m"
    by (auto simp: MStoreInst_def rbind_eq_Inr Let_def ctl_def sp_add_def simp del: rfold.simps split: if_splits)
qed

lemma MloadInst_keeps [keeps]: "MloadInst a m = Inr m' \<Longrightarrow> ctl m' = ctl m"
  by (auto simp: MloadInst_def rbind_eq_Inr Let_def simp del: rfold.simps load_word.simps dest!: rfold_keeps [where P = ctl, rotated] keeps)

lemma stubs_keep [keeps]:
  "SaveToStorageStub a m = Inr m' \<Longrightarrow> ctl m' = ctl m" "LoadFromStorageStub a m = Inr m' \<Longrightarrow> ctl m' = ctl m"
  "ArithmStub c m = Inr m' \<Longrightarrow> ctl m' = ctl m" "CompareStub c m = Inr m' \<Longrightarrow> ctl m' = ctl m"
  "KeccakAlgStub b m = Inr m' \<Longrightarrow> ctl m' = ctl m"
  by (auto simp: SaveToStorageStub_def LoadFromStorageStub_def ArithmStub_def CompareStub_def KeccakAlgStub_def rbind_eq_Inr dest!: keeps)

lemma AccountsData_keeps [keeps]: "AccountsData v m = Inr m' \<Longrightarrow> ctl m' = ctl m"
  by (auto simp: AccountsData_def GetAddress_def GetBalance_def GetOrigin_def GetCaller_def CallValue_def GetInputData_def CallDataSize_def
      CallDataCopy_def GetCodeSize_def CodeCopy_def GetGasPrice_def ExtCodeSize_def ExtCodeCopy_def rbind_eq_Inr Let_def dest!: keeps split: if_splits)

lemma SystemOps_keeps [keeps]: "SystemOps v m = Inr m' \<Longrightarrow> ctl m' = ctl m"
  by (auto simp: SystemOps_def CreateAccount_def MakeCall_def MakeCallCode_def Return_def DelegateCall_def rbind_eq_Inr Let_def
      dest!: keeps split: if_splits)

lemma BlockChain_keeps [keeps]: "BlockChain v m = Inr m' \<Longrightarrow> ctl m' = ctl m"
  by (auto simp: BlockChain_def BlockChainHash_def GetCoinBase_def GetTimeStamp_def GetNumber_def GetDifficulty_def GetGasLimit_def
      rbind_eq_Inr Let_def dest!: keeps split: if_splits)

lemma keepcD: "keepc c \<Longrightarrow> c m = Inr m' \<Longrightarrow> changed m' = changed m"
  by (simp add: keepc_def)

lemma keepc_ctl: "(\<And>m m'. c m = Inr m' \<Longrightarrow> ctl m' = ctl m) \<Longrightarrow> keepc c"
  by (simp add: keepc_def ctl_def changed_def)

lemma keepc_seq [simp]: "list_all keepc cs \<Longrightarrow> keepc (seq_code cs)"
proof (induction cs)
  case (Cons c cs)
  then have k: "keepc c" "keepc (seq_code cs)" by simp_all
  show ?case unfolding keepc_def
  proof (intro allI impI)
    fix m m' assume "seq_code (c # cs) m = Inr m'"
    then obtain m1 where "c m = Inr m1" "seq_code cs m1 = Inr m'" by (auto simp: rbind_eq_Inr)
    with k show "changed m' = changed m" by (metis keepcD)
  qed
qed (simp add: keepc_def)

lemma keepc_moves [simp]: "keepc (set_pc v)" "keepc (add_pc k)" "keepc (set_pc_within_inst w)" "keepc (\<lambda>m. Inr (sp_add i m))" "keepc Inr"
  by (auto simp: keepc_def set_pc_def add_pc_def set_pc_within_inst_def changed_def sp_add_def)

lemma keepc_helpers [simp]:
  "keepc (helper_USEGAS v)" "keepc helper_Pop" "keepc MSizeOp" "keepc PcOp" "keepc (DupOp n)" "keepc (SwapOp n)" "keepc (MStoreInst a)"
  "keepc (MloadInst a)" "keepc (SaveToStorageStub a)" "keepc (LoadFromStorageStub a)" "keepc (ArithmStub n)" "keepc (CompareStub n)"
  "keepc (KeccakAlgStub b)" "keepc (AccountsData v)" "keepc (SystemOps v)" "keepc (BlockChain v)"
  by (rule keepc_ctl, erule keeps)+

lemma keepc_copy_gas [simp]: "keepc (copy_gas k)"
  by (rule keepc_ctl) (auto simp: copy_gas_def rbind_eq_Inr dest!: cell_set_keeps)

lemma keepc_mstore8 [simp]: "keepc (gen_mstore8 a)"
proof -
  have "keepc (\<lambda>m. rbind (cell_get (sp (env m) - 3) m) (\<lambda>d. rbind (bus_set a (drop_bit (7 * 8) d AND 0xFF) (sp_add (- 4) m)) (\<lambda>m1.
       Inr (if a > mem_size (env m1) then m1 \<lparr> env := (env m1) \<lparr> mem_size := a \<rparr> \<rparr> else m1))))"
    by (rule keepc_ctl) (auto simp: rbind_eq_Inr ctl_def sp_add_def dest!: bus_set_keeps)
  then show ?thesis unfolding gen_mstore8_def by simp
qed

lemma keepc_mem_case: "keepc (gen_mem_case c a)"
  unfolding gen_mem_case_def gen_jump_def gen_gas_def by simp

lemma keepc_mem [simp]: "keepc (gen_mem A i)"
  unfolding keepc_def
proof (intro allI impI)
  fix m m' assume "gen_mem A i m = Inr m'"
  then obtain a m1 where m1: "mem_addr A (field4 i) m = Inr (a, m1)" "gen_mem_case (MemOps (junk A 2) (field4 i) AND 0xFFFFFFFF) a m1 = Inr m'"
    unfolding gen_mem_def Let_def rbind_eq_Inr by auto
  have "ctl m1 = ctl m" using m1(1) unfolding mem_addr_def by (simp split: if_splits) (rule GetSingle_keeps(2))
  then show "changed m' = changed m" using keepcD [OF keepc_mem_case m1(2)] by (simp add: ctl_def changed_def)
qed

lemma insn_keeps: "\<not> is_push b \<Longrightarrow> keepc (fst (genBlock_Main g A (ucast b)))"
  unfolding genBlock_by_class [OF refl] is_push_def if_distrib [of fst] fst_conv
  by (simp add: gen_syscall_def gen_blockchain_def gen_accounts_def gen_dup_def gen_swap_def gen_log_def gen_arithm_def gen_compare_def
        gen_sha3_def Let_def)

lemma gen_loop_keeps:
  assumes "tracer c = None" and "\<not> singlestep c" and "gen_loop g A c nps mx k0 p False = (cs, p', n', ch')"
    and "\<not> has_push g p (n' - k0)" and "seq_code cs m = Inr m'"
  shows "changed m' = changed m"
  using assms(3-)
proof (induction "mx - k0" arbitrary: k0 p cs m rule: less_induct)
  case less
  define b p1 blk where "b = gmem g p" and "p1 = p + ucast (get_ppdl_shift_pc b)" and "blk = fst (genBlock_Main g A (ucast b))"
  have "n' - k0 = Suc (n' - Suc k0)" using gen_loop_count [OF assms(1,2) less.prems(1)] by simp
  then have np: "\<not> is_push b" "\<not> has_push g p1 (n' - Suc k0)" using less.prems(2) by (simp_all add: has_push_def b_def p1_def)
  have k: "seq_code [blk] m = Inr z \<Longrightarrow> changed z = changed m" "seq_code [blk, add_pc 1] m = Inr z \<Longrightarrow> changed z = changed m" for z
    using keepcD [of "seq_code [blk]"] keepcD [of "seq_code [blk, add_pc 1]"] insn_keeps [OF np(1), of g A] by (simp_all add: blk_def)
  from gen_loop_next [OF assms(1,2) less.prems(1) b_def p1_def blk_def] show ?case
  proof (elim disjE conjE exE)
    fix rs
    assume c: "Suc k0 < mx" "gen_loop g A c nps mx (Suc k0) p1 False = (rs, p', n', ch')" "cs = blk # (if is_push b then [] else [add_pc 1]) @ rs"
    then obtain z where z: "seq_code [blk, add_pc 1] m = Inr z" "seq_code rs z = Inr m'"
      using less.prems(3) np(1) seq_code_append [of "[blk, add_pc 1]" rs m] by (auto simp: rbind_eq_Inr)
    have "mx - Suc k0 < mx - k0" using c(1) by simp
    from less.hyps [OF this c(2) np(2) z(2)] k(2) [OF z(1)] show ?thesis by simp
  qed (use less.prems(3) np(1) k in auto)
qed

text \<open>C16: jumps do not leave a block, and a block without a push ignores them: whatever instructions it contains, the program counter is
  behind the last translated instruction when the block has run.\<close>

theorem block_ignores_jumps:
  assumes "tracer c = None" and "\<not> singlestep c" and "gen_intermediate_code g A c cf p False = (code, sz, n, ch)"
    and "\<not> has_push g p n" and "is_pc_const_changed (env m) = 0" and "code m = Inr m'"
  shows "pc (env m') = ucast (p + sz) \<and> is_pc_const_changed (env m') = 0"
proof -
  define nps mx where "nps = (p AND NOT 0xFF) + 256" and "mx = (if cf mod 0x8000 = 0 then 0x7fff else cf mod 0x8000)"
  obtain cs p' n' ch' where l: "gen_loop g A c nps mx 0 p False = (cs, p', n', ch')" by (metis surj_pair)
  then have e: "code = seq_code (cs @ [end_of_block p'])" "sz = p' - p" "n = n'"
    using assms(3) unfolding gen_intermediate_code_def Let_def nps_def [symmetric] mx_def [symmetric] by simp_all
  obtain m1 where m1: "seq_code cs m = Inr m1" "end_of_block p' m1 = Inr m'"
    using assms(6) unfolding e(1) seq_code_append by (auto simp: rbind_eq_Inr)
  have "changed m1 = 0" using gen_loop_keeps [OF assms(1,2) l _ m1(1)] assms(4,5) e(3) by (simp add: changed_def)
  then show ?thesis using m1(2) e(2) by (auto simp: end_of_block_def set_pc_def set_pc_const_changed_def changed_def)
qed

theorem block_ignores_jumps_witness:
  "\<exists>code m'. gen_intermediate_code (bytes_at0 [0x56]) \<lparr> beyond = \<lambda>_. 0, junk = \<lambda>_. 0 \<rparr> (plain_cfg 1) 0 0 False = (code, 1, 1, False)
     \<and> code (loaded 100 [9]) = Inr m' \<and> pc (env m') = 1"
proof -
  define g where "g = bytes_at0 [0x56]"
  define A :: ambient where "A = \<lparr> beyond = \<lambda>_. 0, junk = \<lambda>_. 0 \<rparr>"
  define m where "m = loaded 100 [9]"
  have f: "field4 0x56 = 6" using insn_fields(1) [of 86] by simp
  have h: "holds m [9]" unfolding m_def by (rule holds_loaded) simp
  have "low_bits 9 = 9" using low_bits_small [of 9] by simp
  then have a: "mem_addr A 6 m = Inr (9, sp_add (- 4) m)"
    using GetSingle_holds(1) [OF h] by (simp add: mem_addr_def MemOps_def helper_GetSingleBlockFromStack_def GetSingleBlockFromStack_def)
  have "room 65 (sp_add (- 4) m)" by (simp add: m_def room_def sp_add_def loaded_def boot_def empty_heap_def HEAP_SIZE_def)
  then obtain m2 where "UseGas 8 (sp_add (- 4) m) = Inr m2" by (rule UseGas_stepped)
  then obtain m3 where m3: "gen_mem A 0x56 m = Inr m3"
    using a by (simp add: gen_mem_def f MemOps_def gen_mem_case_def gen_jump_def helper_USEGAS_def set_pc_def set_pc_within_inst_def)
  have fst: "fst (genBlock_Main g A 0x56) = gen_mem A 0x56" using genBlock_by_class [of 86 "0x56" g A] by simp
  have "gen_loop g A (plain_cfg 1) 256 0x7fff 0 0 False = ([gen_mem A 0x56], 1, 1, False)"
    using fst push_flag [of g A "0x56"]
    by (simp add: g_def gen_loop.simps [of _ _ _ _ _ 0] disas_ppdl_insn_def plain_cfg_def bytes_at0_def shift_by_class is_push_def
        Let_def case_prod_beta)
  then have t: "gen_intermediate_code g A (plain_cfg 1) 0 0 False = (seq_code [gen_mem A 0x56, end_of_block 1], 1, 1, False)"
    by (simp add: gen_intermediate_code_def del: seq_code_simps)
  obtain m' where c: "seq_code [gen_mem A 0x56, end_of_block 1] m = Inr m'"
    using m3 by (cases "is_pc_const_changed (env m3) = 0") (simp_all add: end_of_block_def set_pc_def set_pc_const_changed_def)
  have "\<not> has_push g 0 1" by (simp add: has_push_def g_def bytes_at0_def is_push_def)
  moreover have "is_pc_const_changed (env m) = 0" "tracer (plain_cfg 1) = None" "\<not> singlestep (plain_cfg 1)"
    by (simp_all add: m_def loaded_def zero_cpu_def plain_cfg_def)
  ultimately have "pc (env m') = 1" using block_ignores_jumps [OF _ _ t _ _ c] by simp
  with t c show ?thesis unfolding g_def A_def m_def by blast
qed

section \<open>Instruction codes without effect\<close>

lemma dispatch_beyond:
  "4 < unat v \<Longrightarrow> SystemOps v m = Inr m" "5 < unat v \<Longrightarrow> BlockChain v m = Inr m" "12 < unat v \<Longrightarrow> AccountsData v m = Inr m"
  by (auto simp: SystemOps_def BlockChain_def AccountsData_def)

lemma unat_field4: "unat (field4 (of_nat (unat (b :: u8)))) = unat b mod 16"
  using insn_fields(1) [OF u8_less, of b] by (simp add: unat_of_nat)

text \<open>C30: the instruction codes that have no effect: the undefined ones, and STATICCALL, REVERT and SUICIDE, whose patterns stand behind the
  one for all system codes. No gas is charged, and REVERT and SUICIDE do not stop the machine.\<close>

theorem inert_opcodes:
  fixes b :: u8
  assumes "unat b \<in> {0x21..0x2f} \<union> {0xa8..0xef} \<union> {0xf5..0xff} \<union> {0x46..0x4f} \<union> {0x3d..0x3f}"
  shows "fst (genBlock_Main g A (ucast b)) m = Inr m"
proof -
  define n where "n = unat b"
  have n: "n < 256" unfolding n_def by (rule u8_less)
  have f: "unat (field4 (of_nat n)) = n mod 16" unfolding n_def by (rule unat_field4)
  consider "n \<in> {0x21..0x2f} \<union> {0xa8..0xef}" | "n \<in> {0xf5..0xff}" | "n \<in> {0x46..0x4f}" | "n \<in> {0x3d..0x3f}"
    using assms by (auto simp: n_def)
  then show ?thesis
  proof cases
    case 1
    then have "n div 16 \<noteq> 15" "n div 16 \<noteq> 4" "n div 16 \<noteq> 3" "n div 32 \<noteq> 3" "n div 16 \<noteq> 8" "n div 16 \<noteq> 9" "n div 8 \<noteq> 20"
      "n div 16 \<noteq> 5" "n div 16 \<noteq> 0" "n div 16 \<noteq> 1" "n \<noteq> 32" by auto
    then show ?thesis unfolding genBlock_by_class [OF n_def] by (simp only: if_False fst_conv)
  next
    case 2
    then have "n div 16 = 15" "4 < n mod 16" by auto presburger
    then show ?thesis unfolding genBlock_by_class [OF n_def] by (simp add: gen_syscall_def dispatch_beyond f)
  next
    case 3
    then have "n div 16 = 4" "5 < n mod 16" by auto presburger
    then show ?thesis unfolding genBlock_by_class [OF n_def] by (simp add: gen_blockchain_def dispatch_beyond f)
  next
    case 4
    then have "n div 16 = 3" "12 < n mod 16" by auto presburger
    then show ?thesis unfolding genBlock_by_class [OF n_def] by (simp add: gen_accounts_def dispatch_beyond f)
  qed
qed

theorem inert_opcodes_witness:
  "\<forall>g A m. fst (genBlock_Main g A 0xfd) m = Inr m \<and> fst (genBlock_Main g A 0xff) m = Inr m"
  using inert_opcodes [of "0xfd :: u8"] inert_opcodes [of "0xff :: u8"] by simp

section \<open>The size of a block\<close>

lemma shift_bounds: "1 \<le> unat (get_ppdl_shift_pc b)" "unat (get_ppdl_shift_pc b) \<le> 33"
proof -
  have "unat (of_nat (unat b mod 32) + 2 :: u32) = unat b mod 32 + 2"
    using mod_less_divisor [of 32 "unat b"] by (simp add: unat_word_ariths unat_of_nat)
  moreover have "unat b mod 32 \<le> 31" using mod_less_divisor [of 32 "unat b"] by linarith
  ultimately show "1 \<le> unat (get_ppdl_shift_pc b)" "unat (get_ppdl_shift_pc b) \<le> 33" by (simp_all add: shift_by_class)
qed

lemma gen_loop_cases:
  assumes "gen_loop g A c nps mx k p ch = (cs, p', n, ch')"
  obtains "p' = p + ucast (get_ppdl_shift_pc (gmem g p))" "n = k + 1"
  | cs1 ch1 where "p + ucast (get_ppdl_shift_pc (gmem g p)) < nps" "k + 1 < mx"
      "gen_loop g A c nps mx (k + 1) (p + ucast (get_ppdl_shift_pc (gmem g p))) ch1 = (cs1, p', n, ch')"
proof -
  obtain blk h where d: "disas_ppdl_insn g A c p = ((blk, h), p + ucast (get_ppdl_shift_pc (gmem g p)))"
    by (cases "genBlock_Main g A (ucast (gmem g p))") (simp add: disas_ppdl_insn_def Let_def)
  show thesis
    using assms that by (subst (asm) gen_loop.simps) (auto simp: d Let_def split: if_splits prod.splits)
qed

lemma page_start: "unat (p AND NOT 0xFF) = unat p div 256 * 256" for p :: u64
proof -
  have "p AND NOT (mask 8) = push_bit 8 (drop_bit 8 p)" by (rule bit_word_eqI) (auto simp: bit_simps)
  then have "p AND NOT 0xFF = push_bit 8 (drop_bit 8 p)" by (simp add: mask_eq_exp_minus_1)
  moreover have "unat p div 256 * 256 < 2 ^ 64" using unat_lt64 [of p] div_times_less_eq_dividend [of "unat p" 256] by simp
  ultimately show ?thesis by (simp add: unat_push_bit)
qed

lemma gen_loop_bounds:
  assumes "gen_loop g A c nps mx k p ch = (cs, p', n, ch')" and "unat p < unat nps" and "unat nps + 33 < 2 ^ 64"
  shows "k < n \<and> n \<le> max (k + 1) mx \<and> unat p + (n - k) \<le> unat p' \<and> unat p' \<le> unat nps + 32
    \<and> unat p + (n - k) \<le> unat nps"
  using assms(1,2)
proof (induction "mx - k" arbitrary: k p ch cs rule: less_induct)
  case less
  let ?p1 = "p + ucast (get_ppdl_shift_pc (gmem g p)) :: u64"
  note b = shift_bounds [of "gmem g p"]
  have p1: "unat ?p1 = unat p + unat (get_ppdl_shift_pc (gmem g p))"
    using less.prems(2) assms(3) b by (simp add: unat_word_ariths unat_ucast_le)
  from less.prems(1) show ?case
  proof (cases rule: gen_loop_cases)
    case 1
    with p1 b less.prems(2) show ?thesis by simp
  next
    case (2 cs1 ch1)
    with less.hyps [OF _ 2(3)] have "k + 1 < n \<and> n \<le> max (k + 2) mx \<and> unat ?p1 + (n - (k + 1)) \<le> unat p' \<and> unat p' \<le> unat nps + 32
        \<and> unat ?p1 + (n - (k + 1)) \<le> unat nps"
      by (simp add: word_less_nat_alt)
    with p1 b 2(2) show ?thesis by linarith
  qed
qed

text \<open>C14: translation ends for every code, and a block is bounded by its page: it has between one and 256 instructions, at least one byte
  per instruction, and at most 32 bytes behind the page, the operand of a last push. With a count in the flags of the block it has at
  most so many instructions.\<close>

theorem block_bounds:
  assumes "gen_intermediate_code g A c cflags tb_pc chg = (code, sz, n, chg')" and "unat tb_pc + 512 < 2 ^ 64"
  shows "1 \<le> n \<and> n \<le> unat sz \<and> n \<le> 256 - unat tb_pc mod 256 \<and> unat sz \<le> 256 - unat tb_pc mod 256 + 32
    \<and> n \<le> (if cflags mod 0x8000 = 0 then 0x7fff else cflags mod 0x8000)"
proof -
  let ?nps = "(tb_pc AND NOT 0xFF) + 256"
  let ?mx = "if cflags mod 0x8000 = 0 then 0x7fff else cflags mod 0x8000"
  obtain cs p' where l: "gen_loop g A c ?nps ?mx 0 tb_pc chg = (cs, p', n, chg')" and sz: "sz = p' - tb_pc"
    using assms(1) by (auto simp: gen_intermediate_code_def Let_def split: prod.splits)
  define q r where "q = unat tb_pc div 256 * 256" and "r = unat tb_pc mod 256"
  then have qr: "unat tb_pc = q + r" "r < 256" by simp_all
  have m: "unat ?nps = q + 256" using page_start [of tb_pc] assms(2) qr unfolding q_def [symmetric] by (simp add: unat_word_ariths)
  have b: "0 < n" "n \<le> max 1 ?mx" "unat tb_pc + n \<le> unat p'" "unat p' \<le> q + 288" "unat tb_pc + n \<le> q + 256"
    using gen_loop_bounds [OF l] m qr assms(2) by simp_all
  then have "unat sz = unat p' - unat tb_pc" unfolding sz by (simp add: unat_sub_if')
  then have "1 \<le> n" "n \<le> unat sz" "n \<le> 256 - r" "unat sz \<le> 256 - r + 32" using b qr by linarith+
  moreover have "n \<le> ?mx" using b(2) by (auto split: if_splits)
  ultimately show ?thesis by (simp add: r_def)
qed

theorem block_bounds_witness:
  "\<exists>code sz n chg. gen_intermediate_code \<lparr> gmem = (\<lambda>_. 0x7f), ram_size = 0x8000000, use_memtracer = False, memlist = [] \<rparr>
       \<lparr> beyond = (\<lambda>_. 0), junk = (\<lambda>_. 0) \<rparr> (plain_cfg 5) 0 0xf0 False = (code, sz, n, chg) \<and> 1 \<le> n \<and> n \<le> 16 \<and> unat sz \<le> 48"
proof -
  obtain code sz n chg where t: "gen_intermediate_code \<lparr> gmem = (\<lambda>_. 0x7f), ram_size = 0x8000000, use_memtracer = False, memlist = [] \<rparr>
       \<lparr> beyond = (\<lambda>_. 0), junk = (\<lambda>_. 0) \<rparr> (plain_cfg 5) 0 0xf0 False = (code, sz, n, chg)" by (metis surj_pair)
  from block_bounds [OF this] t show ?thesis by auto
qed

end
