(* ===== verification/Environment.thy ===== *)
theory Environment
  imports Control_Flow
begin

unbundle bit_operations_syntax

text \<open>
  The instructions that read the environment of a call and of a block, and the calls between contracts. The dispatch lists
  of \<^verbatim>\<open>arglist_helper.c\<close> use the versions of \<^verbatim>\<open>func_shared.c\<close>; \<^verbatim>\<open>func_helper.c\<close> has a second version of each for
  direct calls from generated code. \<open>environment_spec\<close> is the table of what the instructions push and cost.
\<close>

section \<open>The versions for generated code\<close>

definition helper_GetElfSizeStub :: "machine \<Rightarrow> u64" where
  "helper_GetElfSizeStub m = GetElfSize m"

definition helper_PushSingleBlockToStack :: "u64 \<Rightarrow> machine \<Rightarrow> machine run" where
  "helper_PushSingleBlockToStack data_tmp m = push_word (pd_swap data_tmp) m"

definition helper_MakeCall :: "machine \<Rightarrow> machine run" where "helper_MakeCall m = USEGAS 0x28 m"

definition helper_GetInputData :: "machine \<Rightarrow> machine run" where "helper_GetInputData m = USEGAS 0x3 m"

definition helper_CallDataCopy :: "machine \<Rightarrow> machine run" where "helper_CallDataCopy m = USEGAS 0x3 m"

definition helper_DelegateCall :: "machine \<Rightarrow> machine run" where "helper_DelegateCall m = USEGAS 0x28 m"

definition helper_Return :: "machine \<Rightarrow> machine run" where "helper_Return m = rbind (USEGAS 0 m) StopExec"

definition helper_GetOrigin :: "machine \<Rightarrow> machine run" where
  "helper_GetOrigin m = (let oa = origin_addr (env m) in rbind (USEGAS 0x2 m) (PushSingleBlockToStack oa))"

definition helper_GetGasPrice :: "machine \<Rightarrow> machine run" where
  "helper_GetGasPrice m = (let gp = gas_price (env m) in rbind (USEGAS 0x2 m) (PushSingleBlockToStack gp))"

definition helper_CallValue :: "machine \<Rightarrow> machine run" where "helper_CallValue m = USEGAS 0x2 m"

definition helper_GetGasLimit :: "machine \<Rightarrow> machine run" where
  "helper_GetGasLimit m = rbind (USEGAS 0x2 m) (\<lambda>m. PushSingleBlockToStack (GasLimit (env m)) m)"

definition helper_GetTimeStamp :: "machine \<Rightarrow> machine run" where
  "helper_GetTimeStamp m = rbind (USEGAS 0x2 m) (\<lambda>m. PushSingleBlockToStack (TimeStamp (env m)) m)"

definition helper_CodeCopy :: "machine \<Rightarrow> machine run" where "helper_CodeCopy m = USEGAS 0x3 m"

definition helper_BlockChainHash :: "machine \<Rightarrow> machine run" where
  "helper_BlockChainHash m = rbind (USEGAS 0x14 m) (PushSingleBlockToStack 0)"

definition helper_GetCaller :: "machine \<Rightarrow> machine run" where
  "helper_GetCaller m = (let ca = caller_addr (env m) in rbind (USEGAS 0x2 m) (PushSingleBlockToStack ca))"

definition helper_CreateAccount :: "machine \<Rightarrow> machine run" where "helper_CreateAccount m = USEGAS 0x7D00 m"

definition helper_ExtCodeCopy :: "machine \<Rightarrow> machine run" where "helper_ExtCodeCopy m = USEGAS 0x14 m"

definition helper_GetNumber :: "machine \<Rightarrow> machine run" where
  "helper_GetNumber m = rbind (USEGAS 0x2 m) (\<lambda>m. PushSingleBlockToStack (Number (env m)) m)"

definition helper_GetBalance :: "machine \<Rightarrow> machine run" where "helper_GetBalance m = USEGAS 0x14 m"

definition helper_GetDifficulty :: "machine \<Rightarrow> machine run" where
  "helper_GetDifficulty m = rbind (USEGAS 0x2 m) (\<lambda>m. PushSingleBlockToStack (Difficulty (env m)) m)"

definition helper_GetAddress :: "machine \<Rightarrow> machine run" where
  "helper_GetAddress m = (let ca = cur_addr (env m) in rbind (USEGAS 0x2 m) (PushSingleBlockToStack ca))"

definition helper_MakeCallCode :: "machine \<Rightarrow> machine run" where "helper_MakeCallCode m = USEGAS 0x28 m"

definition helper_GetCodeSize :: "machine \<Rightarrow> machine run" where
  "helper_GetCodeSize m = (let elf_size = GetElfSizeStub m in rbind (USEGAS 0x2 m) (PushSingleBlockToStack elf_size))"

definition helper_CallDataSize :: "machine \<Rightarrow> machine run" where
  "helper_CallDataSize m = rbind (USEGAS 0x2 m) (\<lambda>m. PushSingleBlockToStack (inp_data_size (env m)) m)"

definition helper_GetCoinBase :: "machine \<Rightarrow> machine run" where
  "helper_GetCoinBase m = rbind (USEGAS 0x2 m) (\<lambda>m. PushSingleBlockToStack (CoinBase (env m)) m)"

definition helper_ExtCodeSize :: "machine \<Rightarrow> machine run" where
  "helper_ExtCodeSize m = rbind (USEGAS 0x14 m) (\<lambda>m. PushSingleBlockToStack (ext_code_size (env m)) m)"

section \<open>Table\<close>

text \<open>The number pushed, if any, and the gas, by instruction byte.\<close>

definition environment_spec :: "CPUPPDLState \<Rightarrow> nat \<Rightarrow> (u64 option \<times> nat) option" where
  "environment_spec e b =
     map_of [(0x30, Some (cur_addr e), 2), (0x31, None, 20), (0x32, Some (origin_addr e), 2), (0x33, Some (caller_addr e), 2),
             (0x34, None, 2), (0x35, None, 3), (0x36, Some (inp_data_size e), 2), (0x37, None, 3), (0x38, Some (elfSize e), 2),
             (0x39, None, 3), (0x3a, Some (gas_price e), 2), (0x3b, Some (ext_code_size e), 20), (0x3c, None, 20),
             (0x40, Some 0, 20), (0x41, Some (CoinBase e), 2), (0x42, Some (TimeStamp e), 2), (0x43, Some (Number e), 2),
             (0x44, Some (Difficulty e), 2), (0x45, Some (GasLimit e), 2),
             (0xf0, None, 32000), (0xf1, None, 40), (0xf2, None, 40), (0xf4, None, 40)] b"

definition environment_stack :: "u64 option \<Rightarrow> u256 list \<Rightarrow> u256 list" where
  "environment_stack v st = (case v of None \<Rightarrow> st | Some x \<Rightarrow> ucast x # st)"

section \<open>The instructions\<close>

lemma gas_step:
  assumes "holds m st" and "room 65 m"
  obtains m' where "USEGAS v m = Inr m'" "holds m' st" "stepped (unat v) 65 m m'"
proof -
  obtain m' where "UseGas v m = Inr m'" "stepped (unat v) 65 m m'" "same_stack m m'" by (rule UseGas_stepped [OF assms(2)])
  with that assms(1) show ?thesis by (auto simp: USEGAS_def holds_same_stack)
qed

lemma gas_push:
  assumes "holds m st" and "room 65 m" and "length st < 512" and "\<And>m'. rest m' = rest m \<Longrightarrow> f m' = f m"
  shows "\<exists>m'. rbind (USEGAS v m) (\<lambda>m. PushSingleBlockToStack (f m) m) = Inr m' \<and> holds m' (ucast (f m) # st) \<and> stepped (unat v) 65 m m'"
proof -
  obtain m1 where 1: "USEGAS v m = Inr m1" "holds m1 st" "stepped (unat v) 65 m m1" by (rule gas_step [OF assms(1,2)])
  have "f m1 = f m" by (rule assms(4)) (use 1(3) in \<open>simp add: stepped_def\<close>)
  moreover obtain m2 where 2: "PushSingleBlockToStack (f m) m1 = Inr m2" "holds m2 (ucast (f m) # st)" "stepped 0 0 m1 m2"
    by (rule PushSingle_holds [OF 1(2) assms(3)])
  ultimately show ?thesis using 1 2 stepped_trans [OF 1(3) 2(3)] by auto
qed

lemma rest_reads:
  "cur_addr (env (rest m)) = cur_addr (env m)"
  "origin_addr (env (rest m)) = origin_addr (env m)"
  "caller_addr (env (rest m)) = caller_addr (env m)"
  "inp_data_size (env (rest m)) = inp_data_size (env m)"
  "elfSize (env (rest m)) = elfSize (env m)"
  "gas_price (env (rest m)) = gas_price (env m)"
  "ext_code_size (env (rest m)) = ext_code_size (env m)"
  "CoinBase (env (rest m)) = CoinBase (env m)"
  "TimeStamp (env (rest m)) = TimeStamp (env m)"
  "Number (env (rest m)) = Number (env m)"
  "Difficulty (env (rest m)) = Difficulty (env m)"
  "GasLimit (env (rest m)) = GasLimit (env m)"
  by (simp_all add: rest_def)

lemma rest_fields:
  assumes "rest m' = rest m"
  shows "cur_addr (env m') = cur_addr (env m)"
    "origin_addr (env m') = origin_addr (env m)"
    "caller_addr (env m') = caller_addr (env m)"
    "inp_data_size (env m') = inp_data_size (env m)"
    "elfSize (env m') = elfSize (env m)"
    "gas_price (env m') = gas_price (env m)"
    "ext_code_size (env m') = ext_code_size (env m)"
    "CoinBase (env m') = CoinBase (env m)"
    "TimeStamp (env m') = TimeStamp (env m)"
    "Number (env m') = Number (env m)"
    "Difficulty (env m') = Difficulty (env m)"
    "GasLimit (env m') = GasLimit (env m)"
  using assms rest_reads [of m] rest_reads [of m'] by simp_all

lemmas environment_defs = GetAddress_def GetBalance_def GetOrigin_def GetCaller_def CallValue_def GetInputData_def CallDataSize_def
  CallDataCopy_def GetCodeSize_def GetElfSizeStub_def GetElfSize_def CodeCopy_def GetGasPrice_def ExtCodeSize_def ExtCodeCopy_def
  BlockChainHash_def GetCoinBase_def GetTimeStamp_def GetNumber_def GetDifficulty_def GetGasLimit_def
  CreateAccount_def MakeCall_def MakeCallCode_def DelegateCall_def

lemma environment_helper:
  assumes "holds m st" and "room 65 m" and "length st < 512"
  shows "environment_spec (env m) (0x30 + k) = Some (v, G) \<Longrightarrow> k < 16 \<Longrightarrow>
      \<exists>m'. AccountsData (of_nat k) m = Inr m' \<and> holds m' (environment_stack v st) \<and> stepped G 65 m m'"
    and "environment_spec (env m) (0x40 + k) = Some (v, G) \<Longrightarrow> k < 16 \<Longrightarrow>
      \<exists>m'. BlockChain (of_nat k) m = Inr m' \<and> holds m' (environment_stack v st) \<and> stepped G 65 m m'"
    and "environment_spec (env m) (0xf0 + k) = Some (v, G) \<Longrightarrow> k < 16 \<Longrightarrow>
      \<exists>m'. SystemOps (of_nat k) m = Inr m' \<and> holds m' (environment_stack v st) \<and> stepped G 65 m m'"
proof -
  have gas: "\<exists>m'. USEGAS v m = Inr m' \<and> holds m' st \<and> stepped (unat v) 65 m m'" for v by (rule gas_step [OF assms(1,2)]) auto
  note push = gas_push [OF assms]
  have const: "\<exists>m'. rbind (USEGAS v m) (PushSingleBlockToStack c) = Inr m' \<and> holds m' (ucast c # st) \<and> stepped (unat v) 65 m m'" for v c
    using push [of "\<lambda>_. c" v] by simp
  have reads: "\<exists>m'. rbind (USEGAS v m) (\<lambda>m. PushSingleBlockToStack (f (env m)) m) = Inr m' \<and> holds m' (ucast (f (env m)) # st)
      \<and> stepped (unat v) 65 m m'" if "\<And>m'. rest m' = rest m \<Longrightarrow> f (env m') = f (env m)" for f v
    using push [of "\<lambda>m. f (env m)" v, OF that] by simp
  note r = reads [where f = inp_data_size and v = 2, OF rest_fields(4), simplified]
    reads [where f = ext_code_size and v = 20, OF rest_fields(7), simplified]
    reads [where f = CoinBase and v = 2, OF rest_fields(8), simplified]
    reads [where f = TimeStamp and v = 2, OF rest_fields(9), simplified]
    reads [where f = Number and v = 2, OF rest_fields(10), simplified]
    reads [where f = Difficulty and v = 2, OF rest_fields(11), simplified]
    reads [where f = GasLimit and v = 2, OF rest_fields(12), simplified]
    const [of 2 "elfSize (env m)", simplified]
    const [of 2 "cur_addr (env m)", simplified]
    const [of 2 "origin_addr (env m)", simplified]
    const [of 2 "caller_addr (env m)", simplified]
    const [of 2 "gas_price (env m)", simplified]
    const [of 20 0, simplified] gas [of 2, simplified] gas [of 3, simplified] gas [of 20, simplified] gas [of 40, simplified]
    gas [of 32000, simplified]
  show "environment_spec (env m) (0x30 + k) = Some (v, G) \<Longrightarrow> k < 16 \<Longrightarrow>
      \<exists>m'. AccountsData (of_nat k) m = Inr m' \<and> holds m' (environment_stack v st) \<and> stepped G 65 m m'"
  proof -
    assume "environment_spec (env m) (0x30 + k) = Some (v, G)" "k < 16"
    then have "k = 0 \<and> v = Some (cur_addr (env m)) \<and> G = 2 \<or> k = 1 \<and> v = None \<and> G = 20
      \<or> k = 2 \<and> v = Some (origin_addr (env m)) \<and> G = 2
      \<or> k = 3 \<and> v = Some (caller_addr (env m)) \<and> G = 2 \<or> k = 4 \<and> v = None \<and> G = 2
      \<or> k = 5 \<and> v = None \<and> G = 3 \<or> k = 6 \<and> v = Some (inp_data_size (env m)) \<and> G = 2
      \<or> k = 7 \<and> v = None \<and> G = 3 \<or> k = 8 \<and> v = Some (elfSize (env m)) \<and> G = 2
      \<or> k = 9 \<and> v = None \<and> G = 3 \<or> k = 10 \<and> v = Some (gas_price (env m)) \<and> G = 2
      \<or> k = 11 \<and> v = Some (ext_code_size (env m)) \<and> G = 20 \<or> k = 12 \<and> v = None \<and> G = 20"
      unfolding environment_spec_def by (simp split: if_splits)
    then show ?thesis
      by (elim disjE conjE) (simp_all add: environment_stack_def AccountsData_def environment_defs Let_def r)
  qed
  show "environment_spec (env m) (0x40 + k) = Some (v, G) \<Longrightarrow> k < 16 \<Longrightarrow>
      \<exists>m'. BlockChain (of_nat k) m = Inr m' \<and> holds m' (environment_stack v st) \<and> stepped G 65 m m'"
  proof -
    assume "environment_spec (env m) (0x40 + k) = Some (v, G)" "k < 16"
    then have "k = 0 \<and> v = Some 0 \<and> G = 20 \<or> k = 1 \<and> v = Some (CoinBase (env m)) \<and> G = 2
      \<or> k = 2 \<and> v = Some (TimeStamp (env m)) \<and> G = 2
      \<or> k = 3 \<and> v = Some (Number (env m)) \<and> G = 2
      \<or> k = 4 \<and> v = Some (Difficulty (env m)) \<and> G = 2
      \<or> k = 5 \<and> v = Some (GasLimit (env m)) \<and> G = 2"
      unfolding environment_spec_def by (simp split: if_splits)
    then show ?thesis
      by (elim disjE conjE) (simp_all add: environment_stack_def BlockChain_def environment_defs Let_def r)
  qed
  show "environment_spec (env m) (0xf0 + k) = Some (v, G) \<Longrightarrow> k < 16 \<Longrightarrow>
      \<exists>m'. SystemOps (of_nat k) m = Inr m' \<and> holds m' (environment_stack v st) \<and> stepped G 65 m m'"
  proof -
    assume "environment_spec (env m) (0xf0 + k) = Some (v, G)" "k < 16"
    then have "k = 0 \<and> v = None \<and> G = 32000 \<or> k = 1 \<and> v = None \<and> G = 40
      \<or> k = 2 \<and> v = None \<and> G = 40 \<or> k = 4 \<and> v = None \<and> G = 40"
      unfolding environment_spec_def by (simp split: if_splits)
    then show ?thesis
      by (elim disjE conjE) (simp_all add: environment_stack_def SystemOps_def environment_defs Let_def r)
  qed
qed

lemma environment_class:
  assumes "environment_spec e n = Some p"
  shows "n div 16 = 3 \<or> n div 16 = 4 \<or> n div 16 = 15"
proof -
  have "n \<in> {0x30..0x3c} \<union> {0x40..0x45} \<union> {0xf0..0xf4}"
    using map_of_SomeD [OF assms [unfolded environment_spec_def]] by auto
  then show ?thesis by auto
qed

text \<open>C15: what the instructions on accounts, calls and blocks do: the table's number is pushed as a 256-bit word, the table's gas is
  charged, and nothing else changes. BALANCE, CALLVALUE, CALLDATALOAD, the copies, CREATE and the calls only charge gas: they neither
  take arguments from the stack nor leave a result.\<close>

theorem environment_instructions:
  fixes b :: u8
  assumes "holds m st" and "room 65 m" and "length st < 512" and "environment_spec (env m) (unat b) = Some (v, G)"
  shows "\<exists>m'. fst (genBlock_Main g A (ucast b)) m = Inr m' \<and> stepped G 65 m m'
    \<and> holds m' (case v of None \<Rightarrow> st | Some x \<Rightarrow> ucast x # st)"
proof -
  define n where "n = unat b"
  define k where "k = n mod 16"
  have n: "n < 256" "n = 16 * (n div 16) + k" unfolding n_def k_def using u8_less [of b] by simp_all
  have f: "field4 (of_nat n) = of_nat k" "k < 16" unfolding k_def using insn_fields(1) [OF n(1)] by simp_all
  note h = environment_helper [OF assms(1-3), unfolded environment_stack_def]
  note c = genBlock_by_class [OF n_def]
  consider "n div 16 = 3" | "n div 16 = 4" | "n div 16 = 15" using environment_class [OF assms(4)] by (auto simp: n_def)
  then show ?thesis
  proof cases
    case 1
    then have "environment_spec (env m) (0x30 + k) = Some (v, G)" using assms(4) n by (simp add: n_def)
    from h(1) [OF this f(2)] show ?thesis unfolding c using 1 by (auto simp: gen_accounts_def f)
  next
    case 2
    then have "environment_spec (env m) (0x40 + k) = Some (v, G)" using assms(4) n by (simp add: n_def)
    from h(2) [OF this f(2)] show ?thesis unfolding c using 2 by (auto simp: gen_blockchain_def f)
  next
    case 3
    then have "environment_spec (env m) (0xf0 + k) = Some (v, G)" using assms(4) n by (simp add: n_def)
    from h(3) [OF this f(2)] show ?thesis unfolding c using 3 by (auto simp: gen_syscall_def f)
  qed
qed

theorem environment_instructions_witness:
  "\<exists>m'. fst (genBlock_Main \<lparr> gmem = (\<lambda>_. 0), ram_size = 0x8000000, use_memtracer = False, memlist = [] \<rparr> \<lparr> beyond = (\<lambda>_. 0), junk = (\<lambda>_. 0) \<rparr> 0x43) (loaded 100 [7]) = Inr m'
     \<and> holds m' [0, 7] \<and> stepped 2 65 (loaded 100 [7]) m'"
proof -
  have h: "holds (loaded 100 [7]) [7]" by (rule holds_loaded) simp
  have r: "room 65 (loaded 100 [7])" by (simp add: room_def loaded_def boot_def empty_heap_def HEAP_SIZE_def)
  have s: "environment_spec (env (loaded 100 [7])) (unat (0x43 :: u8)) = Some (Some 0, 2)"
    by (simp add: environment_spec_def loaded_def zero_cpu_def)
  show ?thesis using environment_instructions [OF h r _ s] by fastforce
qed

end
