(* ===== verification/Stack_Ops.thy ===== *)
theory Stack_Ops
  imports Helpers
begin

unbundle bit_operations_syntax

text \<open>
  The evaluation stack as an interface. Programs of the machine move elements with four operations; the abstract
  stack is a list of 256-bit words with at most 512 elements, top first. The locale states what an implementation
  promises for one operation, and shows that a whole sequence then behaves as the abstract one. The helpers of
  \<^verbatim>\<open>target-ppdl/func_helper.c\<close> and \<^verbatim>\<open>func_shared.c\<close> are an instance.
\<close>

datatype stack_op = SPush u64 | SPop | SDup nat | SSwap nat

fun stack_spec :: "nat \<Rightarrow> stack_op \<Rightarrow> u256 list \<Rightarrow> u256 list option" where
  "stack_spec cap (SPush v) st = (if length st < cap then Some (ucast v # st) else None)"
| "stack_spec cap SPop st = (case st of [] \<Rightarrow> None | x # st' \<Rightarrow> Some st')"
| "stack_spec cap (SDup c) st = (if c < length st \<and> length st < cap then Some (st ! c # st) else None)"
| "stack_spec cap (SSwap c) st = (if Suc c < length st then Some (st [0 := st ! Suc c, Suc c := st ! 0]) else None)"

fun stack_run :: "nat \<Rightarrow> stack_op list \<Rightarrow> u256 list \<Rightarrow> u256 list option" where
  "stack_run cap [] st = Some st"
| "stack_run cap (a # as) st = (case stack_spec cap a st of None \<Rightarrow> None | Some st' \<Rightarrow> stack_run cap as st')"

text \<open>The operations as the helpers carry them out.\<close>

fun stack_helper :: "stack_op \<Rightarrow> machine \<Rightarrow> machine run" where
  "stack_helper (SPush v) m = PushSingleBlockToStack v m"
| "stack_helper SPop m = helper_Pop m"
| "stack_helper (SDup c) m = DupOp (of_nat c) m"
| "stack_helper (SSwap c) m = SwapOp (of_nat c) m"

locale eval_stack =
  fixes rep :: "'m \<Rightarrow> u256 list \<Rightarrow> bool" and same :: "'m \<Rightarrow> 'm \<Rightarrow> bool" and step :: "stack_op \<Rightarrow> 'm \<Rightarrow> 'm run" and cap :: nat
  assumes step_refines: "rep m st \<Longrightarrow> stack_spec cap a st = Some st' \<Longrightarrow> \<exists>m'. step a m = Inr m' \<and> rep m' st' \<and> same m m'"
    and same_refl: "same m m"
    and same_trans: "same m m' \<Longrightarrow> same m' m'' \<Longrightarrow> same m m''"
begin

lemma run_refines:
  assumes "rep m st" and "stack_run cap as st = Some st'"
  shows "\<exists>m'. rfold step as m = Inr m' \<and> rep m' st' \<and> same m m'"
  using assms
proof (induction "as" arbitrary: m st)
  case (Cons a "as")
  then obtain st1 where s: "stack_spec cap a st = Some st1" "stack_run cap as st1 = Some st'" by (auto split: option.splits)
  obtain m1 where m: "step a m = Inr m1" "rep m1 st1" "same m m1" using step_refines [OF Cons.prems(1) s(1)] by blast
  from Cons.IH [OF m(2) s(2)] m same_trans show ?case by auto
qed (simp add: same_refl)

lemma swap_swap:
  assumes "rep m st" and "Suc c < length st"
  shows "\<exists>m'. rfold step [SSwap c, SSwap c] m = Inr m' \<and> rep m' st \<and> same m m'"
proof (rule run_refines [OF assms(1)])
  have "st [0 := st ! Suc c, Suc c := st ! 0, 0 := st [0 := st ! Suc c, Suc c := st ! 0] ! Suc c,
      Suc c := st [0 := st ! Suc c, Suc c := st ! 0] ! 0] = st"
    using assms(2) less_trans [OF zero_less_Suc assms(2)] by (intro nth_equalityI) (auto simp: nth_list_update)
  then show "stack_run cap [SSwap c, SSwap c] st = Some st" using assms(2) by simp
qed

lemma dup_pop:
  assumes "rep m st" and "c < length st" and "length st < cap"
  shows "\<exists>m'. rfold step [SDup c, SPop] m = Inr m' \<and> rep m' st \<and> same m m'"
  by (rule run_refines [OF assms(1)]) (simp add: assms)

end

lemma stepped_0_trans: "stepped 0 0 m m' \<Longrightarrow> stepped 0 0 m' m'' \<Longrightarrow> stepped 0 0 m m''"
  using stepped_trans [of 0 0 m m' 0 0 m''] by simp

lemma stack_helper_refines:
  assumes "holds m st" and "stack_spec 512 a st = Some st'"
  shows "\<exists>m'. stack_helper a m = Inr m' \<and> holds m' st' \<and> stepped 0 0 m m'"
proof (cases a)
  case (SPush v)
  then show ?thesis using assms PushSingle_holds [OF assms(1), of v] by (auto split: if_splits)
next
  case SPop
  then obtain x where "st = x # st'" using assms(2) by (auto split: list.splits)
  then show ?thesis using SPop pop_holds [of m x st'] assms(1) by (simp add: helper_Pop_def stepped_sp_add)
next
  case (SDup c)
  then show ?thesis using assms DupOp_holds [OF assms(1), of c] by (auto split: if_splits)
next
  case (SSwap c)
  then show ?thesis using assms SwapOp_holds [OF assms(1), of c] by (auto split: if_splits)
qed

interpretation helpers: eval_stack holds "stepped 0 0" stack_helper 512
  by unfold_locales (auto intro: stack_helper_refines stepped_refl stepped_0_trans)

text \<open>C5: every sequence of pushes, pops, duplications and exchanges that the list semantics allows on at most 512 elements is
  carried out by the helpers: they return, the array holds the elements of the list, and nothing but the stack changes.
  An exchange done twice, and a duplicate dropped again, leave the stack as it was.\<close>

theorem stack_program_refines:
  assumes "holds m st"
  shows "(stack_run 512 as st = Some st' \<longrightarrow> (\<exists>m'. rfold stack_helper as m = Inr m' \<and> holds m' st' \<and> stepped 0 0 m m'))
    \<and> (Suc c < length st \<longrightarrow> (\<exists>m'. rfold stack_helper [SSwap c, SSwap c] m = Inr m' \<and> holds m' st \<and> stepped 0 0 m m'))
    \<and> (c < length st \<and> length st < 512 \<longrightarrow> (\<exists>m'. rfold stack_helper [SDup c, SPop] m = Inr m' \<and> holds m' st \<and> stepped 0 0 m m'))"
  using helpers.run_refines [OF assms] helpers.swap_swap [OF assms] helpers.dup_pop [OF assms] by blast

theorem stack_program_refines_witness:
  "\<exists>m'. rfold stack_helper [SPush 3, SDup 1, SSwap 1, SPop] (loaded 0 [9]) = Inr m' \<and> holds m' [3, 9]"
proof -
  have h: "holds (loaded 0 [9]) [9]" by (rule holds_loaded) simp
  show ?thesis using stack_program_refines [OF h, of "[SPush 3, SDup 1, SSwap 1, SPop]" "[3, 9]" 0] by auto
qed

text \<open>C29: a popped element is used as an address through its low 64 bits only, with byte \<open>i\<close> shifted by \<open>i\<close> bits. Elements below
  256 are their own address; 256 and 2 are the same address.\<close>

theorem popped_address:
  assumes "holds m (x # st)"
  shows "(\<exists>m'. helper_GetSingleBlockFromStack m = Inr (fold (\<lambda>i a. a OR push_bit i (take_bit 8 (drop_bit (8 * i) (ucast x)))) [0..<8] 0, m')
      \<and> holds m' st \<and> stepped 0 0 m m')
    \<and> (unat x < 256 \<longrightarrow> (\<exists>m'. helper_GetSingleBlockFromStack m = Inr (ucast x, m')))
    \<and> (x = 256 \<longrightarrow> (\<exists>m'. helper_GetSingleBlockFromStack m = Inr (2, m')))"
proof -
  have e: "helper_GetSingleBlockFromStack m = GetSingleBlockFromStack m"
    by (simp add: helper_GetSingleBlockFromStack_def GetSingleBlockFromStack_def)
  have "low_bits 256 = 2" by (simp add: low_bits_def pd_gather_bswap upt_rec)
  then show ?thesis
    using GetSingle_holds [OF assms] low_bits_small [of x] stepped_sp_add [of m "- 4"]
    unfolding e by (auto simp: low_bits_def pd_gather_bswap)
qed

theorem popped_address_witness:
  "(\<exists>m'. helper_GetSingleBlockFromStack (loaded 0 [256, 1]) = Inr (2, m')) \<and> (\<exists>m'. helper_GetSingleBlockFromStack (loaded 0 [2, 1]) = Inr (2, m'))"
proof -
  have h: "holds (loaded 0 [256, 1]) [256, 1]" "holds (loaded 0 [2, 1]) [2, 1]" by (rule holds_loaded, simp)+
  show ?thesis using popped_address [OF h(1)] popped_address [OF h(2)] by simp
qed

end
