(* ===== verification/Gdbstub.thy ===== *)
theory Gdbstub
  imports Cpu_State
begin

unbundle bit_operations_syntax

text \<open>
  The registers as the debugger sees them: \<^verbatim>\<open>target-ppdl/gdbstub.c\<close>, with the byte order of
  \<^verbatim>\<open>include/qemu/bswap.h\<close> and the dispatch of the generic \<^verbatim>\<open>gdbstub.c\<close>. The two switches of the source have
  one case per register; consecutive cases on the elements of an array are one equation here. A read gives
  the bytes put into the buffer and the returned size, a write the new processor state and the returned size.
\<close>

section \<open>Bytes\<close>

definition stb_p :: "u8 \<Rightarrow> u8 list" where
  "stb_p v = [v]"

definition stl_p :: "u32 \<Rightarrow> u8 list" where
  "stl_p v = map (\<lambda>i. ucast (drop_bit (8 * i) v)) [0..<4]"

definition stq_p :: "u64 \<Rightarrow> u8 list" where
  "stq_p v = map (\<lambda>i. ucast (drop_bit (8 * i) v)) [0..<8]"

definition ldl_p :: "(nat \<Rightarrow> u8) \<Rightarrow> u32" where
  "ldl_p p = foldr (\<lambda>i v. ucast (p i) OR push_bit 8 v) [0..<4] 0"

definition gdb_get_reg8 :: "u8 \<Rightarrow> u8 list \<times> int" where
  "gdb_get_reg8 v = (stb_p v, 1)"

definition gdb_get_reg32 :: "u32 \<Rightarrow> u8 list \<times> int" where
  "gdb_get_reg32 v = (stl_p v, 4)"

definition gdb_get_reg64 :: "u64 \<Rightarrow> u8 list \<times> int" where
  "gdb_get_reg64 v = (stq_p v, 8)"

section \<open>Reading\<close>

text \<open>\<open>read_params\<close> has the registers 0 to 8, \<open>read_gas\<close> 9 to 12, \<open>read_bus\<close> 13 to 1036, \<open>read_stack\<close> 1037 to
  3084 and \<open>read_block\<close> 3085 to 3089.\<close>

definition read_params :: "CPUPPDLState \<Rightarrow> int \<Rightarrow> u8 list \<times> int" where
  "read_params s reg =
     (if reg = 0 then gdb_get_reg32 (pc s)
      else if reg = 1 then gdb_get_reg64 (cur_addr s)
      else if reg = 2 then gdb_get_reg64 (caller_addr s)
      else if reg = 3 then gdb_get_reg64 (origin_addr s)
      else if reg = 4 then gdb_get_reg64 (gas_price s)
      else if reg = 5 then gdb_get_reg64 (ext_code_size s)
      else if reg = 6 then gdb_get_reg64 (inp_data_size s)
      else if reg = 7 then gdb_get_reg32 (ucast (log_ptr s))
      else gdb_get_reg32 (ucast (sp s)))"

definition read_gas :: "CPUPPDLState \<Rightarrow> int \<Rightarrow> u8 list \<times> int" where
  "read_gas s reg = gdb_get_reg64 (gas_available s (nat (reg - 9)))"

definition read_bus :: "CPUPPDLState \<Rightarrow> int \<Rightarrow> u8 list \<times> int" where
  "read_bus s reg = gdb_get_reg8 (ucast (data_bus s (nat (reg - 13))))"

definition read_stack :: "CPUPPDLState \<Rightarrow> int \<Rightarrow> u8 list \<times> int" where
  "read_stack s reg = gdb_get_reg64 (stack_arr s (nat (reg - 1037)))"

definition read_block :: "CPUPPDLState \<Rightarrow> int \<Rightarrow> u8 list \<times> int" where
  "read_block s reg =
     (if reg = 3085 then gdb_get_reg64 (CoinBase s)
      else if reg = 3086 then gdb_get_reg64 (TimeStamp s)
      else if reg = 3087 then gdb_get_reg64 (Number s)
      else if reg = 3088 then gdb_get_reg64 (Difficulty s)
      else gdb_get_reg64 (GasLimit s))"

definition ppdl_cpu_gdb_read_register :: "CPUPPDLState \<Rightarrow> int \<Rightarrow> u8 list \<times> int" where
  "ppdl_cpu_gdb_read_register s reg =
     (if 0 \<le> reg \<and> reg \<le> 8 then read_params s reg
      else if 9 \<le> reg \<and> reg \<le> 12 then read_gas s reg
      else if 13 \<le> reg \<and> reg \<le> 1036 then read_bus s reg
      else if 1037 \<le> reg \<and> reg \<le> 3084 then read_stack s reg
      else if 3085 \<le> reg \<and> reg \<le> 3089 then read_block s reg
      else ([], 0))"

section \<open>Writing\<close>

definition gdb_num_core_regs :: int where "gdb_num_core_regs = 152"

definition write_params :: "CPUPPDLState \<Rightarrow> u32 \<Rightarrow> int \<Rightarrow> CPUPPDLState \<times> int" where
  "write_params s tmp reg =
     (if reg = 0 then (s \<lparr> pc := tmp \<rparr>, 4)
      else if reg = 1 then (s \<lparr> cur_addr := ucast tmp \<rparr>, 8)
      else if reg = 2 then (s \<lparr> caller_addr := ucast tmp \<rparr>, 8)
      else if reg = 3 then (s \<lparr> origin_addr := ucast tmp \<rparr>, 8)
      else if reg = 4 then (s \<lparr> gas_price := ucast tmp \<rparr>, 8)
      else if reg = 5 then (s \<lparr> ext_code_size := ucast tmp \<rparr>, 8)
      else if reg = 6 then (s \<lparr> inp_data_size := ucast tmp \<rparr>, 8)
      else if reg = 7 then (s \<lparr> log_ptr := ucast tmp \<rparr>, 4)
      else (s \<lparr> sp := ucast tmp \<rparr>, 4))"

definition write_gas :: "CPUPPDLState \<Rightarrow> u32 \<Rightarrow> int \<Rightarrow> CPUPPDLState \<times> int" where
  "write_gas s tmp reg = (s \<lparr> gas_available := (gas_available s)(nat (reg - 9) := ucast tmp) \<rparr>, 8)"

definition write_bus :: "CPUPPDLState \<Rightarrow> u32 \<Rightarrow> int \<Rightarrow> CPUPPDLState \<times> int" where
  "write_bus s tmp reg = (s \<lparr> data_bus := (data_bus s)(nat (reg - 13) := ucast tmp) \<rparr>, 1)"

definition write_stack :: "CPUPPDLState \<Rightarrow> u32 \<Rightarrow> int \<Rightarrow> CPUPPDLState \<times> int" where
  "write_stack s tmp reg = (s \<lparr> stack_arr := (stack_arr s)(nat (reg - 1037) := ucast tmp) \<rparr>, 8)"

definition write_block :: "CPUPPDLState \<Rightarrow> u32 \<Rightarrow> int \<Rightarrow> CPUPPDLState \<times> int" where
  "write_block s tmp reg =
     (if reg = 3085 then (s \<lparr> CoinBase := ucast tmp \<rparr>, 8)
      else if reg = 3086 then (s \<lparr> TimeStamp := ucast tmp \<rparr>, 8)
      else if reg = 3087 then (s \<lparr> Number := ucast tmp \<rparr>, 8)
      else if reg = 3088 then (s \<lparr> Difficulty := ucast tmp \<rparr>, 8)
      else (s \<lparr> GasLimit := ucast tmp \<rparr>, 8))"

definition ppdl_cpu_gdb_write_register :: "CPUPPDLState \<Rightarrow> (nat \<Rightarrow> u8) \<Rightarrow> int \<Rightarrow> CPUPPDLState \<times> int" where
  "ppdl_cpu_gdb_write_register s mem_buf reg =
     (if reg > gdb_num_core_regs then (s, 0)
      else let tmp = ldl_p mem_buf in
        if 0 \<le> reg \<and> reg \<le> 8 then write_params s tmp reg
        else if 9 \<le> reg \<and> reg \<le> 12 then write_gas s tmp reg
        else if 13 \<le> reg \<and> reg \<le> 1036 then write_bus s tmp reg
        else if 1037 \<le> reg \<and> reg \<le> 3084 then write_stack s tmp reg
        else if 3085 \<le> reg \<and> reg \<le> 3089 then write_block s tmp reg
        else (s, 8))"

section \<open>Dispatch\<close>

text \<open>The list of additional register sets is empty for this processor: nothing registers one.\<close>

definition gdb_read_register :: "CPUPPDLState \<Rightarrow> int \<Rightarrow> u8 list \<times> int" where
  "gdb_read_register s reg = (if reg < gdb_num_core_regs then ppdl_cpu_gdb_read_register s reg else ([], 0))"

definition gdb_write_register :: "CPUPPDLState \<Rightarrow> (nat \<Rightarrow> u8) \<Rightarrow> int \<Rightarrow> CPUPPDLState \<times> int" where
  "gdb_write_register s mem_buf reg =
     (if reg < gdb_num_core_regs then ppdl_cpu_gdb_write_register s mem_buf reg else (s, 0))"

definition ppdl_cpu_gdb_read_fifo :: "int \<Rightarrow> int" where
  "ppdl_cpu_gdb_read_fifo fifo = 8 * 0"

definition ppdl_cpu_gdb_write_fifo :: "CPUPPDLState \<Rightarrow> int \<Rightarrow> int \<Rightarrow> CPUPPDLState \<times> int" where
  "ppdl_cpu_gdb_write_fifo s fifo data_size = (s, 0)"

text \<open>The size in bytes of a register, by number.\<close>

definition reg_size :: "int \<Rightarrow> int" where
  "reg_size reg = (if reg < 0 \<or> 3089 < reg then 0 else if reg \<in> {0, 7, 8} then 4 else if 13 \<le> reg \<and> reg \<le> 1036 then 1 else 8)"

section \<open>Byte order\<close>

lemma upt_8: "[0..<8] = [0, 1, 2, 3, 4, 5, 6, 7 :: nat]" and upt_4: "[0..<4] = [0, 1, 2, 3 :: nat]"
  by code_simp+

lemma ldl_p_bit: "bit (ldl_p p) n \<longleftrightarrow> n < 32 \<and> bit (p (n div 8)) (n mod 8)"
proof (cases "n < 32")
  case True
  define i j where "i = n div 8" and "j = n mod 8"
  then have n: "n = 8 * i + j" "j < 8" by simp_all
  with True have "i = 0 \<or> i = 1 \<or> i = 2 \<or> i = 3" by arith
  with n True show ?thesis unfolding i_def [symmetric] j_def [symmetric]
    by (elim disjE) (auto simp: ldl_p_def upt_4 bit_simps dest: bit_imp_le_length)
qed (auto dest: bit_imp_le_length)

lemma byte_of_ldl: "i < 4 \<Longrightarrow> ucast (drop_bit (8 * i) (ldl_p p)) = p i"
  by (rule bit_word_eqI) (auto simp: bit_simps ldl_p_bit)

lemma wide_byte_of_ldl: "ucast (drop_bit (8 * i) (ucast (ldl_p p) :: u64)) = (if i < 4 then p i else 0 :: u8)"
  by (rule bit_word_eqI) (auto simp: bit_simps ldl_p_bit)

lemma bytes_of_ldl:
  "stl_p (ldl_p p) = [p 0, p 1, p 2, p 3]" "stq_p (ucast (ldl_p p)) = [p 0, p 1, p 2, p 3, 0, 0, 0, 0]"
  "stl_p (ucast (ucast (ldl_p p) :: u64)) = [p 0, p 1, p 2, p 3]" "stb_p (ucast (ucast (ldl_p p) :: u64)) = [p 0]"
proof -
  have "(ucast (ucast (ldl_p p) :: u64) :: u32) = ldl_p p" by (rule bit_word_eqI) (auto simp: bit_simps)
  then show "stl_p (ldl_p p) = [p 0, p 1, p 2, p 3]" "stl_p (ucast (ucast (ldl_p p) :: u64)) = [p 0, p 1, p 2, p 3]"
    using byte_of_ldl [of 0] byte_of_ldl [of 1] byte_of_ldl [of 2] byte_of_ldl [of 3] by (simp_all add: stl_p_def upt_4)
  show "stq_p (ucast (ldl_p p)) = [p 0, p 1, p 2, p 3, 0, 0, 0, 0]"
    using wide_byte_of_ldl [of _ p] by (simp add: stq_p_def upt_8)
  show "stb_p (ucast (ucast (ldl_p p) :: u64)) = [p 0]" using wide_byte_of_ldl [of 0 p] by (simp add: stb_p_def)
qed

lemma stored_length: "length (stb_p a) = 1" "length (stl_p b) = 4" "length (stq_p c) = 8"
  by (simp_all add: stb_p_def stl_p_def stq_p_def)

lemmas read_defs = ppdl_cpu_gdb_read_register_def read_params_def read_gas_def read_bus_def read_stack_def read_block_def
  gdb_get_reg8_def gdb_get_reg32_def gdb_get_reg64_def

lemmas write_defs = write_params_def write_gas_def write_bus_def

lemma read_size: "ppdl_cpu_gdb_read_register s reg = (bs, n) \<Longrightarrow> n = reg_size reg \<and> int (length bs) = n"
  by (auto simp: read_defs reg_size_def stored_length split: if_splits)

lemma taken:
  "take 8 ([a, b, c, d] @ replicate 4 (0 :: u8)) = [a, b, c, d, 0, 0, 0, 0]" "take 4 ([a, b, c, d] @ replicate 4 (0 :: u8)) = [a, b, c, d]"
  "take 1 ([a, b, c, d] @ replicate 4 (0 :: u8)) = [a]"
  by (simp_all add: numeral_eq_Suc)

lemma bytes_of_ldl_take:
  "n = 1 \<or> n = 4 \<or> n = 8 \<Longrightarrow> take n ([p 0, p 1, p 2, p 3] @ replicate 4 0) =
     (if n = 1 then stb_p (ucast (ucast (ldl_p p) :: u64)) else if n = 4 then stl_p (ldl_p p) else stq_p (ucast (ldl_p p)))"
  by (auto simp: bytes_of_ldl taken numeral_eq_Suc)

lemma write_params_read:
  assumes "reg \<in> {0, 1, 2, 3, 4, 5, 6, 7, 8}"
  shows "r = reg \<Longrightarrow> read_params (fst (write_params s t reg)) r =
      (if reg \<in> {0, 7, 8} then gdb_get_reg32 t else gdb_get_reg64 (ucast t))"
    and "r \<noteq> reg \<Longrightarrow> ppdl_cpu_gdb_read_register (fst (write_params s t reg)) r = ppdl_cpu_gdb_read_register s r"
proof -
  have u: "(ucast (ucast t :: u64) :: u32) = t" by (rule bit_word_eqI) (auto simp: bit_simps)
  show "r = reg \<Longrightarrow> read_params (fst (write_params s t reg)) r =
      (if reg \<in> {0, 7, 8} then gdb_get_reg32 t else gdb_get_reg64 (ucast t))"
    using assms by (elim insertE) (simp_all add: read_params_def write_params_def u)
  assume "r \<noteq> reg"
  with assms show "ppdl_cpu_gdb_read_register (fst (write_params s t reg)) r = ppdl_cpu_gdb_read_register s r"
    by (elim insertE) (simp_all add: ppdl_cpu_gdb_read_register_def read_params_def read_gas_def read_bus_def read_stack_def
        read_block_def write_params_def cong: if_cong)
qed

lemma write_array_read:
  shows "9 \<le> reg \<Longrightarrow> reg \<le> 12 \<Longrightarrow> r \<noteq> reg \<Longrightarrow>
      ppdl_cpu_gdb_read_register (fst (write_gas s t reg)) r = ppdl_cpu_gdb_read_register s r"
    and "13 \<le> reg \<Longrightarrow> reg \<le> 1036 \<Longrightarrow> r \<noteq> reg \<Longrightarrow>
      ppdl_cpu_gdb_read_register (fst (write_bus s t reg)) r = ppdl_cpu_gdb_read_register s r"
  by (simp_all add: ppdl_cpu_gdb_read_register_def read_params_def read_gas_def read_bus_def read_stack_def
        read_block_def write_gas_def write_bus_def nat_eq_iff cong: if_cong)

lemma write_read:
  assumes "0 \<le> reg" and "reg \<le> gdb_num_core_regs"
  shows "ppdl_cpu_gdb_read_register (fst (ppdl_cpu_gdb_write_register s p reg)) reg =
      (take (nat (reg_size reg)) ([p 0, p 1, p 2, p 3] @ replicate 4 0), reg_size reg)"
    and "r \<noteq> reg \<Longrightarrow> ppdl_cpu_gdb_read_register (fst (ppdl_cpu_gdb_write_register s p reg)) r = ppdl_cpu_gdb_read_register s r"
    and "snd (ppdl_cpu_gdb_write_register s p reg) = reg_size reg"
proof -
  let ?t = "ldl_p p"
  have w: "ppdl_cpu_gdb_write_register s p reg =
      (if reg \<le> 8 then write_params s ?t reg else if reg \<le> 12 then write_gas s ?t reg else write_bus s ?t reg)"
    using assms by (simp add: ppdl_cpu_gdb_write_register_def gdb_num_core_regs_def)
  have p: "reg \<le> 8 \<Longrightarrow> reg \<in> {0, 1, 2, 3, 4, 5, 6, 7, 8}" using assms by auto
  have t: "take (nat (reg_size reg)) ([p 0, p 1, p 2, p 3] @ replicate 4 0) =
      (if reg_size reg = 1 then stb_p (ucast (ucast ?t :: u64)) else if reg_size reg = 4 then stl_p ?t else stq_p (ucast ?t))"
    using assms by (subst bytes_of_ldl_take) (auto simp: reg_size_def gdb_num_core_regs_def)
  show "ppdl_cpu_gdb_read_register (fst (ppdl_cpu_gdb_write_register s p reg)) reg =
      (take (nat (reg_size reg)) ([p 0, p 1, p 2, p 3] @ replicate 4 0), reg_size reg)"
    unfolding w t using assms write_params_read(1) [OF p, of reg s ?t]
    by (auto simp: ppdl_cpu_gdb_read_register_def read_gas_def write_gas_def read_bus_def write_bus_def reg_size_def
        gdb_get_reg8_def gdb_get_reg32_def gdb_get_reg64_def gdb_num_core_regs_def)
  show "r \<noteq> reg \<Longrightarrow> ppdl_cpu_gdb_read_register (fst (ppdl_cpu_gdb_write_register s p reg)) r = ppdl_cpu_gdb_read_register s r"
    unfolding w using assms p by (simp add: write_params_read(2) write_array_read gdb_num_core_regs_def)
  show "snd (ppdl_cpu_gdb_write_register s p reg) = reg_size reg"
    unfolding w using assms p by (auto simp: write_defs reg_size_def gdb_num_core_regs_def)
qed

lemma write_rejected:
  assumes "reg < 0 \<or> gdb_num_core_regs < reg"
  shows "ppdl_cpu_gdb_write_register s p reg = (s, if reg < 0 then 8 else 0)"
  using assms by (auto simp: ppdl_cpu_gdb_write_register_def gdb_num_core_regs_def)

text \<open>C23: a register up to number 152 keeps what the debugger writes into it, cut to the size of the register and to 32 bits: the
  upper half of a 64-bit register is cleared. Writing and reading agree on the size, and no other register changes.\<close>

theorem gdb_write_then_read:
  assumes "0 \<le> reg" and "reg \<le> 152" and "ppdl_cpu_gdb_write_register s p reg = (s', n)"
  shows "ppdl_cpu_gdb_read_register s' reg = (take (nat n) ([p 0, p 1, p 2, p 3] @ replicate 4 0), n)
    \<and> (\<forall>r. r \<noteq> reg \<longrightarrow> ppdl_cpu_gdb_read_register s' r = ppdl_cpu_gdb_read_register s r)"
proof -
  have r: "reg \<le> gdb_num_core_regs" using assms(2) by (simp add: gdb_num_core_regs_def)
  have "fst (ppdl_cpu_gdb_write_register s p reg) = s'" "snd (ppdl_cpu_gdb_write_register s p reg) = n" using assms(3) by simp_all
  then show ?thesis using write_read [OF assms(1) r, where s = s and p = p] by simp
qed

theorem gdb_write_then_read_witness:
  "ppdl_cpu_gdb_read_register (zero_cpu \<lparr> gas_price := 0x44332211 \<rparr>) 4 = ([0x11, 0x22, 0x33, 0x44, 0, 0, 0, 0], 8)"
proof -
  let ?p = "\<lambda>i. if i = 0 then 0x11 else if i = 1 then 0x22 else if i = 2 then 0x33 else if i = 3 then 0x44 else (0x55 :: u8)"
  have "ldl_p ?p = 0x44332211" by (simp add: ldl_p_def upt_4)
  then have "ppdl_cpu_gdb_write_register zero_cpu ?p 4 = (zero_cpu \<lparr> gas_price := 0x44332211 \<rparr>, 8)"
    by (simp add: ppdl_cpu_gdb_write_register_def gdb_num_core_regs_def write_params_def)
  from gdb_write_then_read [OF _ _ this] show ?thesis by (simp add: numeral_eq_Suc)
qed

end
