(* ===== verification/Loader.thy ===== *)
theory Loader
  imports Mem_Access
begin

unbundle bit_operations_syntax

text \<open>
  Loading a program: the part of \<^verbatim>\<open>hw/core/loader.c\<close> that \<^verbatim>\<open>hw/ppdl/ppdl.c\<close> reaches with a program file, in the
  build with \<^verbatim>\<open>EVM\<close> defined. A program file is text, two hexadecimal digits per code byte.

  A file is its bytes, or \<open>None\<close> if it cannot be opened; \<open>rc\<close> is what \<^verbatim>\<open>read\<close> returns for it, and the first \<open>rc\<close> bytes
  of the buffer are then those of the file. Sizes of files are \<^verbatim>\<open>off_t\<close> and \<^verbatim>\<open>size_t\<close> in part and \<^verbatim>\<open>int\<close> in part, and the
  conversions to \<^verbatim>\<open>int\<close> are \<open>as_int\<close>; the counter of the decoding loop is an \<^verbatim>\<open>int\<close> too. \<open>tmp\<close> is the content of the local array of digits before its
  first assignment. Images have no firmware file and no memory region of their own, and all of them lie in RAM.
\<close>

section \<open>Decoding\<close>

definition digit_value :: "u8 \<Rightarrow> u8" where
  "digit_value c =
     (if c \<ge> 0x30 \<and> c \<le> 0x39 then c - 0x30
      else if c \<ge> 0x41 \<and> c \<le> 0x46 then c - 0x41 + 0xA
      else if c \<ge> 0x61 \<and> c \<le> 0x66 then c - 0x61 + 0xA
      else c)"

fun decode_loop :: "nat \<Rightarrow> u8 list \<Rightarrow> u8 \<times> u8 \<Rightarrow> u8 list \<Rightarrow> u8 list" where
  "decode_loop k [] tmp data = data"
| "decode_loop k (c # cs) tmp data =
     (let tmp' = (if k mod 2 = 0 then (digit_value c, snd tmp) else (fst tmp, digit_value c));
          data' = (if k mod 2 \<noteq> 0 then data @ [push_bit 4 (fst tmp') + snd tmp'] else data)
      in decode_loop (k + 1) cs tmp' data')"

section \<open>Images\<close>

record rom =
  raddr :: u64
  romsize :: nat
  datasize :: nat
  rdata :: "u8 list"

record loader =
  roms :: "rom list"
  prog_end :: nat
  roms_loaded :: bool

fun insert_by_addr :: "rom \<Rightarrow> rom list \<Rightarrow> rom list" where
  "insert_by_addr r [] = [r]"
| "insert_by_addr r (item # items) = (if raddr r \<ge> raddr item then item # insert_by_addr r items else r # item # items)"

definition rom_insert :: "rom \<Rightarrow> loader \<Rightarrow> loader run" where
  "rom_insert r L = (if roms_loaded L then Inl Aborted else Inr (L \<lparr> roms := insert_by_addr r (roms L) \<rparr>))"

definition c_half :: "int \<Rightarrow> int" where
  "c_half n = (if n < 0 then - (- n div 2) else n div 2)"

definition rom_add_file :: "u8 \<times> u8 \<Rightarrow> u8 list option \<Rightarrow> int \<Rightarrow> u64 \<Rightarrow> loader \<Rightarrow> (int \<times> loader) run" where
  "rom_add_file tmp file rc addr L =
     (case file of
        None \<Rightarrow> Inr (- 1, L)
      | Some content \<Rightarrow>
          let size = length content; got = take (nat rc) content;
              origin_data = got @ replicate (size - length got) 0
          in if size \<ge> 2 ^ 31 then Inl SignedOverflow
             else let r = \<lparr> raddr = addr, romsize = size, datasize = size div 2, rdata = decode_loop 0 origin_data tmp [] \<rparr>;
                      L' = L \<lparr> prog_end := size div 2 \<rparr>
                  in if c_half (as_int rc) \<noteq> int (size div 2) then Inr (- 1, L')
                     else rbind (rom_insert r L') (\<lambda>L''. Inr (0, L'')))"

definition get_image_size :: "u8 list option \<Rightarrow> int" where
  "get_image_size file = (case file of None \<Rightarrow> - 1 | Some content \<Rightarrow> as_int (int (length content)))"

text \<open>
  The comparison with the room in memory is unsigned, so that a file that cannot be opened is too large, and so is one of
  2 to 4 gigabytes, whose size is negative as an \<^verbatim>\<open>int\<close>.
\<close>

definition load_image_targphys :: "u8 \<times> u8 \<Rightarrow> u8 list option \<Rightarrow> int \<Rightarrow> u64 \<Rightarrow> u64 \<Rightarrow> loader \<Rightarrow> (int \<times> loader) run" where
  "load_image_targphys tmp file rc addr max_sz L =
     (let size = get_image_size file in
      if (of_int size :: u64) > max_sz then Inr (- 1, L)
      else if size > 0 then rbind (rom_add_file tmp file rc addr L) (\<lambda>(_, L'). Inr (size, L')) else Inr (size, L))"

definition write_bytes :: "u64 \<Rightarrow> u8 list \<Rightarrow> (u64 \<Rightarrow> u8) \<Rightarrow> u64 \<Rightarrow> u8" where
  "write_bytes addr bs mem = fold (\<lambda>i mem. mem(addr + of_nat i := bs ! i)) [0..<length bs] mem"

definition rom_reset :: "rom list \<Rightarrow> (u64 \<Rightarrow> u8) \<Rightarrow> u64 \<Rightarrow> u8" where
  "rom_reset rs mem = fold (\<lambda>r. write_bytes (raddr r) (rdata r)) rs mem"

fun overlap_check :: "rom list \<Rightarrow> u64 \<Rightarrow> bool" where
  "overlap_check [] addr = True"
| "overlap_check (r # rs) addr =
     (if addr > raddr r then False else overlap_check rs (raddr r + of_nat (romsize r)))"

definition rom_load_all :: "rom list \<Rightarrow> int" where
  "rom_load_all rs = (if overlap_check rs 0 then 0 else - 1)"

definition rom_load_done :: "loader \<Rightarrow> loader" where
  "rom_load_done L = L \<lparr> roms_loaded := True \<rparr>"

text \<open>The text of a code byte, in either case; \<open>up\<close> tells for every byte which digits to use.\<close>

definition digit_char :: "bool \<Rightarrow> u8 \<Rightarrow> u8" where
  "digit_char up n = (if n < 10 then 0x30 + n else if up then 0x41 + (n - 10) else 0x61 + (n - 10))"

fun hex_text :: "(bool \<times> u8) list \<Rightarrow> u8 list" where
  "hex_text [] = []"
| "hex_text ((up, b) # bs) = digit_char up (drop_bit 4 b) # digit_char up (b AND 0xF) # hex_text bs"

section \<open>Decoding inverts printing\<close>

lemma digit_value_char:
  assumes "n < 16"
  shows "digit_value (digit_char up n) = n"
proof -
  have "unat n < 16" using assms by (simp add: word_less_nat_alt)
  moreover have "list_all (\<lambda>m. digit_value (digit_char True (of_nat m)) = of_nat m \<and> digit_value (digit_char False (of_nat m)) = of_nat m) [0..<16]"
    by code_simp
  ultimately have "digit_value (digit_char True n) = n \<and> digit_value (digit_char False n) = n"
    by (auto simp: list_all_iff dest: bspec [of _ _ "unat n"])
  then show ?thesis by (cases up) simp_all
qed

lemma nibbles: "drop_bit 4 (b :: u8) < 16" "(b AND 0xF) < 16" "push_bit 4 (drop_bit 4 b) + (b AND 0xF) = b"
proof -
  have m: "(0xF :: u8) = mask 4" by (simp add: mask_eq_exp_minus_1)
  show "drop_bit 4 b < 16" by (simp add: word_less_nat_alt) (use unat_lt8 [of b] in linarith)
  have "unat (b AND 0xF) < 16" by (simp add: m unsigned_take_bit_eq flip: take_bit_eq_mask) (simp add: take_bit_eq_mod)
  then show "(b AND 0xF) < 16" by (simp add: word_less_nat_alt)
  show "push_bit 4 (drop_bit 4 b) + (b AND 0xF) = b"
    by (subst disjunctive_add) (auto simp: bit_simps m intro!: bit_word_eqI)
qed

lemma decode_append: "decode_loop k cs tmp data = data @ decode_loop k cs tmp []"
proof (induction cs arbitrary: k tmp data)
  case (Cons c cs)
  show ?case unfolding decode_loop.simps Let_def
    by (subst Cons.IH, subst (2) Cons.IH) simp
qed simp

lemma decode_hex_text: "even k \<Longrightarrow> length tail \<le> 1 \<Longrightarrow> decode_loop k (hex_text bs @ tail) tmp [] = map snd bs"
proof (induction bs arbitrary: k tmp rule: hex_text.induct)
  case 1
  then show ?case by (cases tail) auto
next
  case (2 up b bs)
  then have "(Suc k) mod 2 = 1" "k mod 2 = 0" by presburger+
  then show ?case
    using 2 by (subst hex_text.simps) (simp add: Let_def digit_value_char nibbles decode_append [of _ _ _ "[b]"])
qed

lemma length_decode: "length (decode_loop k cs tmp []) = (length cs + k mod 2) div 2"
proof (induction cs arbitrary: k tmp)
  case (Cons c cs)
  show ?case
  proof (cases "k mod 2 = 0")
    case True
    then have "Suc k mod 2 = 1" by presburger
    with True Cons show ?thesis by (simp add: Let_def)
  next
    case False
    then have "Suc k mod 2 = 0" "k mod 2 = 1" by presburger+
    with False Cons show ?thesis by (simp add: Let_def decode_append [of _ _ _ "[x]" for x])
  qed
qed simp

lemma length_hex_text [simp]: "length (hex_text bs) = 2 * length bs"
  by (induction bs rule: hex_text.induct) simp_all

section \<open>Images in memory\<close>

lemma write_bytes_at:
  assumes "length bs \<le> 2 ^ 64" and "i < length bs"
  shows "write_bytes addr bs mem (addr + of_nat i) = bs ! i"
proof -
  have "fold (\<lambda>i mem. mem(addr + of_nat i := bs ! i)) [0..<n] mem (addr + of_nat i) = bs ! i" if "i < n" "n \<le> 2 ^ 64" for n
    using that
  proof (induction n)
    case (Suc n)
    then have "of_nat i = (of_nat n :: u64) \<longleftrightarrow> i = n" by (simp add: word_unat_eq_iff unat_of_nat)
    with Suc show ?case by (cases "i = n") simp_all
  qed simp
  with assms show ?thesis by (simp add: write_bytes_def)
qed

lemma as_int_small: "0 \<le> v \<Longrightarrow> v < 2 ^ 31 \<Longrightarrow> as_int v = v"
  by (simp add: as_int_def signed_of_int signed_take_bit_int_eq_self)

lemma as_int_gigabytes: "2 ^ 31 \<le> v \<Longrightarrow> v < 2 ^ 32 \<Longrightarrow> as_int v = v - 2 ^ 32"
proof -
  assume v: "2 ^ 31 \<le> v" "v < 2 ^ 32"
  have "(v + 2 ^ 31) mod 2 ^ 32 = (v + 2 ^ 31 - 2 ^ 32) mod 2 ^ 32" by (rule minus_mod_self2 [symmetric])
  also have "\<dots> = v + 2 ^ 31 - 2 ^ 32" using v by (intro mod_pos_pos_trivial) simp_all
  finally show ?thesis by (simp add: as_int_def signed_of_int signed_take_bit_eq_take_bit_shift take_bit_eq_mod)
qed

lemma loaded_image:
  assumes "0 < length bs" and "of_nat (2 * length bs + length tail) \<le> max_sz" and "2 * length bs + length tail < 2 ^ 31"
    and "length tail \<le> 1" and "sz = 2 * length bs + length tail" and "\<not> roms_loaded L"
  shows "load_image_targphys tmp (Some (hex_text bs @ tail)) (int sz) addr max_sz L =
    Inr (int sz, L \<lparr> prog_end := length bs,
       roms := insert_by_addr \<lparr> raddr = addr, romsize = sz, datasize = length bs, rdata = map snd bs \<rparr> (roms L) \<rparr>)"
proof -
  have a: "as_int (int sz) = int sz" using assms(3,5) by (intro as_int_small) simp_all
  have h: "sz div 2 = length bs" "c_half (int sz) = int (length bs)" using assms(4,5) by (auto simp: c_half_def)
  have z: "length (hex_text bs @ tail) = sz" using assms(5) by simp
  have "decode_loop 0 (hex_text bs @ tail) tmp [] = map snd bs" using assms(4) by (intro decode_hex_text) simp_all
  then have "rom_add_file tmp (Some (hex_text bs @ tail)) (int sz) addr L = Inr (0, L \<lparr> prog_end := length bs,
       roms := insert_by_addr \<lparr> raddr = addr, romsize = sz, datasize = length bs, rdata = map snd bs \<rparr> (roms L) \<rparr>)"
    using assms(3,5,6) unfolding rom_add_file_def option.case z Let_def a h by (simp add: z rom_insert_def)
  moreover have "\<not> (of_int (int sz) :: u64) > max_sz" using assms(2,5) by (simp add: not_less)
  moreover have "0 < int sz" using assms(1,5) by linarith
  ultimately show ?thesis
    unfolding load_image_targphys_def get_image_size_def option.case z Let_def a by (simp only: if_False if_True rbind_simps prod.case)
qed

text \<open>C11: a program printed as hexadecimal digits of either case, with at most one character behind them, is loaded back byte by
  byte: memory holds it from the load address, and the end of the program is its length. This needs a text of less than two
  gigabytes; one of two to four gigabytes is taken to be too large whatever the memory, and nothing is loaded.\<close>

theorem program_text_round_trip:
  assumes "0 < length bs" and "length tail \<le> 1" and "sz = 2 * length bs + length tail"
    and "L0 = \<lparr> roms = [], prog_end = e, roms_loaded = False \<rparr>"
  shows "(sz < 2 ^ 31 \<and> of_nat sz \<le> max_sz \<longrightarrow>
      (\<exists>L. load_image_targphys tmp (Some (hex_text bs @ tail)) (int sz) addr max_sz L0 = Inr (int sz, L)
        \<and> prog_end L = length bs \<and> rom_load_all (roms L) = 0
        \<and> (\<forall>mem. \<forall>i < length bs. rom_reset (roms L) mem (addr + of_nat i) = snd (bs ! i))))
    \<and> (2 ^ 31 \<le> sz \<and> sz < 2 ^ 32 \<and> max_sz < 2 ^ 63 \<longrightarrow>
      load_image_targphys tmp (Some (hex_text bs @ tail)) rc addr max_sz L0 = Inr (- 1, L0))"
proof (intro conjI impI)
  assume a: "sz < 2 ^ 31 \<and> of_nat sz \<le> max_sz"
  define L where "L = L0 \<lparr> prog_end := length bs,
    roms := insert_by_addr \<lparr> raddr = addr, romsize = sz, datasize = length bs, rdata = map snd bs \<rparr> (roms L0) \<rparr>"
  have "load_image_targphys tmp (Some (hex_text bs @ tail)) (int sz) addr max_sz L0 = Inr (int sz, L)"
    unfolding L_def using assms a by (intro loaded_image) simp_all
  moreover have "length (map snd bs) \<le> 2 ^ 64" using a assms(3) by simp
  ultimately show "\<exists>L. load_image_targphys tmp (Some (hex_text bs @ tail)) (int sz) addr max_sz L0 = Inr (int sz, L)
        \<and> prog_end L = length bs \<and> rom_load_all (roms L) = 0
        \<and> (\<forall>mem. \<forall>i < length bs. rom_reset (roms L) mem (addr + of_nat i) = snd (bs ! i))"
    using write_bytes_at [of "map snd bs" _ addr] by (intro exI [of _ L]) (simp add: L_def assms(4) rom_load_all_def rom_reset_def)
next
  assume a: "2 ^ 31 \<le> sz \<and> sz < 2 ^ 32 \<and> max_sz < 2 ^ 63"
  define d where "d = int sz - 2 ^ 32"
  have "uint (of_int d :: u64) = (d + 2 ^ 64) mod 2 ^ 64" by (simp add: uint_word_of_int)
  also have "\<dots> = d + 2 ^ 64" using a by (intro mod_pos_pos_trivial) (simp_all add: d_def)
  finally have "(of_int d :: u64) > max_sz" using a by (simp add: word_less_alt d_def)
  moreover have "get_image_size (Some (hex_text bs @ tail)) = d"
    using a as_int_gigabytes [of "int sz"] by (simp add: get_image_size_def assms(3) d_def)
  ultimately show "load_image_targphys tmp (Some (hex_text bs @ tail)) rc addr max_sz L0 = Inr (- 1, L0)"
    by (simp add: load_image_targphys_def Let_def)
qed

theorem program_text_round_trip_witness:
  "\<exists>L. load_image_targphys (0, 0) (Some [0x36, 0x30, 0x46, 0x46, 10]) 5 0 1024 \<lparr> roms = [], prog_end = 0, roms_loaded = False \<rparr> = Inr (5, L)
     \<and> prog_end L = 2 \<and> rom_reset (roms L) (\<lambda>_. 0) 0 = 0x60 \<and> rom_reset (roms L) (\<lambda>_. 0) 1 = 0xFF"
proof -
  let ?bs = "[(True, 0x60), (True, 0xFF)] :: (bool \<times> u8) list"
  have t: "hex_text ?bs @ [10] = [0x36, 0x30, 0x46, 0x46, 10]" by (simp add: digit_char_def)
  obtain L where L: "load_image_targphys (0, 0) (Some (hex_text ?bs @ [10])) (int 5) 0 1024
      \<lparr> roms = [], prog_end = 0, roms_loaded = False \<rparr> = Inr (int 5, L)" "prog_end L = length ?bs"
      "\<And>i. i < length ?bs \<Longrightarrow> rom_reset (roms L) (\<lambda>_. 0) (0 + of_nat i) = snd (?bs ! i)"
    using program_text_round_trip [of ?bs "[10]" 5 _ 0, OF _ _ _ refl, of 1024 "(0, 0)" 0] by auto
  from L(1,2) L(3) [of 0] L(3) [of 1] show ?thesis unfolding t by auto
qed

end
