(* ===== verification/Trace_Options.thy ===== *)
theory Trace_Options
  imports Mem_Access
begin

unbundle bit_operations_syntax

text \<open>
  The tracing options: the table of register names of \<^verbatim>\<open>include/qemu/trace_regs.h\<close>, the parsers of the option arguments in
  \<^verbatim>\<open>qemu-trace.c\<close>, and the part of the command line of \<^verbatim>\<open>vl.c\<close> that sets the flags of the emulator.

  The list of traced registers is an array of 3091 elements with a terminator behind the last entry; the
  model has the entries, and every store checks the bound. A text is the characters before its terminator.
  A process that ends in a parser leaves its exit status and what the parser wrote to standard output.
\<close>

section \<open>The table of registers\<close>

definition bus_items :: "(string \<times> nat) list" where
  "bus_items = map (\<lambda>i. (''data_bus'' @ fmt_d i, 13 + i)) [0..<1024]"

definition stack_items :: "(string \<times> nat) list" where
  "stack_items = map (\<lambda>i. (''stack_arr'' @ fmt_d i, 1037 + i)) [0..<2048]"

definition qemu_reg_trace_items :: "(string \<times> nat) list" where
  "qemu_reg_trace_items =
     [(''pc'', 0), (''cur_addr'', 1), (''caller_addr'', 2), (''origin_addr'', 3), (''gas_price'', 4),
      (''ext_code_size'', 5), (''inp_data_size'', 6), (''log_ptr'', 7), (''sp'', 8),
      (''gas_available0'', 9), (''gas_available1'', 10), (''gas_available2'', 11), (''gas_available3'', 12)]
     @ bus_items @ stack_items
     @ [(''CoinBase'', 3085), (''TimeStamp'', 3086), (''Number'', 3087), (''Difficulty'', 3088), (''GasLimit'', 3089)]"

definition REGTRACE_LIST_LEN :: nat where "REGTRACE_LIST_LEN = 3091"

section \<open>Parsing a list of registers\<close>

definition newline :: string where "newline = [char_of (10 :: nat)]"

definition pad_right :: "nat \<Rightarrow> string \<Rightarrow> string" where
  "pad_right n s = s @ replicate (n - length s) (CHR '' '')"

definition qemu_print_reg_trace_usage :: string where
  "qemu_print_reg_trace_usage =
     ''Register trace items (comma separated):'' @ newline @ ''all'' @ newline
     @ concat (map (\<lambda>(name, _). pad_right 16 name) qemu_reg_trace_items)
     @ newline @ newline @ ''Example usage:'' @ newline @ ''nmc-qemu -regtrace all'' @ newline
     @ ''nmc-qemu -regtrace gr0,ar7,wbuf25'' @ newline"

definition regmatch :: "string \<Rightarrow> nat \<Rightarrow> string \<Rightarrow> bool" where
  "regmatch s1 n s2 = (if length s2 \<noteq> n then False else take n s1 = s2)"

definition token_len :: "string \<Rightarrow> nat" where
  "token_len p = length (takeWhile (\<lambda>c. c \<noteq> CHR '','') p)"

definition store_index :: "nat \<Rightarrow> nat list \<Rightarrow> nat list run" where
  "store_index i xs = (if length xs < REGTRACE_LIST_LEN then Inr (xs @ [i]) else Inl OutOfBounds)"

definition store_end :: "nat list \<Rightarrow> nat list run" where
  "store_end xs = (if length xs < REGTRACE_LIST_LEN then Inr xs else Inl OutOfBounds)"

fun store_items :: "(string \<times> nat) list \<Rightarrow> nat list \<Rightarrow> nat list run" where
  "store_items [] xs = Inr xs"
| "store_items (item # items) xs = rbind (store_index (snd item) xs) (store_items items)"

function trace_list_loop :: "string \<Rightarrow> nat list \<Rightarrow> nat list run" where
  "trace_list_loop p xs =
     (let n = token_len p in
      if regmatch p n ''help'' then Inl (Exited (- 1) qemu_print_reg_trace_usage)
      else if regmatch p n ''all'' then rbind (store_items qemu_reg_trace_items xs) store_end
      else case find (\<lambda>item. regmatch p n (fst item)) qemu_reg_trace_items of
             None \<Rightarrow> Inl (Exited (- 1) (''Invalid trace list values.'' @ newline @ qemu_print_reg_trace_usage))
           | Some item \<Rightarrow> rbind (store_index (snd item) xs) (\<lambda>xs'.
               if n < length p then trace_list_loop (drop (n + 1) p) xs' else store_end xs'))"
  by pat_completeness auto
termination
  by (relation "measure (\<lambda>(p, xs). length p)") auto

definition qemu_str_to_trace_list :: "string \<Rightarrow> nat list run" where
  "qemu_str_to_trace_list str = trace_list_loop str []"

declare trace_list_loop.simps [simp del]

section \<open>Parsing a list of addresses\<close>

text \<open>
  \<^verbatim>\<open>addrmatch\<close> copies the \<open>n\<close> characters of an address into an array of \<open>n\<close> characters and takes its length with
  \<^verbatim>\<open>strlen\<close>: without a terminator among them the array is read past its end.
\<close>

definition addrmatch :: "string \<Rightarrow> nat \<Rightarrow> bool run" where
  "addrmatch s n =
     (let addrstring = take n s in
      if nul \<notin> set addrstring then Inl OutOfBounds
      else let len = length (takeWhile (\<lambda>c. c \<noteq> nul) addrstring); addr = as_int (strtol0 (take len addrstring))
      in Inr (len \<le> 10 \<and> list_all isxdigit (drop 2 addrstring)
              \<and> addr \<ge> 0 \<and> (addr \<le> 0xBFFFF \<or> addr \<ge> 0x20000000) \<and> addr \<le> 0x3FFFFFFF))"

definition qemu_print_mem_trace_usage :: string where
  "qemu_print_mem_trace_usage =
     (let tab = [char_of (9 :: nat)] in
      ''Memory trace items (comma separated):'' @ newline
      @ tab @ ''all'' @ newline @ tab @ ''0x[F...]'' @ newline @ tab @ ''0x[F...]-0x[F...]'' @ newline
      @ newline @ ''Available address spaces:'' @ newline
      @ tab @ ''1) RAM [ 0x0 - 0xBFFFF ]'' @ newline @ tab @ ''2) DDR [ 0x20000000 - 0x3FFFFFFF ]'' @ newline)"

text \<open>One address or range at the start of \<open>p\<close>, \<open>n\<close> characters long; \<open>d\<close> is the offset of the first dash, if there is one.\<close>

definition memtrace_entry :: "string \<Rightarrow> nat \<Rightarrow> bool run" where
  "memtrace_entry p n =
     (if take 2 p \<noteq> ''0x'' then Inr False
      else let d = length (takeWhile (\<lambda>c. c \<noteq> CHR ''-'') p) in
        if d < n \<and> 0 < d
        then rbind (addrmatch p d) (\<lambda>a. if a then addrmatch (drop (d + 1) p) (n - d - 1) else Inr False)
        else addrmatch p n)"

function memtrace_loop :: "string \<Rightarrow> string list \<Rightarrow> string list run" where
  "memtrace_loop p es =
     (let n = token_len p in
      if regmatch p n ''help'' then Inl (Exited (- 1) qemu_print_mem_trace_usage)
      else if regmatch p n ''all'' then Inr [''0x0-0xBFFFF'', ''0x20000000-0x3FFFFFFF'']
      else rbind (memtrace_entry p n) (\<lambda>found.
        if \<not> found then Inl (Exited (- 1) (''Invalid trace list values.'' @ newline @ qemu_print_mem_trace_usage))
        else if length es \<ge> 100 \<or> n > 22 then Inl OutOfBounds
        else if n < length p then memtrace_loop (drop (n + 1) p) (es @ [take n p])
        else if length es + 1 \<ge> 100 then Inl OutOfBounds else Inr (es @ [take n p])))"
  by pat_completeness auto
termination
  by (relation "measure (\<lambda>(p, xs). length p)") auto

definition qemu_str_to_memtrace_list :: "string \<Rightarrow> string list run" where
  "qemu_str_to_memtrace_list str = memtrace_loop str []"

declare memtrace_loop.simps [simp del]

section \<open>Command line\<close>

text \<open>
  The options of the emulator proper. Messages go to standard error and are left out; \<open>use_tlm\<close> is set by the option
  that selects the machine. The case of \<^verbatim>\<open>tlmdbg\<close> runs on into the next one.
\<close>

datatype ppdl_option =
    Rv | No_semihosting | Tick_enable | Ppdl_trace | Ppdl_ctrace | Regtrace string | Memtrace string
  | No_debug | We | Tlmdebug | Fixed_insns | Float_insns | Gas string

record flags =
  change_ret :: bool
  semihosting :: bool
  print_ticks :: bool
  with_gdb_exit :: bool
  f_tracer :: bool
  f_ctracer :: bool
  f_regtracer :: bool
  f_reg_list :: "nat list"
  f_memtracer :: bool
  only_fixed :: bool
  only_floating :: bool
  f_mem_list :: "string list"
  debug_on :: bool
  use_tlm :: bool
  tlm_debug :: bool
  gas_limit :: u64

definition default_flags :: flags where
  "default_flags = \<lparr> change_ret = False, semihosting = True, print_ticks = False, with_gdb_exit = False, f_tracer = False,
     f_ctracer = False, f_regtracer = False, f_reg_list = [], f_memtracer = False, only_fixed = False, only_floating = False,
     f_mem_list = [], debug_on = True, use_tlm = False, tlm_debug = False, gas_limit = 10000000000 \<rparr>"

definition GAS_DEFAULT_VALUE :: u64 where "GAS_DEFAULT_VALUE = 0xFFFFFFFFFFFFFFFF"

fun handle_option :: "ppdl_option \<Rightarrow> flags \<Rightarrow> flags run" where
  "handle_option Rv f = Inr (f \<lparr> change_ret := True \<rparr>)"
| "handle_option No_semihosting f = Inr (f \<lparr> semihosting := False \<rparr>)"
| "handle_option Tick_enable f = Inr (f \<lparr> f_tracer := True, print_ticks := True \<rparr>)"
| "handle_option Ppdl_trace f = Inr (f \<lparr> f_ctracer := False, f_tracer := True \<rparr>)"
| "handle_option Ppdl_ctrace f = Inr (if \<not> f_tracer f \<and> \<not> f_regtracer f then f \<lparr> f_ctracer := True \<rparr> else f)"
| "handle_option (Regtrace optarg) f =
     rbind (qemu_str_to_trace_list optarg) (\<lambda>xs.
       if xs = [] then Inl (Exited 1 qemu_print_reg_trace_usage)
       else Inr (f \<lparr> f_ctracer := False, f_regtracer := True, f_reg_list := xs \<rparr>))"
| "handle_option (Memtrace optarg) f =
     rbind (qemu_str_to_memtrace_list optarg) (\<lambda>es.
       if es = [] then Inl (Exited 1 qemu_print_mem_trace_usage)
       else Inr (f \<lparr> f_memtracer := True, f_mem_list := es \<rparr>))"
| "handle_option No_debug f = Inr (f \<lparr> debug_on := False \<rparr>)"
| "handle_option We f = Inr (f \<lparr> with_gdb_exit := True \<rparr>)"
| "handle_option Tlmdebug f =
     (if use_tlm f then Inr (f \<lparr> tlm_debug := True, only_fixed := True \<rparr>) else Inl (Exited 1 []))"
| "handle_option Fixed_insns f = Inr (f \<lparr> only_fixed := True \<rparr>)"
| "handle_option Float_insns f = Inr (f \<lparr> only_floating := True \<rparr>)"
| "handle_option (Gas optarg) f =
     (let g = of_int (strtol0 optarg) in Inr (f \<lparr> gas_limit := (if g = 0 then GAS_DEFAULT_VALUE else g) \<rparr>))"

fun handle_options :: "ppdl_option list \<Rightarrow> flags \<Rightarrow> flags run" where
  "handle_options [] f = Inr f"
| "handle_options (x # xs) f = rbind (handle_option x f) (handle_options xs)"

definition exclusive :: "flags \<Rightarrow> bool" where
  "exclusive f \<longleftrightarrow> \<not> (f_ctracer f \<and> (f_tracer f \<or> f_regtracer f))"

text \<open>The argument that lists the given names.\<close>

fun comma_list :: "string list \<Rightarrow> string" where
  "comma_list [] = []"
| "comma_list [x] = x"
| "comma_list (x # y # zs) = x @ CHR '','' # comma_list (y # zs)"

definition index_of :: "string \<Rightarrow> nat" where
  "index_of name = the (map_of qemu_reg_trace_items name)"

section \<open>Names\<close>

lemma regmatch_token: "regmatch p (token_len p) s \<longleftrightarrow> takeWhile (\<lambda>c. c \<noteq> CHR '','') p = s"
  by (auto simp: regmatch_def token_len_def takeWhile_eq_take [symmetric])

lemma dec_val_append: "dec_val (s @ [c]) = 10 * dec_val s + (code_of c - 48)"
  by (simp add: dec_val_def)

lemma dec_val_fmt_d: "dec_val (fmt_d n) = n"
proof (induction n rule: fmt_d.induct)
  case (1 n)
  show ?case
  proof (cases "n < 10")
    case True
    then show ?thesis by (simp add: dec_val_def)
  next
    case False
    then have "fmt_d n = fmt_d (n div 10) @ [char_of (48 + n mod 10)]" by (simp add: fmt_d.simps [of n] del: fmt_d.simps)
    moreover have "48 + n mod 10 < 256" by (simp add: trans_less_add1)
    ultimately show ?thesis using 1 [OF False] by (simp add: dec_val_append del: fmt_d.simps)
  qed
qed

lemma fmt_d_inject: "fmt_d m = fmt_d n \<longleftrightarrow> m = n"
  by (metis dec_val_fmt_d)

lemma fmt_d_digits: "c \<in> set (fmt_d n) \<Longrightarrow> isdigit c"
proof (induction n rule: fmt_d.induct)
  case (1 n)
  then show ?case by (cases "n < 10") (auto simp: fmt_d.simps [of n] isdigit_def simp del: fmt_d.simps)
qed

lemma find_map_of: "find (\<lambda>item. k = fst item) xs = map_option (Pair k) (map_of xs k)"
  by (induction xs) auto

lemma names_of_arrays:
  "map fst bus_items = map (\<lambda>i. ''data_bus'' @ fmt_d i) [0..<1024]" "map fst stack_items = map (\<lambda>i. ''stack_arr'' @ fmt_d i) [0..<2048]"
  by (simp_all add: bus_items_def stack_items_def comp_def del: fmt_d.simps append_Cons)

lemma distinct_names: "distinct (map fst qemu_reg_trace_items)"
  unfolding qemu_reg_trace_items_def map_append distinct_append names_of_arrays
  by (auto simp: distinct_map inj_on_def fmt_d_inject simp del: fmt_d.simps)

lemma item_name:
  assumes "name \<in> fst ` set qemu_reg_trace_items"
  shows "name \<noteq> ''help''" "name \<noteq> ''all''" "CHR '','' \<notin> set name"
proof -
  have "CHR '','' \<notin> set (fmt_d n)" for n using fmt_d_digits [of "CHR '',''" n] by (auto simp: isdigit_def simp del: fmt_d.simps)
  with assms show "name \<noteq> ''help''" "name \<noteq> ''all''" "CHR '','' \<notin> set name"
    by (auto simp: qemu_reg_trace_items_def bus_items_def stack_items_def simp del: fmt_d.simps)
qed

lemma length_items: "length qemu_reg_trace_items = 3090"
  by (simp add: qemu_reg_trace_items_def bus_items_def stack_items_def)

lemma token_of_list:
  assumes "CHR '','' \<notin> set x"
  shows "takeWhile (\<lambda>c. c \<noteq> CHR '','') (comma_list (x # xs)) = x" "token_len (comma_list (x # xs)) = length x"
proof -
  show "takeWhile (\<lambda>c. c \<noteq> CHR '','') (comma_list (x # xs)) = x"
    using assms by (cases xs) (auto simp: takeWhile_append)
  then show "token_len (comma_list (x # xs)) = length x" by (simp add: token_len_def)
qed

lemma first_match: "CHR '','' \<notin> set x \<Longrightarrow> regmatch (comma_list (x # xs)) (length x) t \<longleftrightarrow> x = t"
  using regmatch_token [of "comma_list (x # xs)" t] token_of_list [of x xs] by simp

lemma distinct_indices: "distinct (map snd qemu_reg_trace_items)"
  by (auto simp: qemu_reg_trace_items_def bus_items_def stack_items_def distinct_map inj_on_def simp del: upt_rec_numeral fmt_d.simps)

lemma index_inject:
  assumes "map_of qemu_reg_trace_items a = Some i" and "map_of qemu_reg_trace_items b = Some i"
  shows "a = b"
  using assms [THEN map_of_SomeD] distinct_indices by (fastforce simp: distinct_map inj_on_def)

lemma name_index: "name \<in> fst ` set qemu_reg_trace_items \<Longrightarrow> map_of qemu_reg_trace_items name = Some (index_of name)"
  by (auto simp: index_of_def distinct_names)

lemma trace_list_names:
  assumes "ns \<noteq> []" and "set ns \<subseteq> fst ` set qemu_reg_trace_items" and "length xs + length ns < REGTRACE_LIST_LEN"
  shows "trace_list_loop (comma_list ns) xs = Inr (xs @ map index_of ns)"
  using assms
proof (induction ns arbitrary: xs rule: comma_list.induct)
  case (2 x)
  then have n: "x \<in> fst ` set qemu_reg_trace_items" by simp
  note t = token_of_list(2) [OF item_name(3) [OF n], of "[]"] first_match [OF item_name(3) [OF n], of "[]"]
  show ?case using 2 item_name [OF n] name_index [OF n]
    by (subst trace_list_loop.simps) (simp add: Let_def t [simplified] find_map_of store_index_def store_end_def)
next
  case (3 x y zs)
  have n: "x \<in> fst ` set qemu_reg_trace_items" using 3 by simp
  note t = token_of_list(2) [OF item_name(3) [OF n], of "y # zs"] first_match [OF item_name(3) [OF n], of "y # zs"]
  show ?case using 3 item_name [OF n] name_index [OF n]
    by (subst trace_list_loop.simps) (simp add: Let_def t [simplified] find_map_of store_index_def)
qed simp

lemma store_items_append: "length xs + length items \<le> REGTRACE_LIST_LEN \<Longrightarrow> store_items items xs = Inr (xs @ map snd items)"
  by (induction items arbitrary: xs) (simp_all add: store_index_def)

lemma store_items_beyond: "length xs \<le> REGTRACE_LIST_LEN \<Longrightarrow> REGTRACE_LIST_LEN < length xs + length items \<Longrightarrow> store_items items xs = Inl OutOfBounds"
  by (induction items arbitrary: xs) (auto simp: store_index_def)

section \<open>What the parsers accept\<close>

text \<open>C35: an argument that lists up to 3090 register names selects exactly these registers: the parser ends with one index per
  name, and the test made for every register before it is printed holds for the named registers and for no other.\<close>

theorem trace_list_selects:
  assumes "ns \<noteq> []" and "set ns \<subseteq> fst ` set qemu_reg_trace_items" and "length ns \<le> 3090"
  shows "\<exists>xs. qemu_str_to_trace_list (comma_list ns) = Inr xs \<and> length xs = length ns
    \<and> (\<forall>reg idx. qemu_reg_mask False qemu_reg_trace_items xs reg idx \<longleftrightarrow> reg_name reg idx \<in> set ns)"
proof -
  have "qemu_str_to_trace_list (comma_list ns) = Inr (map index_of ns)"
    using trace_list_names [of ns "[]"] assms by (simp add: qemu_str_to_trace_list_def REGTRACE_LIST_LEN_def)
  moreover have "qemu_reg_mask False qemu_reg_trace_items (map index_of ns) reg idx \<longleftrightarrow> reg_name reg idx \<in> set ns" for reg idx
  proof (cases "map_of qemu_reg_trace_items (reg_name reg idx)")
    case None
    then have "reg_name reg idx \<notin> set ns" using assms(2) by (auto simp: map_of_eq_None_iff)
    with None show ?thesis by (simp add: qemu_reg_mask_def)
  next
    case (Some i)
    have "index_of x = i \<longleftrightarrow> x = reg_name reg idx" if "x \<in> set ns" for x
      using that assms(2) Some name_index [of x] index_inject [of x i "reg_name reg idx"] by (metis option.inject subsetD)
    with Some show ?thesis by (auto simp: qemu_reg_mask_def list_ex_iff)
  qed
  ultimately show ?thesis by auto
qed

theorem trace_list_selects_witness:
  "\<exists>xs. qemu_str_to_trace_list ''pc,sp'' = Inr xs \<and> length xs = 2
    \<and> (\<forall>reg idx. qemu_reg_mask False qemu_reg_trace_items xs reg idx \<longleftrightarrow> reg_name reg idx \<in> {''pc'', ''sp''})"
proof -
  have "set [''pc'', ''sp''] \<subseteq> fst ` set qemu_reg_trace_items" by (force simp: qemu_reg_trace_items_def)
  from trace_list_selects [OF _ this] show ?thesis by (simp add: numeral_2_eq_2)
qed

lemma list_then_rest:
  assumes "name \<in> fst ` set qemu_reg_trace_items"
  shows "qemu_str_to_trace_list (name @ CHR '','' # p) = trace_list_loop p [index_of name]"
proof -
  have c: "CHR '','' \<notin> set name" by (rule item_name(3) [OF assms])
  have "takeWhile (\<lambda>c. c \<noteq> CHR '','') (name @ CHR '','' # p) = name" using c by (auto simp: takeWhile_append)
  then have "token_len (name @ CHR '','' # p) = length name" "\<And>t. regmatch (name @ CHR '','' # p) (length name) t \<longleftrightarrow> name = t"
    using regmatch_token [of "name @ CHR '','' # p"] by (simp_all add: token_len_def)
  then show ?thesis unfolding qemu_str_to_trace_list_def using item_name [OF assms] name_index [OF assms]
    by (subst trace_list_loop.simps) (simp add: Let_def find_map_of store_index_def REGTRACE_LIST_LEN_def)
qed

lemma list_all_regs:
  assumes "length xs \<le> 1"
  shows "trace_list_loop ''all'' xs = (if xs = [] then Inr (map snd qemu_reg_trace_items) else Inl OutOfBounds)"
proof -
  have t: "token_len ''all'' = 3" "regmatch ''all'' 3 ''all''" "\<not> regmatch ''all'' 3 ''help''"
    by (simp_all add: token_len_def regmatch_def)
  have "trace_list_loop ''all'' xs = rbind (store_items qemu_reg_trace_items xs) store_end"
    by (subst trace_list_loop.simps) (simp add: Let_def t)
  also have "\<dots> = (if xs = [] then Inr (map snd qemu_reg_trace_items) else Inl OutOfBounds)"
    using assms by (auto simp: store_items_append length_items REGTRACE_LIST_LEN_def store_end_def)
  finally show ?thesis .
qed

text \<open>C36: \<^verbatim>\<open>all\<close> selects all 3090 registers and fills the array to its last element; after any other name it writes one
  element behind the array.\<close>

theorem trace_list_all_bounds:
  assumes "name \<in> fst ` set qemu_reg_trace_items"
  shows "qemu_str_to_trace_list ''all'' = Inr (map snd qemu_reg_trace_items)
    \<and> length qemu_reg_trace_items + 1 = REGTRACE_LIST_LEN
    \<and> qemu_str_to_trace_list (name @ '',all'') = Inl OutOfBounds"
  using list_then_rest [OF assms, of "''all''"] list_all_regs [of "[]"] list_all_regs [of "[index_of name]"]
  by (simp add: qemu_str_to_trace_list_def length_items REGTRACE_LIST_LEN_def)

theorem trace_list_all_bounds_witness: "qemu_str_to_trace_list ''sp,all'' = Inl OutOfBounds"
proof -
  have "''sp'' \<in> fst ` set qemu_reg_trace_items" by (force simp: qemu_reg_trace_items_def)
  from trace_list_all_bounds [OF this] show ?thesis by simp
qed

lemma addrmatch_unsafe: "nul \<notin> set p \<Longrightarrow> addrmatch p n = Inl OutOfBounds"
  by (auto simp: addrmatch_def Let_def dest: in_set_takeD)

lemma memtrace_all: "memtrace_loop ''all'' [] = Inr [''0x0-0xBFFFF'', ''0x20000000-0x3FFFFFFF'']"
  by (subst memtrace_loop.simps) (simp add: Let_def regmatch_def token_len_def)

text \<open>C37: every argument whose first entry is an address or a range makes the parser read past an array: the copy of the address
  has no terminator. Only the words \<^verbatim>\<open>all\<close> and \<^verbatim>\<open>help\<close> are parsed without it.\<close>

theorem memtrace_addresses_unsafe:
  assumes "nul \<notin> set p"
  shows "qemu_str_to_memtrace_list (CHR ''0'' # CHR ''x'' # p) = Inl OutOfBounds
    \<and> qemu_str_to_memtrace_list ''all'' = Inr [''0x0-0xBFFFF'', ''0x20000000-0x3FFFFFFF'']"
proof -
  let ?p = "CHR ''0'' # CHR ''x'' # p"
  have "takeWhile (\<lambda>c. c \<noteq> CHR '','') ?p \<noteq> t" if "hd t \<noteq> CHR ''0''" for t using that by auto
  then have m: "\<not> regmatch ?p (token_len ?p) ''help''" "\<not> regmatch ?p (token_len ?p) ''all''"
    unfolding regmatch_token by fastforce+
  have "nul \<notin> set ?p" using assms by (simp add: nul_printable)
  then have "memtrace_entry ?p n = Inl OutOfBounds" for n by (simp add: memtrace_entry_def addrmatch_unsafe Let_def)
  with m have "memtrace_loop ?p [] = Inl OutOfBounds" by (subst memtrace_loop.simps) (simp add: Let_def)
  then show ?thesis by (simp add: qemu_str_to_memtrace_list_def memtrace_all)
qed

theorem memtrace_addresses_unsafe_witness: "qemu_str_to_memtrace_list ''0x100-0xBFFFF'' = Inl OutOfBounds"
  using memtrace_addresses_unsafe [of "''100-0xBFFFF''"] by (simp add: nul_printable)

text \<open>C38: the keyword \<^verbatim>\<open>all\<close> of the memory tracing option traces the addresses of the first memory; for every other address the mask
  copies the ten characters of the first bound of the second memory into its buffer of ten characters and reads past the end of it.\<close>

theorem memtrace_all_overruns:
  "\<exists>es. qemu_str_to_memtrace_list ''all'' = Inr es
    \<and> (\<forall>addr. qemu_mem_mask es addr = (if addr \<le> 0xBFFFF then Inr True else Inl OutOfBounds))"
proof -
  define b where "b = ''0xBFFFF'' @ replicate 3 nul"
  have n: "nul \<notin> set ''0x0''" "nul \<notin> set ''0xBFFFF''" "nul \<notin> set ''0x20000000''" by (simp_all add: nul_printable)
  have v: "as_int (strtol0 ''0x0'') = 0" "as_int (strtol0 ''0xBFFFF'') = 0xBFFFF"
    by (simp_all add: strtol0_def strtol_digits_def as_int_def isspace_def isxdigit_def isdigit_def hex_val_def hex_digit_def tolower_def Let_def)
  have "takeWhile (\<lambda>c. c \<noteq> nul) (''0x0'' @ replicate 7 nul) = ''0x0''" "takeWhile (\<lambda>c. c \<noteq> nul) b = ''0xBFFFF''"
    unfolding b_def using n(1,2) by (subst takeWhile_append2; auto)+
  then have s: "buf_strtol (''0x0'' @ replicate 7 nul) = Inr 0" "buf_strtol b = Inr 0xBFFFF"
    by (simp_all only: buf_strtol_def v) (simp_all add: b_def)
  have "strncpy_buf (replicate 10 nul) ''0x0'' = Inr (''0x0'' @ replicate 7 nul)"
    "strncpy_buf (''0x0'' @ replicate 7 nul) ''0xBFFFF'' = Inr b" by (simp_all add: strncpy_buf_def b_def numeral_eq_Suc)
  then have 1: "mask_entry ''0x0-0xBFFFF'' addr (replicate 10 nul) = Inr (addr \<le> 0xBFFFF, b)" for addr
    by (simp add: mask_entry_def s del: append_Cons append_Nil)
  have "strncpy_buf b ''0x20000000'' = Inr ''0x20000000''" by (simp add: strncpy_buf_def b_def)
  moreover have "buf_strtol ''0x20000000'' = Inl OutOfBounds" using n(3) by (simp only: buf_strtol_def if_False)
  ultimately have 2: "mask_entry ''0x20000000-0x3FFFFFFF'' addr b = Inl OutOfBounds" for addr by (simp add: mask_entry_def)
  show ?thesis by (simp add: qemu_str_to_memtrace_list_def memtrace_all qemu_mem_mask_def 1 2)
qed

section \<open>The flags\<close>

lemma option_exclusive:
  assumes "handle_option x f = Inr f'" and "x \<noteq> Tick_enable" and "exclusive f"
  shows "exclusive f'"
  using assms by (cases x) (auto simp: exclusive_def rbind_eq_Inr Let_def split: if_splits)

lemma options_exclusive:
  "handle_options xs f = Inr f' \<Longrightarrow> Tick_enable \<notin> set xs \<Longrightarrow> exclusive f \<Longrightarrow> exclusive f'"
  by (induction xs arbitrary: f) (auto simp: rbind_eq_Inr dest: option_exclusive)

text \<open>C39: in whatever order they are given, the options never switch the compact tracer on together with the instruction tracer or
  the register tracer, unless \<^verbatim>\<open>-tick\<close> is among them: it switches the instruction tracer on and leaves the compact one as it is.
  The memory tracer can be combined with the compact one.\<close>

theorem tracers_exclusive:
  assumes "handle_options xs default_flags = Inr f" and "Tick_enable \<notin> set xs"
  shows "\<not> (f_ctracer f \<and> (f_tracer f \<or> f_regtracer f))
    \<and> (\<exists>f'. handle_options [Ppdl_ctrace, Tick_enable] default_flags = Inr f' \<and> f_ctracer f' \<and> f_tracer f')
    \<and> (\<exists>f'. handle_options [Ppdl_ctrace, Memtrace ''all''] default_flags = Inr f' \<and> f_ctracer f' \<and> f_memtracer f')"
proof (intro conjI)
  have "exclusive default_flags" by (simp add: exclusive_def default_flags_def)
  then have "exclusive f" by (rule options_exclusive [OF assms])
  then show "\<not> (f_ctracer f \<and> (f_tracer f \<or> f_regtracer f))" by (simp add: exclusive_def)
qed (simp_all add: default_flags_def qemu_str_to_memtrace_list_def memtrace_all)

theorem tracers_exclusive_witness:
  "\<exists>f. handle_options [Ppdl_ctrace, Ppdl_trace] default_flags = Inr f \<and> \<not> (f_ctracer f \<and> (f_tracer f \<or> f_regtracer f))"
proof -
  obtain f where f: "handle_options [Ppdl_ctrace, Ppdl_trace] default_flags = Inr f" by (simp add: default_flags_def)
  from tracers_exclusive [OF this] f show ?thesis by simp
qed

end
