(* ===== verification/Disasm.thy ===== *)
theory Disasm
  imports Translate Trace_Options
begin

unbundle bit_operations_syntax

text \<open>
  The disassembler of \<^verbatim>\<open>target-ppdl/func_disas.c\<close> and the tracing call of \<^verbatim>\<open>op_helper.c\<close> that prints its lines. The
  variables that keep their value between the calls (\<^verbatim>\<open>tick\<close> and the two static \<^verbatim>\<open>prev_tick\<close>) form the record
  \<open>trace_state\<close>; the signed ones are words of their width, read as signed numbers where the code converts them, and their
  increment past the largest number, which the language leaves undefined, wraps as on two's complement machines.
\<close>

section \<open>Mnemonics\<close>

definition EVM_DisasmList_ArithmOps :: "u32 \<Rightarrow> string" where
  "EVM_DisasmList_ArithmOps idx =
     (if idx = 0 then ''STOP'' else if idx = 1 then ''ADD'' else if idx = 2 then ''MUL'' else
      if idx = 3 then ''SUB'' else if idx = 4 then ''DIV'' else if idx = 5 then ''SDIV'' else
      if idx = 6 then ''MOD'' else if idx = 7 then ''SMOD'' else if idx = 8 then ''ADDMOD'' else
      if idx = 9 then ''MULMOD'' else if idx = 10 then ''EXP'' else if idx = 11 then ''SIGNEXTEND'' else ''wrong_code'')"

definition EVM_DisasmList_CompareLogOps :: "u32 \<Rightarrow> string" where
  "EVM_DisasmList_CompareLogOps idx =
     (if idx = 0 then ''LT'' else if idx = 1 then ''GT'' else if idx = 2 then ''SLT'' else
      if idx = 3 then ''SGT'' else if idx = 4 then ''EQ'' else if idx = 5 then ''ISZERO'' else
      if idx = 6 then ''AND'' else if idx = 7 then ''OR'' else if idx = 8 then ''XOR'' else
      if idx = 9 then ''NOT'' else if idx = 10 then ''BYTE'' else ''wrong_code'')"

definition EVM_DisasmList_MemOps :: "u32 \<Rightarrow> string" where
  "EVM_DisasmList_MemOps idx =
     (if idx = 0 then ''POP'' else if idx = 1 then ''MLOAD'' else if idx = 2 then ''MSTORE'' else
      if idx = 3 then ''MSTORE8'' else if idx = 4 then ''SLOAD'' else if idx = 5 then ''SSTORE'' else
      if idx = 6 then ''JUMP'' else if idx = 7 then ''JUMPI'' else if idx = 8 then ''PC'' else
      if idx = 9 then ''MSIZE'' else if idx = 10 then ''GAS'' else if idx = 11 then ''JUMPDEST'' else ''wrong_code'')"

definition EVM_DisasmList_AccountsData :: "u32 \<Rightarrow> string" where
  "EVM_DisasmList_AccountsData idx =
     (if idx = 0 then ''ADDRESS'' else if idx = 1 then ''BALANCE'' else if idx = 2 then ''ORIGIN'' else
      if idx = 3 then ''CALLER'' else if idx = 4 then ''CALLVALUE'' else
      if idx = 5 then ''CALLDATALOAD'' else if idx = 6 then ''CALLDATASIZE'' else
      if idx = 7 then ''CALLDATACOPY'' else if idx = 8 then ''CODESIZE'' else
      if idx = 9 then ''CODECOPY'' else if idx = 10 then ''GASPRICE'' else
      if idx = 11 then ''EXTCODESIZE'' else if idx = 12 then ''EXTCODECOPY'' else ''wrong_code'')"

definition EVM_DisasmList_BlockChain :: "u32 \<Rightarrow> string" where
  "EVM_DisasmList_BlockChain idx =
     (if idx = 0 then ''BLOCKHASH'' else if idx = 1 then ''COINBASE'' else
      if idx = 2 then ''TIMESTAMP'' else if idx = 3 then ''NUMBER'' else if idx = 4 then ''DIFFICULTY'' else
      if idx = 5 then ''GASLIMIT'' else ''wrong_code'')"

definition EVM_DisasmList_SystemOps :: "u32 \<Rightarrow> string" where
  "EVM_DisasmList_SystemOps idx =
     (if idx = 0 then ''CREATE'' else if idx = 1 then ''CALL'' else if idx = 2 then ''CALLCODE'' else
      if idx = 3 then ''RETURN'' else if idx = 4 then ''DELEGATECALL'' else ''wrong_code'')"

text \<open>The tests for unassigned codes always succeed.\<close>

definition CheckNull_ArithmOps :: "u32 \<Rightarrow> bool" where "CheckNull_ArithmOps aIdx = True"
definition CheckNull_CompareLogOps :: "u32 \<Rightarrow> bool" where "CheckNull_CompareLogOps aIdx = True"
definition CheckNull_MemOps :: "u32 \<Rightarrow> bool" where "CheckNull_MemOps aIdx = True"
definition CheckNull_AccountsData :: "u32 \<Rightarrow> bool" where "CheckNull_AccountsData aIdx = True"
definition CheckNull_BlockChain :: "u32 \<Rightarrow> bool" where "CheckNull_BlockChain aIdx = True"
definition CheckNull_SystemOps :: "u32 \<Rightarrow> bool" where "CheckNull_SystemOps aIdx = True"

definition EVM_Main_GetInstNum :: "u32 \<Rightarrow> nat" where
  "EVM_Main_GetInstNum ocode =
     (let o8 = ucast ocode :: u8 in
      if o8 AND 0xf0 = 0xf0 \<and> CheckNull_SystemOps (ocode AND 0xF) then 1
      else if o8 AND 0xff = 0xfa then 2
      else if o8 AND 0xff = 0xfd then 3
      else if o8 AND 0xff = 0xff then 4
      else if o8 AND 0xf0 = 0x40 \<and> CheckNull_BlockChain (ocode AND 0xF) then 5
      else if o8 AND 0xf0 = 0x30 \<and> CheckNull_AccountsData (ocode AND 0xF) then 6
      else if o8 AND 0xe0 = 0x60 then 7
      else if o8 AND 0xf0 = 0x80 then 8
      else if o8 AND 0xf0 = 0x90 then 9
      else if o8 AND 0xf8 = 0xa0 then 10
      else if o8 AND 0xf0 = 0x50 \<and> CheckNull_MemOps (ocode AND 0xF) then 11
      else if o8 AND 0xf0 = 0 \<and> CheckNull_ArithmOps (ocode AND 0xF) then 12
      else if o8 AND 0xf0 = 0x10 \<and> CheckNull_CompareLogOps (ocode AND 0xF) then 13
      else if o8 AND 0xff = 0x20 then 14
      else 0)"

definition EVM_Main_DisAssembly :: "u8 \<Rightarrow> string \<times> int" where
  "EVM_Main_DisAssembly b =
     (if b AND 0xf0 = 0xf0 \<and> CheckNull_SystemOps (ucast b AND 0xF) then (EVM_DisasmList_SystemOps (ucast b AND 0xF), 1)
      else if b AND 0xff = 0xfa then (''STATICCALL'', 1)
      else if b AND 0xff = 0xfd then (''REVERT'', 1)
      else if b AND 0xff = 0xff then (''SUICIDE'', 1)
      else if b AND 0xf0 = 0x40 \<and> CheckNull_BlockChain (ucast b AND 0xF) then (EVM_DisasmList_BlockChain (ucast b AND 0xF), 1)
      else if b AND 0xf0 = 0x30 \<and> CheckNull_AccountsData (ucast b AND 0xF) then (EVM_DisasmList_AccountsData (ucast b AND 0xF), 1)
      else if b AND 0xe0 = 0x60 then (''PUSH0x'' @ fmt_x (unat (b AND 0x1F)), 1)
      else if b AND 0xf0 = 0x80 then (''DUP'' @ fmt_d (unat (b AND 0xF)), 1)
      else if b AND 0xf0 = 0x90 then (''SWAP'' @ fmt_d (unat (b AND 0xF)), 1)
      else if b AND 0xf8 = 0xa0 then (''LOG'' @ fmt_d (unat (b AND 0x7)), 1)
      else if b AND 0xf0 = 0x50 \<and> CheckNull_MemOps (ucast b AND 0xF) then (EVM_DisasmList_MemOps (ucast b AND 0xF), 1)
      else if b AND 0xf0 = 0 \<and> CheckNull_ArithmOps (ucast b AND 0xF) then (EVM_DisasmList_ArithmOps (ucast b AND 0xF), 1)
      else if b AND 0xf0 = 0x10 \<and> CheckNull_CompareLogOps (ucast b AND 0xF) then (EVM_DisasmList_CompareLogOps (ucast b AND 0xF), 1)
      else if b AND 0xff = 0x20 then (''SHA3'', 1)
      else (''undef inst'', 4))"

definition EVM_GetInstructNum :: "u64 \<Rightarrow> nat" where
  "EVM_GetInstructNum wrd = EVM_Main_GetInstNum (ucast (ucast wrd :: u8))"

section \<open>Lines\<close>

definition fmt_08X :: "u32 \<Rightarrow> string" where
  "fmt_08X w = map (\<lambda>k. HEX_char (unat w div 16 ^ k mod 16)) [7, 6, 5, 4, 3, 2, 1, 0]"

definition fmt_05d :: "u32 \<Rightarrow> string" where
  "fmt_05d w = (let n = sint w; ds = fmt_d (nat \<bar>n\<bar>); s = (if n < 0 then ''-'' else [])
     in s @ replicate (5 - length s - length ds) (CHR ''0'') @ ds)"

definition fmt_ld :: "u64 \<Rightarrow> string" where
  "fmt_ld w = (let n = sint w in (if n < 0 then ''-'' else []) @ fmt_d (nat \<bar>n\<bar>))"

definition DevDisasm :: "guest \<Rightarrow> u32 \<Rightarrow> string" where
  "DevDisasm g aCurPc =
     (let opcode = gmem g (ucast aCurPc); (disasm_code, size) = EVM_Main_DisAssembly opcode; tab = [char_of (9 :: nat)]
      in if size = 4 then fmt_08X aCurPc @ ''          '' @ fmt_08X (ucast opcode) @ tab @ disasm_code @ tab
         else fmt_08X aCurPc @ '' '' @ fmt_08X (ucast opcode) @ ''    '' @ pad_right 9 disasm_code)"

record trace_state =
  tick :: u64
  prev_line :: u32
  prev_call :: u32

definition PrintDisasmLine :: "guest \<Rightarrow> u32 \<Rightarrow> u32 \<Rightarrow> trace_state \<Rightarrow> string \<times> trace_state" where
  "PrintDisasmLine g aCurPc aTicks ts =
     (let disasm_str = DevDisasm g aCurPc;
          n = (if aTicks > prev_line ts + 1 then aTicks - (aTicks - prev_line ts - 1) else aTicks)
      in (fmt_05d n @ '' '' @ disasm_str @ newline, ts \<lparr> prev_line := aTicks \<rparr>))"

section \<open>The tracing call\<close>

text \<open>\<open>i0\<close> is the value of the unassigned variable that \<^verbatim>\<open>compareState\<close> prints.\<close>

definition helper_tracer :: "guest \<Rightarrow> flags \<Rightarrow> nat \<Rightarrow> trace_state \<times> machine \<Rightarrow> trace_state \<times> machine" where
  "helper_tracer g f i0 = (\<lambda>(ts, m).
     let cfg = \<lparr> use_regtracer = f_regtracer f, use_ctracer = f_ctracer f, trace_items = qemu_reg_trace_items,
                 trace_list = f_reg_list f \<rparr>;
         (ts1, m1) =
           (if print_ticks f then (ts, m)
            else let t1 = (if f_regtracer f \<or> f_ctracer f then compareState cfg i0 (envSaved m) (env m) else []);
                     m0 = m \<lparr> envSaved := saveState (envSaved m) (env m), out := out m @ t1 \<rparr>
                 in if f_tracer f \<or> f_ctracer f
                    then let (line, ts') = PrintDisasmLine g (pc (env m)) (ucast (tick ts)) ts;
                             wait = (if tick ts > scast (prev_call ts + 1)
                                     then ''      +'' @ fmt_ld (tick ts - scast (prev_call ts) - 1) @ '' wait'' @ newline else [])
                         in (ts' \<lparr> prev_call := ucast (tick ts) \<rparr>, m0 \<lparr> out := out m0 @ line @ wait \<rparr>)
                    else (ts, m0))
     in (ts1 \<lparr> tick := tick ts1 + 1 \<rparr>, m1))"

text \<open>The code the translator makes for each class of the disassembler.\<close>

definition gen_class :: "guest \<Rightarrow> ambient \<Rightarrow> u64 \<Rightarrow> nat \<Rightarrow> code" where
  "gen_class g A insn c =
     (if c = 0 then Inr
      else [gen_syscall insn, gen_staticcall, gen_revert, gen_suicide, gen_blockchain insn, gen_accounts insn, gen_push g insn,
            gen_dup insn, gen_swap insn, gen_log insn, gen_mem A insn, gen_arithm A insn, gen_compare A insn, gen_sha3 A] ! (c - 1))"

text \<open>The texts that a sequence of calls prints; the machine may change in any way between the calls.\<close>

fun trace_calls :: "guest \<Rightarrow> flags \<Rightarrow> nat \<Rightarrow> machine list \<Rightarrow> trace_state \<Rightarrow> string list" where
  "trace_calls g f i0 [] ts = []"
| "trace_calls g f i0 (m # ms) ts =
     (let (ts', m') = helper_tracer g f i0 (ts, m) in drop (length (out m)) (out m') # trace_calls g f i0 ms ts')"

text \<open>The trace variables after \<open>n\<close> traced instructions.\<close>

definition in_step :: "nat \<Rightarrow> trace_state \<Rightarrow> bool" where
  "in_step n ts \<longleftrightarrow> tick ts = of_nat n \<and> prev_line ts = of_nat n - 1 \<and> prev_call ts = of_nat (n - 1)"

section \<open>Agreement with the translator\<close>

lemma byte_class:
  fixes b k v :: u8
  shows "(ucast b :: u64) AND ucast k = ucast v \<longleftrightarrow> b AND k = v"
proof -
  have "unat ((ucast b :: u64) AND ucast k) = unat (b AND k)" by (simp add: unsigned_and_eq unat_ucast_le)
  moreover have "unat (ucast v :: u64) = unat v" by (simp add: unat_ucast_le)
  ultimately show ?thesis by (simp add: word_unat_eq_iff)
qed

lemmas byte_classes =
  byte_class [of _ "0xf0" "0xf0", simplified] byte_class [of _ "0xff" "0xfa", simplified] byte_class [of _ "0xff" "0xfd", simplified]
  byte_class [of _ "0xff" "0xff", simplified] byte_class [of _ "0xf0" "0x40", simplified] byte_class [of _ "0xf0" "0x30", simplified]
  byte_class [of _ "0xe0" "0x60", simplified] byte_class [of _ "0xf0" "0x80", simplified] byte_class [of _ "0xf0" "0x90", simplified]
  byte_class [of _ "0xf8" "0xa0", simplified] byte_class [of _ "0xf0" "0x50", simplified] byte_class [of _ "0xf0" "0", simplified]
  byte_class [of _ "0xf0" "0x10", simplified] byte_class [of _ "0xff" "0x20", simplified]

lemmas always = CheckNull_ArithmOps_def CheckNull_CompareLogOps_def CheckNull_MemOps_def CheckNull_AccountsData_def
  CheckNull_BlockChain_def CheckNull_SystemOps_def

lemma same_byte: "(ucast (ucast (b :: u8) :: u32) :: u8) = b"
  by (rule bit_word_eqI) (auto simp: bit_simps)

lemma inst_num_class:
  fixes b :: u8
  shows "genBlock_Main g A (ucast b) = (gen_class g A (ucast b) (EVM_Main_GetInstNum (ucast b)), EVM_Main_GetInstNum (ucast b) = 7)"
proof -
  define F where "F c = (gen_class g A (ucast b) c, c = 7)" for c
  have v: "F 0 = (Inr, False)" "F 1 = (gen_syscall (ucast b), False)" "F 2 = (gen_staticcall, False)" "F 3 = (gen_revert, False)"
    "F 4 = (gen_suicide, False)" "F 5 = (gen_blockchain (ucast b), False)" "F 6 = (gen_accounts (ucast b), False)"
    "F 7 = (gen_push g (ucast b), True)" "F 8 = (gen_dup (ucast b), False)" "F 9 = (gen_swap (ucast b), False)"
    "F 10 = (gen_log (ucast b), False)" "F 11 = (gen_mem A (ucast b), False)" "F 12 = (gen_arithm A (ucast b), False)"
    "F 13 = (gen_compare A (ucast b), False)" "F 14 = (gen_sha3 A, False)"
    by (simp_all add: F_def gen_class_def)
  have "F (EVM_Main_GetInstNum (ucast b)) = genBlock_Main g A (ucast b)"
    unfolding genBlock_Main_def EVM_Main_GetInstNum_def Let_def same_byte always byte_classes simp_thms
    by (simp only: if_distrib [of F] v)
  then show ?thesis by (simp add: F_def)
qed

text \<open>The disassembly by class.\<close>

lemma disasm_by_class:
  "EVM_Main_DisAssembly b =
     (let c = EVM_Main_GetInstNum (ucast b); i = ucast b AND 0xF in
      if c = 0 then (''undef inst'', 4)
      else ([EVM_DisasmList_SystemOps i, ''STATICCALL'', ''REVERT'', ''SUICIDE'', EVM_DisasmList_BlockChain i, EVM_DisasmList_AccountsData i,
             ''PUSH0x'' @ fmt_x (unat (b AND 0x1F)), ''DUP'' @ fmt_d (unat (b AND 0xF)), ''SWAP'' @ fmt_d (unat (b AND 0xF)),
             ''LOG'' @ fmt_d (unat (b AND 0x7)), EVM_DisasmList_MemOps i, EVM_DisasmList_ArithmOps i, EVM_DisasmList_CompareLogOps i,
             ''SHA3''] ! (c - 1), 1))"
  (is "_ = (let c = _; i = _ in if c = 0 then ?u else (?L i ! (c - 1), 1))")
proof -
  define F where "F c = (if c = 0 then ?u else (?L (ucast b AND 0xF) ! (c - 1), 1 :: int))" for c :: nat
  have v: "F 0 = ?u" "F 1 = (EVM_DisasmList_SystemOps (ucast b AND 0xF), 1)" "F 2 = (''STATICCALL'', 1)" "F 3 = (''REVERT'', 1)"
    "F 4 = (''SUICIDE'', 1)" "F 5 = (EVM_DisasmList_BlockChain (ucast b AND 0xF), 1)"
    "F 6 = (EVM_DisasmList_AccountsData (ucast b AND 0xF), 1)" "F 7 = (''PUSH0x'' @ fmt_x (unat (b AND 0x1F)), 1)"
    "F 8 = (''DUP'' @ fmt_d (unat (b AND 0xF)), 1)" "F 9 = (''SWAP'' @ fmt_d (unat (b AND 0xF)), 1)"
    "F 10 = (''LOG'' @ fmt_d (unat (b AND 0x7)), 1)" "F 11 = (EVM_DisasmList_MemOps (ucast b AND 0xF), 1)"
    "F 12 = (EVM_DisasmList_ArithmOps (ucast b AND 0xF), 1)" "F 13 = (EVM_DisasmList_CompareLogOps (ucast b AND 0xF), 1)"
    "F 14 = (''SHA3'', 1)"
    unfolding F_def by (simp_all del: fmt_x.simps fmt_d.simps append_Cons)
  have "F (EVM_Main_GetInstNum (ucast b)) = EVM_Main_DisAssembly b"
    unfolding EVM_Main_DisAssembly_def EVM_Main_GetInstNum_def Let_def same_byte always simp_thms
    by (simp only: if_distrib [of F] v)
  then show ?thesis by (simp only: F_def Let_def)
qed

lemma push_class:
  fixes b :: u8
  defines "c \<equiv> 0x60 OR (b AND 0x1F)"
  shows "EVM_Main_GetInstNum (ucast c) = 7" "c AND 0x1F = b AND 0x1F" "c AND 0xe0 = 0x60"
proof -
  have e: "c AND 0xe0 = 0x60" and f: "c AND 0x1F = b AND 0x1F" by (simp_all add: c_def bit.conj_disj_distrib2 and.assoc)
  have n: "c AND k \<noteq> v" if "k AND 0xe0 = 0xe0" "v AND 0xe0 \<noteq> 0x60" for k v
    using that e by (metis and.assoc)
  have "c AND 0xf0 \<noteq> 0xf0" "c AND 0xff \<noteq> 0xfa" "c AND 0xff \<noteq> 0xfd" "c AND 0xff \<noteq> 0xff" "c AND 0xf0 \<noteq> 0x40" "c AND 0xf0 \<noteq> 0x30"
    by (rule n; simp)+
  with e f show "EVM_Main_GetInstNum (ucast c) = 7" "c AND 0x1F = b AND 0x1F" "c AND 0xe0 = 0x60"
    unfolding EVM_Main_GetInstNum_def Let_def same_byte always simp_thms by simp_all
qed

text \<open>C31: the disassembler classifies every instruction byte as the translator does. It takes every instruction to be one byte long and
  every undefined one to be four, while the translator skips the operand of a push; the number it prints for a push is one
  less than the length of the operand.\<close>

theorem disassembler_agrees:
  fixes b :: u8
  shows "genBlock_Main g A (ucast b) = (gen_class g A (ucast b) (EVM_Main_GetInstNum (ucast b)), EVM_Main_GetInstNum (ucast b) = 7)
    \<and> snd (EVM_Main_DisAssembly b) = (if EVM_Main_GetInstNum (ucast b) = 0 then 4 else 1)
    \<and> EVM_Main_DisAssembly (0x60 OR (b AND 0x1F)) = (''PUSH0x'' @ fmt_x (unat (b AND 0x1F)), 1)
    \<and> get_ppdl_shift_pc (0x60 OR (b AND 0x1F)) = ucast (b AND 0x1F) + 2"
proof -
  have "take_bit 5 (ucast c :: u32) = ucast (c AND 0x1F)" for c :: u8
    by (rule bit_word_eqI) (auto simp: bit_simps mask_eq_exp_minus_1 [of 5, where 'a = u8, simplified, symmetric])
  then have "get_ppdl_shift_pc (0x60 OR (b AND 0x1F)) = ucast (b AND 0x1F) + 2"
    by (simp add: get_ppdl_shift_pc_def push_class extract32_low)
  then show ?thesis
    by (simp add: inst_num_class disasm_by_class push_class Let_def del: fmt_x.simps append_Cons)
qed

section \<open>The trace\<close>

lemma scast_of_nat:
  "(scast (of_nat k :: u32) :: u64) = (if k mod 2 ^ 32 < 2 ^ 31 then of_nat (k mod 2 ^ 32) else of_nat (k mod 2 ^ 32) - 2 ^ 32)"
proof -
  define q where "q = k mod 2 ^ 32"
  have q: "q < 2 ^ 32" "uint (of_nat k :: u32) = int q" by (simp_all add: q_def uint_nat unat_of_nat)
  have "sint (of_nat k :: u32) = (if q < 2 ^ 31 then int q else int q - 2 ^ 32)"
  proof (cases "q < 2 ^ 31")
    case True
    then show ?thesis unfolding sint_uint q(2) by (simp add: signed_take_bit_int_eq_self)
  next
    case False
    have "(int q + 2 ^ 31) mod 2 ^ 32 = (int q + 2 ^ 31 - 2 ^ 32) mod 2 ^ 32" by (rule minus_mod_self2 [symmetric])
    also have "\<dots> = int q + 2 ^ 31 - 2 ^ 32" using False q(1) by (intro mod_pos_pos_trivial) simp_all
    finally show ?thesis using False unfolding sint_uint q(2)
      by (simp add: signed_take_bit_eq_take_bit_shift take_bit_eq_mod)
  qed
  moreover have "(scast (of_nat k :: u32) :: u64) = of_int (sint (of_nat k :: u32))" by simp
  ultimately show ?thesis unfolding q_def [symmetric] by simp
qed

text \<open>When the call takes the last call to be too long ago, and the time it then prints.\<close>

lemma wait_condition:
  assumes "n < 2 ^ 64" and "p = of_nat (n - 1)"
  shows "(of_nat n :: u64) > scast ((p :: u32) + 1) \<longleftrightarrow> 2 ^ 32 \<le> n \<and> n mod 2 ^ 32 < 2 ^ 31"
proof -
  define k where "k = (if n = 0 then 1 else n)"
  define q d where "q = k mod 2 ^ 32" and "d = k div 2 ^ 32"
  have k: "p + 1 = of_nat k" using assms(2) by (cases n) (simp_all add: k_def)
  have u: "unat (of_nat n :: u64) = n" using assms(1) by (simp add: unat_of_nat)
  have kd: "k = 2 ^ 32 * d + q" "q < 2 ^ 32" by (simp_all add: q_def d_def)
  have d: "d < 2 ^ 32"
  proof (rule ccontr)
    assume "\<not> d < 2 ^ 32"
    then have "2 ^ 32 * 2 ^ 32 \<le> k" using kd(1) by (simp add: mult_le_mono trans_le_add1)
    then show False using assms(1) by (simp add: k_def split: if_splits)
  qed
  have sc: "(scast (p + 1) :: u64) = (if q < 2 ^ 31 then of_nat q else of_nat q - 2 ^ 32)" unfolding k q_def by (rule scast_of_nat)
  show ?thesis
  proof (cases "q < 2 ^ 31")
    case True
    then have "unat (scast (p + 1) :: u64) = q" by (simp add: sc unat_of_nat)
    then have "(of_nat n :: u64) > scast (p + 1) \<longleftrightarrow> q < n" by (simp add: word_less_nat_alt u)
    moreover have "q < n \<longleftrightarrow> 2 ^ 32 \<le> n" using kd by (cases d) (auto simp: k_def split: if_splits)
    moreover have "n mod 2 ^ 32 < 2 ^ 31" using True by (simp add: q_def k_def split: if_splits)
    ultimately show ?thesis by blast
  next
    case False
    have "unat (of_nat q - 2 ^ 32 :: u64) = q + 2 ^ 64 - 2 ^ 32"
      using False kd(2) by (simp add: unat_sub_if_size word_size unat_of_nat)
    then have "unat (scast (p + 1) :: u64) = q + 2 ^ 64 - 2 ^ 32" using False by (simp only: sc if_False)
    moreover have "n \<le> q + 2 ^ 64 - 2 ^ 32" using kd d by (simp add: k_def split: if_splits)
    ultimately have "\<not> (of_nat n :: u64) > scast (p + 1)" by (simp add: word_less_nat_alt u)
    moreover have "n mod 2 ^ 32 = q" using False by (simp add: q_def k_def split: if_splits)
    ultimately show ?thesis using False by simp
  qed
qed

lemma wait_amount:
  assumes "2 ^ 32 \<le> n" and "n mod 2 ^ 32 < 2 ^ 31"
  shows "(of_nat n :: u64) - scast (of_nat (n - 1) :: u32) - 1 = of_nat (n - n mod 2 ^ 32)"
proof -
  define q d where "q = n mod 2 ^ 32" and "d = n div 2 ^ 32"
  have n: "n = 2 ^ 32 * d + q" "q < 2 ^ 31" using assms(2) by (simp_all add: q_def d_def)
  have "0 < d" using assms(1) n by (cases d) simp_all
  show ?thesis
  proof (cases q)
    case 0
    obtain e where "d = Suc e" using \<open>0 < d\<close> by (cases d) simp_all
    then have "n - 1 = (2 ^ 32 - 1) + 2 ^ 32 * e" using 0 n(1) by simp
    then have "(n - 1) mod 2 ^ 32 = (2 ^ 32 - 1) mod 2 ^ 32" by (simp only: mod_mult_self2)
    then have "(scast (of_nat (n - 1) :: u32) :: u64) = - 1" unfolding scast_of_nat by simp
    then show ?thesis using 0 unfolding q_def [symmetric] by simp
  next
    case (Suc k)
    then have "(n - 1) mod 2 ^ 32 = k" "k < 2 ^ 31" using n by simp_all
    then have "(scast (of_nat (n - 1) :: u32) :: u64) = of_nat k" unfolding scast_of_nat by simp
    moreover have "n = (n - q) + k + 1" using Suc n by simp
    then have "(of_nat n :: u64) = of_nat (n - q) + of_nat k + 1" by (metis of_nat_1 of_nat_add)
    ultimately show ?thesis unfolding q_def [symmetric] by simp
  qed
qed

lemma one_call:
  assumes "in_step n ts" and "n < 2 ^ 64" and "\<not> print_ticks f" and "f_tracer f \<or> f_ctracer f"
    and "helper_tracer g f i0 (ts, m) = (ts', m')"
  shows "in_step (n + 1) ts' \<and> env m' = env m \<and> envSaved m' = saveState (envSaved m) (env m)
    \<and> out m' = out m
        @ (if f_regtracer f \<or> f_ctracer f
           then compareState \<lparr> use_regtracer = f_regtracer f, use_ctracer = f_ctracer f, trace_items = qemu_reg_trace_items,
                  trace_list = f_reg_list f \<rparr> i0 (envSaved m) (env m) else [])
        @ fmt_05d (of_nat n) @ '' '' @ DevDisasm g (pc (env m)) @ newline
        @ (if 2 ^ 32 \<le> n \<and> n mod 2 ^ 32 < 2 ^ 31 then ''      +'' @ fmt_ld (of_nat (n - n mod 2 ^ 32)) @ '' wait'' @ newline else [])"
proof -
  have t: "tick ts = of_nat n" "prev_line ts + 1 = of_nat n" "prev_call ts = of_nat (n - 1)" using assms(1) by (simp_all add: in_step_def)
  have u: "(ucast (tick ts) :: u32) = of_nat n" "tick ts + 1 = 1 + of_nat n"
    using assms(2) by (simp add: t(1) word_unat_eq_iff unat_ucast_mod unat_of_nat, simp add: t(1))
  define w where "w \<longleftrightarrow> 2 ^ 32 \<le> n \<and> n mod 2 ^ 32 < 2 ^ 31"
  have w: "tick ts > scast (prev_call ts + 1) \<longleftrightarrow> w" unfolding t(1) w_def by (rule wait_condition [OF assms(2) t(3)])
  have a: "tick ts - scast (prev_call ts) - 1 = of_nat (n - n mod 2 ^ 32)" if w
    using wait_amount that unfolding t(1,3) w_def by blast
  from assms(3-5) show ?thesis unfolding w_def [symmetric]
    by (cases w) (auto simp: helper_tracer_def PrintDisasmLine_def Let_def w a t(2) u in_step_def)
qed

text \<open>C32: the traced instructions are numbered from zero without a gap, in the signed 32-bit reading of their count: call number \<open>n\<close>
  of a run prints the changes since the last call and one line with its number, which is negative from \<open>2 ^ 31\<close> on. Although no
  call is left out, a waiting time is printed from call \<open>2 ^ 32\<close> on, whenever the count has its bit 31 clear. A call changes no register.\<close>

theorem tracer_numbers_lines:
  assumes "length ms < 2 ^ 64" and "\<not> print_ticks f" and "f_tracer f \<or> f_ctracer f" and "n < length ms"
  shows "trace_calls g f i0 ms \<lparr> tick = 0, prev_line = - 1, prev_call = 0 \<rparr> ! n =
      (if f_regtracer f \<or> f_ctracer f
       then compareState \<lparr> use_regtracer = f_regtracer f, use_ctracer = f_ctracer f, trace_items = qemu_reg_trace_items,
              trace_list = f_reg_list f \<rparr> i0 (envSaved (ms ! n)) (env (ms ! n)) else [])
      @ fmt_05d (of_nat n) @ '' '' @ DevDisasm g (pc (env (ms ! n))) @ newline
      @ (if 2 ^ 32 \<le> n \<and> n mod 2 ^ 32 < 2 ^ 31 then ''      +'' @ fmt_ld (of_nat (n - n mod 2 ^ 32)) @ '' wait'' @ newline else [])
    \<and> env (snd (helper_tracer g f i0 (ts, m))) = env m"
proof
  have *: "trace_calls g f i0 ms ts ! n =
      (if f_regtracer f \<or> f_ctracer f
       then compareState \<lparr> use_regtracer = f_regtracer f, use_ctracer = f_ctracer f, trace_items = qemu_reg_trace_items,
              trace_list = f_reg_list f \<rparr> i0 (envSaved (ms ! n)) (env (ms ! n)) else [])
      @ fmt_05d (of_nat (k + n)) @ '' '' @ DevDisasm g (pc (env (ms ! n))) @ newline
      @ (if 2 ^ 32 \<le> k + n \<and> (k + n) mod 2 ^ 32 < 2 ^ 31
         then ''      +'' @ fmt_ld (of_nat (k + n - (k + n) mod 2 ^ 32)) @ '' wait'' @ newline else [])"
    if "in_step k ts" "k + length ms < 2 ^ 64" "n < length ms" for k ts ms n
    using that
  proof (induction ms arbitrary: k ts n)
    case (Cons m ms)
    obtain ts' m' where h: "helper_tracer g f i0 (ts, m) = (ts', m')" by (meson surj_pair)
    have "k < 2 ^ 64" using Cons.prems(2) by linarith
    note c = one_call [OF Cons.prems(1) this assms(2,3) h]
    show ?case
    proof (cases n)
      case 0
      then show ?thesis using h c by simp
    next
      case (Suc j)
      then have "trace_calls g f i0 ms ts' ! j = trace_calls g f i0 (m # ms) ts ! n" using h by simp
      with Suc Cons.IH [of "k + 1" ts' j] c Cons.prems show ?thesis by simp
    qed
  qed simp
  have "in_step 0 \<lparr> tick = 0, prev_line = - 1, prev_call = 0 \<rparr>" by (simp add: in_step_def)
  from * [OF this, of ms n] assms(1,4)
  show "trace_calls g f i0 ms \<lparr> tick = 0, prev_line = - 1, prev_call = 0 \<rparr> ! n =
      (if f_regtracer f \<or> f_ctracer f
       then compareState \<lparr> use_regtracer = f_regtracer f, use_ctracer = f_ctracer f, trace_items = qemu_reg_trace_items,
              trace_list = f_reg_list f \<rparr> i0 (envSaved (ms ! n)) (env (ms ! n)) else [])
      @ fmt_05d (of_nat n) @ '' '' @ DevDisasm g (pc (env (ms ! n))) @ newline
      @ (if 2 ^ 32 \<le> n \<and> n mod 2 ^ 32 < 2 ^ 31 then ''      +'' @ fmt_ld (of_nat (n - n mod 2 ^ 32)) @ '' wait'' @ newline else [])"
    by (simp only: add_0_left)
  show "env (snd (helper_tracer g f i0 (ts, m))) = env m"
    by (simp add: helper_tracer_def PrintDisasmLine_def Let_def)
qed

theorem tracer_numbers_lines_witness:
  "trace_calls \<lparr> gmem = (\<lambda>_. 0), ram_size = 0x8000000, use_memtracer = False, memlist = [] \<rparr> (default_flags \<lparr> f_tracer := True \<rparr>) 0 [boot, boot]
     \<lparr> tick = 0, prev_line = - 1, prev_call = 0 \<rparr> ! 1
   = fmt_05d 1 @ '' '' @ DevDisasm \<lparr> gmem = (\<lambda>_. 0), ram_size = 0x8000000, use_memtracer = False, memlist = [] \<rparr> (pc (env boot)) @ newline"
  using tracer_numbers_lines [of "[boot, boot]" "default_flags \<lparr> f_tracer := True \<rparr>" 1
    "\<lparr> gmem = (\<lambda>_. 0), ram_size = 0x8000000, use_memtracer = False, memlist = [] \<rparr>" 0]
  by (simp add: default_flags_def del: trace_calls.simps)

end
