(* ===== verification/Spec2Isabelle.thy ===== *)
theory Spec2Isabelle
  imports Control_Flow Environment Stack_Ops Gdbstub Loader Disasm
begin

text \<open>
  A verification of the contract machine of this repository: the processor \<^verbatim>\<open>target-ppdl\<close> of the vendored emulator under
  \<^verbatim>\<open>src/QEMU/qemu\<close>, which runs the byte code of a contract. File names below are relative to that directory, and those
  without a directory are in \<^verbatim>\<open>target-ppdl\<close>.

  \<^bold>\<open>The program.\<close> The loader decodes a program text into memory and sets \<^verbatim>\<open>end_pc\<close>; reset fills the processor record. The
  translator then turns the bytes from the program counter on into a block of generated code, which calls helpers; the helpers
  work on the evaluation stack, on the data memory and on the storage, compute with the big-number library and the hash, and
  charge gas. At the end of a run the machine prints a report. Around this stand the tracer with its disassembler and its
  options, and the registers for a debugger.

  \<^bold>\<open>Theories and sources.\<close>
  \<^item> \<open>Prelude\<close>: C integers as words; \<open>'a run\<close>, the outcome of code that may stop (exit with a status and output, null pointer,
    access out of bounds, uninitialised value, endless loop), with \<open>rbind\<close>; the theorem collections; generic facts.
  \<^item> \<open>Bignum\<close>, \<open>Bignum_Div\<close>, \<open>Bignum_Text\<close> (\<^verbatim>\<open>v_bignum.c\<close>): numbers as lists of 16-bit digits; carry loops, shifts, comparisons,
    the scratch heap, division, text, raw bytes and registers. Each routine is related to the number \<open>bval\<close> of its digits.
  \<^item> \<open>Cpu_State\<close> (\<^verbatim>\<open>translate_cpu.h\<close>, \<^verbatim>\<open>translate_cpu.c\<close>, \<^verbatim>\<open>cpu.c\<close>, \<^verbatim>\<open>bitfield.c\<close>): the record \<open>machine\<close>, reset, snapshot, bit fields.
  \<^item> \<open>Storage\<close> (\<^verbatim>\<open>functions.c\<close>): the list of key/value nodes, through the interface \<open>keyed_store\<close> of a map.
  \<^item> \<open>Keccak\<close> (\<^verbatim>\<open>Keccak.c\<close>, \<^verbatim>\<open>Rotation.h\<close>, \<^verbatim>\<open>SHA_Endian.h\<close>): the hash as the code computes it and as its specification states it.
  \<^item> \<open>Evm_Stack\<close>, \<open>Evm_Gas\<close>, \<open>Evm_Arith\<close>, \<open>Evm_Compare\<close>, \<open>Evm_Ops\<close> (\<^verbatim>\<open>functions.c\<close>, \<^verbatim>\<open>gascost.h\<close>): gas, arithmetic, comparison, hashing,
    report. \<open>holds m st\<close> relates the stack array to a list of 256-bit words; the operations refine word operations.
  \<^item> \<open>Mem_Access\<close> (\<^verbatim>\<open>semihosting_helper.c\<close>, \<^verbatim>\<open>include/qemu/trace.h\<close>): guest memory and the masks of the tracer.
  \<^item> \<open>Helpers\<close>, \<open>Evm_Memory\<close>, \<open>Stack_Ops\<close>, \<open>Environment\<close> (\<^verbatim>\<open>func_helper.c\<close>, \<^verbatim>\<open>func_shared.c\<close>, \<^verbatim>\<open>arglist_helper.c\<close>): the helpers; what the memory
    instructions and the push compute; the stack through the interface \<open>eval_stack\<close>; the instructions on accounts and blocks.
  \<^item> \<open>Translate\<close>, \<open>Block_Exec\<close>, \<open>Control_Flow\<close> (\<^verbatim>\<open>translate_insn.h\<close>, \<^verbatim>\<open>translate.c\<close>): generated code as functions on machine states;
    the refinement of blocks to the instruction table; program counter, jumps, and the size of blocks.
  \<^item> \<open>Trace_Options\<close> (\<^verbatim>\<open>qemu-trace.c\<close>, \<^verbatim>\<open>vl.c\<close>, \<^verbatim>\<open>include/qemu/trace_regs.h\<close>), \<open>Disasm\<close> (\<^verbatim>\<open>func_disas.c\<close>, \<^verbatim>\<open>op_helper.c\<close>), \<open>Gdbstub\<close> (\<^verbatim>\<open>gdbstub.c\<close>),
    \<open>Loader\<close> (\<^verbatim>\<open>hw/core/loader.c\<close>): options, trace lines, debugger registers and program text.
  \<^item> This theory composes loader, reset, translator and helpers: from the text of a program to the result of its first block.

  \<^bold>\<open>What is shown.\<close> The big-number routines compute on \<open>bval\<close>; the stack instructions refine operations on lists of 256-bit words, with
  their gas, for single instructions, sequences of helpers and translated blocks; the storage is a map; the hash is the one of
  its specification for every division of the message into chunks; the encoders and decoders (memory words, bit fields, program
  text, registers, guest memory) are inverse to each other; errors are stated with the state in which they happen. Where the code
  departs from what its names say, the theorem states what the code does: signed instructions that compute unsigned numbers, jumps
  without effect, an address operand gathered with a wrong shift, a heap that is never given back, instructions that are never reached.

  \<^bold>\<open>Bounds.\<close> Machine integers have their width, so every wrap-around is part of the model. The stack array has room for 512 elements
  and the big-number heap has 2080 cells; both bounds are hypotheses (\<open>length st < 512\<close>, \<open>room\<close>), and what happens beyond the second is a
  theorem. \<open>clean 51\<close> says that cells above the heap pointer are unused, as they are after start-up; the conversions of the stack
  elements read them. Loops that may run forever are \<open>partial_function (option)\<close>, and not returning is an outcome of its own; there
  is no fuel. The loop of the translator ends by a measure on the bytes left in the page.

  \<^bold>\<open>Not modelled.\<close> Barrett reduction, squaring and modular power of \<^verbatim>\<open>v_bignum.c\<close>, which have no caller; the memory of the user-mode build;
  address translation (\<^verbatim>\<open>mmu.c\<close>: the installed one is the identity) and interrupts (an empty handler); the migration tables of \<^verbatim>\<open>machine.c\<close>
  and the declarations of \<^verbatim>\<open>translate_tcgreg.h\<close> and \<^verbatim>\<open>helper.h\<close>; the board \<^verbatim>\<open>hw/ppdl/ppdl.c\<close>, whose load address is an argument here; the
  emulator itself (code cache, main loop, devices, remote protocol), of which the model takes that a block is translated from its start
  and executed once. Values that C leaves undefined (uninitialised locals, cells outside an array that the code reads) are arguments.
\<close>

section \<open>Start-up\<close>

lemma started:
  shows "holds (RESET 0 gas e boot) []" "gas_left (RESET 0 gas e boot) = unat gas" "clean 51 (RESET 0 gas e boot)"
    "room k (RESET 0 gas e boot) \<longleftrightarrow> k \<le> HEAP_SIZE" "pc (env (RESET 0 gas e boot)) = 0" "is_pc_const_changed (env (RESET 0 gas e boot)) = 0"
proof -
  have b: "bswap64 0 = 0" by (rule bit_eqI) (simp add: bit_bswap64)
  have "RESET 0 gas e boot = initialize (boot \<lparr> env := reset_env 0 gas e zero_cpu, envSaved := saveState zero_cpu (reset_env 0 gas e zero_cpu) \<rparr>)"
    by (simp add: RESET_def boot_def Let_def)
  then have r: "env (RESET 0 gas e boot) = reset_env 0 gas e zero_cpu" "bigheap (RESET 0 gas e boot) = empty_heap"
    by (simp_all add: initialize_def boot_def)
  show "holds (RESET 0 gas e boot) []" by (simp add: holds_def depth_def stack_list_def r reset_env_def)
  show "gas_left (RESET 0 gas e boot) = unat gas" by (simp add: gas_left_def reg_val_def sum_upto_4 r reset_env_def b)
  show "clean 51 (RESET 0 gas e boot)" by (simp add: clean_def r empty_heap_def)
  show "room k (RESET 0 gas e boot) \<longleftrightarrow> k \<le> HEAP_SIZE" by (simp add: room_def r empty_heap_def)
  show "pc (env (RESET 0 gas e boot)) = 0" "is_pc_const_changed (env (RESET 0 gas e boot)) = 0"
    by (simp_all add: r reset_env_def zero_cpu_def)
qed

lemma write_bytes_zero:
  assumes "length bs < 2 ^ 64"
  shows "write_bytes 0 bs (\<lambda>_. 0) = gmem (bytes_at0 bs)"
proof
  fix a :: u64
  have "fold (\<lambda>i mem. mem(0 + of_nat i := bs ! i)) [0..<n] (\<lambda>_. 0) a = (if unat a < n then bs ! unat a else 0)" if "n < 2 ^ 64" for n
    using that
  proof (induction n)
    case (Suc n)
    then have "a = of_nat n \<longleftrightarrow> unat a = n" by (auto simp: unat_of_nat word_unat_eq_iff)
    with Suc show ?case by (auto simp: less_Suc_eq)
  qed simp
  with assms show "write_bytes 0 bs (\<lambda>_. 0) a = gmem (bytes_at0 bs) a" by (simp add: write_bytes_def bytes_at0_def)
qed

lemma loaded_program:
  assumes "bs \<noteq> []" and "2 * length bs < 2 ^ 31" and "of_nat (2 * length bs) \<le> max_sz"
    and "load_image_targphys tmp (Some (hex_text bs)) (int (2 * length bs)) 0 max_sz \<lparr> roms = [], prog_end = e, roms_loaded = False \<rparr> = Inr (k, L)"
  shows "prog_end L = length bs"
    and "\<lparr> gmem = rom_reset (roms L) (\<lambda>_. 0), ram_size = n, use_memtracer = False, memlist = [] \<rparr> = bytes_at0 (map snd bs) \<lparr> ram_size := n \<rparr>"
proof -
  have L: "prog_end L = length bs"
    "roms L = [\<lparr> raddr = 0, romsize = 2 * length bs, datasize = length bs, rdata = map snd bs \<rparr>]"
    using assms(1-4) loaded_image [of bs "[]" max_sz _ "\<lparr> roms = [], prog_end = e, roms_loaded = False \<rparr>" tmp 0] by auto
  then show "prog_end L = length bs"
    "\<lparr> gmem = rom_reset (roms L) (\<lambda>_. 0), ram_size = n, use_memtracer = False, memlist = [] \<rparr> = bytes_at0 (map snd bs) \<lparr> ram_size := n \<rparr>"
    using assms(2) write_bytes_zero [of "map snd bs"] by (simp_all add: rom_reset_def bytes_at0_def)
qed

text \<open>C2: from the text of a program to the result of its first block. A program file with the hexadecimal digits of the code is
  loaded at address 0 into a cleared RAM of \<open>max_sz\<close> bytes, the processor is reset with the given gas, and the first block is translated and executed:
  the stack is the one of the instruction table for the code, and the gas of the table is charged. The text has less than two
  gigabytes, as the loader requires.\<close>

theorem program_text_runs:
  assumes "bs \<noteq> []" and "2 * length bs < 2 ^ 31" and "of_nat (2 * length bs) \<le> max_sz"
    and "load_image_targphys tmp (Some (hex_text bs)) (int (2 * length bs)) 0 max_sz \<lparr> roms = [], prog_end = e, roms_loaded = False \<rparr> = Inr (k, L)"
    and "g = \<lparr> gmem = rom_reset (roms L) (\<lambda>_. 0), ram_size = unat max_sz, use_memtracer = False, memlist = [] \<rparr>"
    and "gen_intermediate_code g A (plain_cfg (of_nat (prog_end L))) 0 0 False = (code, sz, n, ch)"
    and "block_spec (bytes_at0 (map snd bs) \<lparr> ram_size := unat max_sz \<rparr>) 0 n [] = Some (st, G, K)" and "K + 51 \<le> HEAP_SIZE"
  shows "\<exists>m. code (RESET 0 gas (of_nat (prog_end L)) boot) = Inr m \<and> holds m st \<and> gas_left m = unat gas - G
    \<and> elfSize (env m) = of_nat (length bs)"
proof -
  have L: "prog_end L = length bs" and g: "g = bytes_at0 (map snd bs) \<lparr> ram_size := unat max_sz \<rparr>"
    unfolding assms(5) by (rule loaded_program [OF assms(1-4)])+
  note s = started [where gas = gas and e = "of_nat (prog_end L)"]
  have "memlist g = []" "tracer (plain_cfg (of_nat (prog_end L))) = None" "\<not> singlestep (plain_cfg (of_nat (prog_end L)))"
    by (simp_all add: g bytes_at0_def plain_cfg_def)
  from block_code_refines [OF this assms(6) assms(7) [folded g] s(1) _ s(3)] s(4-6) assms(8)
  obtain m where "code (RESET 0 gas (of_nat (prog_end L)) boot) = Inr m" "holds m st" "ran G K (RESET 0 gas (of_nat (prog_end L)) boot) m"
    by auto
  moreover from this(3) have "elfSize (env (rest (ctl0 m))) = elfSize (env (rest (ctl0 (RESET 0 gas (of_nat (prog_end L)) boot))))"
    by (simp add: ran_def)
  then have "elfSize (env m) = of_nat (length bs)"
    by (simp add: rest_def ctl0_def RESET_def initialize_def reset_env_def boot_def Let_def L)
  ultimately show ?thesis using s(2) by (auto simp: ran_def)
qed

theorem program_text_runs_witness:
  "\<exists>k L code m. load_image_targphys (0, 0) (Some [0x36, 0x30, 0x30, 0x35, 0x36, 0x30, 0x30, 0x37, 0x30, 0x33]) 10 0 0x8000000
       \<lparr> roms = [], prog_end = 0, roms_loaded = False \<rparr> = Inr (k, L)
     \<and> gen_intermediate_code \<lparr> gmem = rom_reset (roms L) (\<lambda>_. 0), ram_size = 0x8000000, use_memtracer = False, memlist = [] \<rparr>
         \<lparr> beyond = \<lambda>_. 0, junk = \<lambda>_. 0 \<rparr> (plain_cfg (of_nat (prog_end L))) 0 0 False = (code, 5, 3, False)
     \<and> code (RESET 0 100 (of_nat (prog_end L)) boot) = Inr m \<and> holds m [2] \<and> gas_left m = 91 \<and> elfSize (env m) = 5"
proof -
  let ?bs = "[(False, 0x60), (False, 5), (False, 0x60), (False, 7), (False, 3)] :: (bool \<times> u8) list"
  define A :: ambient where "A = \<lparr> beyond = \<lambda>_. 0, junk = \<lambda>_. 0 \<rparr>"
  have t: "hex_text ?bs = [0x36, 0x30, 0x30, 0x35, 0x36, 0x30, 0x30, 0x37, 0x30, 0x33]" by (simp add: digit_char_def)
  obtain k L where l: "load_image_targphys (0, 0) (Some (hex_text ?bs)) (int (2 * length ?bs)) 0 0x8000000
      \<lparr> roms = [], prog_end = 0, roms_loaded = False \<rparr> = Inr (k, L)"
    by (rule that, rule loaded_image [where tail = "[]", unfolded append_Nil2]) simp_all
  define g where "g = \<lparr> gmem = rom_reset (roms L) (\<lambda>_. 0), ram_size = unat (0x8000000 :: u64), use_memtracer = False, memlist = [] \<rparr>"
  have r: "bytes_at0 bs \<lparr> ram_size := unat (0x8000000 :: u64) \<rparr> = bytes_at0 bs" for bs by (simp add: bytes_at0_def)
  have "prog_end L = length ?bs" "g = bytes_at0 (map snd ?bs) \<lparr> ram_size := unat (0x8000000 :: u64) \<rparr>"
    unfolding g_def by (rule loaded_program [OF _ _ _ l]; simp)+
  then have L: "prog_end L = length ?bs" "g = bytes_at0 (map snd ?bs)" unfolding r by simp_all
  obtain code where c: "gen_intermediate_code g A (plain_cfg (of_nat (prog_end L))) 0 0 False = (code, 5, 3, False)"
    using subtraction_translated [of A] unfolding L by auto
  have b: "block_spec (bytes_at0 (map snd ?bs) \<lparr> ram_size := unat (0x8000000 :: u64) \<rparr>) 0 3 [] = Some ([2], 9, 325)"
    unfolding r using subtraction_spec by simp
  from program_text_runs [OF _ _ _ l g_def c b, of 100] c l show ?thesis
    unfolding t A_def [symmetric] g_def by (auto simp: HEAP_SIZE_def)
qed

end
